(* ===== verification/Coin_Prelude.thy ===== *)
theory Coin_Prelude
  imports Main "HOL-Library.Word"
begin

text \<open>
  Shared vocabulary of the development.

  \<^item> \<open>'a res\<close> is the outcome of running a piece of C: it returns, it touches memory
    outside its mapping, or it exhausts the fuel given to a loop. \<open>andThen\<close> sequences
    such runs, \<open>wp\<close> and \<open>wlp\<close> are the total and the partial correctness reading.
  \<^item> C integers are natural numbers with the conversions \<open>u32\<close>, \<open>s32\<close> written at the places
    where the C code converts; bytes are 8 bit words.
  \<^item> \<open>le32\<close>/\<open>ld32\<close> and \<open>le64\<close>/\<open>ld64\<close> store and load little-endian integers.
  \<^item> \<open>codec\<close> is the interface of an encoding that can be read back; integers of 32 and 64 bits and
    the index records are instances.
  \<^item> the error codes are those of sherr.h.
\<close>

section \<open>Collections of facts\<close>

named_theorems byte_simps \<open>loads, stores and lengths of byte strings\<close>
named_theorems frame_simps \<open>fields an operation leaves alone\<close>
named_theorems op_defs \<open>bodies of the modelled operations\<close>

section \<open>Outcomes of C code\<close>

datatype 'a res = Ret 'a | Segv | Hang

primrec andThen :: "'a res \<Rightarrow> ('a \<Rightarrow> 'b res) \<Rightarrow> 'b res" where
  "andThen (Ret x) k = k x"
| "andThen Segv k = Segv"
| "andThen Hang k = Hang"

primrec wp :: "'a res \<Rightarrow> ('a \<Rightarrow> bool) \<Rightarrow> bool" where
  "wp (Ret x) P = P x"
| "wp Segv P = False"
| "wp Hang P = False"

primrec wlp :: "'a res \<Rightarrow> ('a \<Rightarrow> bool) \<Rightarrow> bool" where
  "wlp (Ret x) P = P x"
| "wlp Segv P = True"
| "wlp Hang P = True"

lemma wp_andThen [simp]: "wp (andThen m k) P = wp m (\<lambda>x. wp (k x) P)"
  by (cases m) simp_all

lemma wlp_andThen [simp]: "wlp (andThen m k) P = wlp m (\<lambda>x. wlp (k x) P)"
  by (cases m) simp_all

lemma wp_iff: "wp m P \<longleftrightarrow> (\<exists>x. m = Ret x \<and> P x)"
  by (cases m) auto

lemma wlp_iff: "wlp m P \<longleftrightarrow> (\<forall>x. m = Ret x \<longrightarrow> P x)"
  by (cases m) auto

lemma wp_mono: "wp m P \<Longrightarrow> (\<And>x. P x \<Longrightarrow> Q x) \<Longrightarrow> wp m Q"
  by (cases m) auto

lemma wlp_mono: "wlp m P \<Longrightarrow> (\<And>x. P x \<Longrightarrow> Q x) \<Longrightarrow> wlp m Q"
  by (cases m) auto

lemma andThen_Ret_iff: "andThen m k = Ret y \<longleftrightarrow> (\<exists>x. m = Ret x \<and> k x = Ret y)"
  by (cases m) auto

section \<open>Conversions between C integer types\<close>

definition u32 :: "nat \<Rightarrow> nat" where
  "u32 n = n mod 4294967296"

definition u32_of_int :: "int \<Rightarrow> nat" where
  "u32_of_int i = nat (i mod 4294967296)"

definition s32 :: "nat \<Rightarrow> int" where
  "s32 n = (let m = int (n mod 4294967296) in if m < 2147483648 then m else m - 4294967296)"

lemma u32_lt [simp]: "u32 n < 4294967296"
  by (simp add: u32_def)

lemma u32_id [simp]: "n < 4294967296 \<Longrightarrow> u32 n = n"
  by (simp add: u32_def)

lemma u32_u32 [simp]: "u32 (u32 n) = u32 n"
  by (simp add: u32_def)

lemma u32_le: "u32 n \<le> n"
  by (simp add: u32_def)

lemma s32_id [simp]: "n < 2147483648 \<Longrightarrow> s32 n = int n"
  by (simp add: s32_def Let_def)

section \<open>Bytes and little-endian integers\<close>

type_synonym byte = "8 word"

definition byte_of :: "nat \<Rightarrow> byte" where
  "byte_of n = word_of_nat n"

lemma unat_byte_of [simp]: "unat (byte_of n) = n mod 256"
  by (simp add: byte_of_def unat_of_nat)

definition le32 :: "nat \<Rightarrow> byte list" where
  "le32 n = [byte_of n, byte_of (n div 256), byte_of (n div 65536), byte_of (n div 16777216)]"

definition nth0 :: "byte list \<Rightarrow> nat \<Rightarrow> nat" where
  "nth0 bs k = (if k < length bs then unat (bs ! k) else 0)"

definition ld32 :: "byte list \<Rightarrow> nat" where
  "ld32 bs = nth0 bs 0 + 256 * nth0 bs 1 + 65536 * nth0 bs 2 + 16777216 * nth0 bs 3"

definition le64 :: "nat \<Rightarrow> byte list" where
  "le64 n = le32 n @ le32 (n div 4294967296)"

definition ld64 :: "byte list \<Rightarrow> nat" where
  "ld64 bs = ld32 (take 4 bs) + 4294967296 * ld32 (take 4 (drop 4 bs))"

lemma length_le32 [simp, byte_simps]: "length (le32 n) = 4"
  by (simp add: le32_def)

lemma length_le64 [simp, byte_simps]: "length (le64 n) = 8"
  by (simp add: le64_def)

lemma ld32_Cons4: "ld32 [a, b, c, d] = unat a + 256 * unat b + 65536 * unat c + 16777216 * unat d"
  by (simp add: ld32_def nth0_def)

lemma div_mod_256_split:
  "(n::nat) mod 4294967296 = n mod 256 + 256 * (n div 256 mod 256) + 65536 * (n div 65536 mod 256)
     + 16777216 * (n div 16777216 mod 256)"
proof -
  have a: "n mod 65536 = n mod 256 + 256 * (n div 256 mod 256)"
    using mod_mult2_eq [of n 256 256] by simp
  have b: "n mod 16777216 = n mod 65536 + 65536 * (n div 65536 mod 256)"
    using mod_mult2_eq [of n 65536 256] by simp
  have c: "n mod 4294967296 = n mod 16777216 + 16777216 * (n div 16777216 mod 256)"
    using mod_mult2_eq [of n 16777216 256] by simp
  show ?thesis using a b c by simp
qed

lemma ld32_le32 [simp, byte_simps]: "ld32 (le32 n) = u32 n"
  by (simp add: le32_def ld32_Cons4 u32_def div_mod_256_split [of n])

lemma ld64_le64 [byte_simps]: "n < 18446744073709551616 \<Longrightarrow> ld64 (le64 n) = n"
  by (simp add: le64_def ld64_def u32_def)

lemma unat_byte_lt [simp]: "unat (b::byte) < 256"
  using unsigned_less [of b] by simp

lemma unat_byte_le [simp]: "unat (b::byte) \<le> 255"
  using unat_byte_lt [of b] by linarith

lemma nth0_le: "nth0 bs k \<le> 255"
  by (simp add: nth0_def)

lemma ld32_lt [simp]: "ld32 bs < 4294967296"
  using nth0_le [of bs 0] nth0_le [of bs 1] nth0_le [of bs 2] nth0_le [of bs 3]
  unfolding ld32_def by linarith

section \<open>Encodings that can be read back\<close>

locale codec =
  fixes enc :: "'a \<Rightarrow> 'b list"
    and dec :: "'b list \<Rightarrow> 'a"
    and ok :: "'a \<Rightarrow> bool"
  assumes dec_enc: "ok x \<Longrightarrow> dec (enc x) = x"
begin

lemma enc_inj: "ok x \<Longrightarrow> ok y \<Longrightarrow> enc x = enc y \<Longrightarrow> x = y"
  using dec_enc by metis

end

interpretation c32: codec le32 ld32 "\<lambda>n. n < 4294967296"
  by unfold_locales simp

interpretation c64: codec le64 ld64 "\<lambda>n. n < 18446744073709551616"
  by unfold_locales (rule ld64_le64)

section \<open>Error codes (sherr.h)\<close>

abbreviation ERR_NOENT :: int where "ERR_NOENT \<equiv> - 2"
abbreviation ERR_SRCH :: int where "ERR_SRCH \<equiv> - 3"
abbreviation ERR_IO :: int where "ERR_IO \<equiv> - 5"
abbreviation ERR_NOMEM :: int where "ERR_NOMEM \<equiv> - 12"
abbreviation ERR_EXIST :: int where "ERR_EXIST \<equiv> - 17"
abbreviation ERR_ISDIR :: int where "ERR_ISDIR \<equiv> - 21"
abbreviation ERR_INVAL :: int where "ERR_INVAL \<equiv> - 22"
abbreviation ERR_NOLCK :: int where "ERR_NOLCK \<equiv> - 37"
abbreviation ERR_OVERFLOW :: int where "ERR_OVERFLOW \<equiv> - 75"
abbreviation ERR_ILSEQ :: int where "ERR_ILSEQ \<equiv> - 84"

section \<open>Decimal text, as printf's unsigned conversion writes it\<close>

definition digit_char :: "nat \<Rightarrow> char" where
  "digit_char d = char_of (48 + d)"

fun udec :: "nat \<Rightarrow> string" where
  "udec n = (if n < 10 then [digit_char n] else udec (n div 10) @ [digit_char (n mod 10)])"

declare udec.simps [simp del]

lemma of_char_digit [simp]: "d < 10 \<Longrightarrow> of_char (digit_char d) = (48 + d :: nat)"
  by (simp add: digit_char_def)

lemma digit_char_inj: "a < 10 \<Longrightarrow> b < 10 \<Longrightarrow> digit_char a = digit_char b \<Longrightarrow> a = b"
  by (metis add_left_cancel of_char_digit)

lemma udec_nonempty [simp]: "udec n \<noteq> []"
  by (subst udec.simps) simp

lemmas nil_neq_udec [simp] = udec_nonempty [symmetric]

lemma udec_inj: "udec a = udec b \<Longrightarrow> a = b"
proof (induction a arbitrary: b rule: udec.induct)
  case (1 a)
  have dig: "n mod 10 < 10" for n :: nat
    by simp
  show ?case
  proof (cases "a < 10")
    case a: True
    show ?thesis
    proof (cases "b < 10")
      case True
      with 1 a have "digit_char a = digit_char b"
        by (simp add: udec.simps)
      then show ?thesis
        by (rule digit_char_inj [OF a True])
    next
      case False
      with 1(2) a have "[] = udec (b div 10)"
        by (simp add: udec.simps [of a] udec.simps [of b])
      then show ?thesis
        using udec_nonempty by metis
    qed
  next
    case a: False
    show ?thesis
    proof (cases "b < 10")
      case True
      with 1(2) a show ?thesis
        by (simp add: udec.simps [of a] udec.simps [of b])
    next
      case False
      with 1(2) a have eq: "udec (a div 10) = udec (b div 10)"
        "digit_char (a mod 10) = digit_char (b mod 10)"
        by (simp_all add: udec.simps [of a] udec.simps [of b])
      from 1(1) [OF a eq(1)] have "a div 10 = b div 10" .
      moreover have "a mod 10 = b mod 10"
        by (rule digit_char_inj [OF dig dig eq(2)])
      ultimately show ?thesis
        by (metis div_mult_mod_eq)
    qed
  qed
qed

lemma hd_udec_digit: "48 \<le> (of_char (hd (udec n)) :: nat) \<and> (of_char (hd (udec n)) :: nat) < 58"
proof (induction n rule: udec.induct)
  case (1 n)
  show ?case
  proof (cases "n < 10")
    case True
    then show ?thesis
      by (simp add: udec.simps)
  next
    case False
    with 1 show ?thesis
      by (simp add: udec.simps [of n])
  qed
qed

end
