(* ===== verification/Descriptor.thy ===== *)
theory Descriptor
  imports Coin_Prelude
begin

unbundle bit_operations_syntax

text \<open>
  The daemon's descriptor table (shcoind_descriptor.c). Every file map and socket is claimed
  here when it is opened, marked when it is used and released when it is closed.

  \<open>desc\<close> is \<open>struct desc_t\<close>; \<open>desc_state\<close> holds the static variables of the file (the
  table, the cached maximum and the three totals) together with what the code asks of the
  operating system: the kind of an open descriptor (fstat), its peer address, the open-file
  limit and the clock. Buffers are byte strings, a NULL buffer is \<open>None\<close>. An access before
  the table is allocated or below its first entry is \<open>Segv\<close>.
\<close>

section \<open>State\<close>

datatype fd_kind = RegFile | SockFd | OtherFd

record desc =
  d_mode :: int
  d_flag :: nat
  d_total :: int
  d_cstamp :: nat
  d_stamp :: nat
  d_rbuff :: "byte list option"
  d_wbuff :: "byte list option"
  d_net_addr :: "byte list"

record desc_state =
  ds_table :: "(int \<Rightarrow> desc) option"
  ds_total_claim :: nat
  ds_total_mark :: nat
  ds_total_release :: nat
  ds_max_fd :: int
  ds_open_max :: int
  ds_kind :: "int \<Rightarrow> fd_kind option"
  ds_addr :: "int \<Rightarrow> byte list option"
  ds_now :: nat

definition desc_zero :: desc where
  "desc_zero = \<lparr>d_mode = 0, d_flag = 0, d_total = 0, d_cstamp = 0, d_stamp = 0,
     d_rbuff = None, d_wbuff = None, d_net_addr = replicate 16 0\<rparr>"

abbreviation DF_FILE :: nat where "DF_FILE \<equiv> 1"
abbreviation DF_SOCK :: nat where "DF_SOCK \<equiv> 2"
abbreviation DF_MAP :: nat where "DF_MAP \<equiv> 128"

definition int_cast :: "int \<Rightarrow> int" where
  "int_cast i = s32 (u32_of_int i)"

definition u64_inc :: "nat \<Rightarrow> nat" where
  "u64_inc n = Suc n mod 18446744073709551616"

section \<open>Operations\<close>

definition get_max_descriptors :: "desc_state \<Rightarrow> int \<times> desc_state" where
  "get_max_descriptors s =
     (if ds_max_fd s = 0
      then (let m = (if ds_open_max s > 1024 then int_cast (ds_open_max s) else 1024)
            in (m, s\<lparr>ds_max_fd := m\<rparr>))
      else (ds_max_fd s, s))"

definition desc_table_init :: "desc_state \<Rightarrow> desc_state" where
  "desc_table_init s =
     (case ds_table s of None \<Rightarrow> s\<lparr>ds_table := Some (\<lambda>_. desc_zero)\<rparr> | Some _ \<Rightarrow> s)"

definition desc_at :: "desc_state \<Rightarrow> int \<Rightarrow> desc res" where
  "desc_at s fd =
     (case ds_table s of None \<Rightarrow> Segv | Some t \<Rightarrow> if fd < 0 then Segv else Ret (t fd))"

definition desc_put :: "desc_state \<Rightarrow> int \<Rightarrow> desc \<Rightarrow> desc_state" where
  "desc_put s fd d =
     (case ds_table s of None \<Rightarrow> s | Some t \<Rightarrow> s\<lparr>ds_table := Some (t(fd := d))\<rparr>)"

fun descriptor_flag_loop :: "string list \<Rightarrow> nat \<Rightarrow> nat \<Rightarrow> nat \<Rightarrow> string \<Rightarrow> string res" where
  "descriptor_flag_loop lab 0 i flag buf = Ret buf"
| "descriptor_flag_loop lab (Suc n) i flag buf =
     (if bit flag i
      then (if i < length lab
            then descriptor_flag_loop lab n (Suc i) flag
                   ((if buf = [] then buf else buf @ '' '') @ lab ! i)
            else Segv)
      else descriptor_flag_loop lab n (Suc i) flag buf)"

definition descriptor_flag_label :: "string list" where
  "descriptor_flag_label = [''file'', ''sock'', ''service'', ''shutdown'', ''peer-scan'',
     ''inbound'', ''listen'', ''map'', ''sync'', ''esl'']"

definition descriptor_flag_str :: "nat \<Rightarrow> string res" where
  "descriptor_flag_str flag = descriptor_flag_loop descriptor_flag_label 32 0 flag []"

definition descriptor_claim ::
  "int \<Rightarrow> int \<Rightarrow> nat \<Rightarrow> desc_state \<Rightarrow> (bool \<times> desc_state) res" where
  "descriptor_claim fd mode flag s0 =
     (let (mx, s1) = get_max_descriptors s0 in
      if fd \<ge> mx then Ret (False, s1)
      else
        (let s = desc_table_init s1 in
         andThen (desc_at s fd) (\<lambda>d0.
         (let d1 = (if d_flag d0 \<noteq> 0 then d0\<lparr>d_wbuff := None, d_rbuff := None\<rparr> else d0);
              flag' = (case ds_kind s fd of
                         Some SockFd \<Rightarrow> flag OR DF_SOCK
                       | Some RegFile \<Rightarrow> flag OR DF_FILE
                       | _ \<Rightarrow> flag);
              \<comment> \<open>memset(d, 0, sizeof(d)): the size of the pointer, which covers mode and flag only\<close>
              d2 = d1\<lparr>d_mode := 0, d_flag := 0\<rparr>;
              d3 = d2\<lparr>d_mode := mode, d_flag := flag', d_cstamp := ds_now s, d_stamp := 0\<rparr>;
              d4 = (if bit flag' 1
                    then d3\<lparr>d_net_addr := (case ds_addr s fd of
                                              None \<Rightarrow> replicate 16 0 | Some a \<Rightarrow> a)\<rparr>
                    else d3)
          in Ret (True, (desc_put s fd d4)\<lparr>ds_total_claim := u64_inc (ds_total_claim s)\<rparr>)))))"

definition descriptor_mark :: "int \<Rightarrow> desc_state \<Rightarrow> (bool \<times> desc_state) res" where
  "descriptor_mark fd s0 =
     (let (mx, s1) = get_max_descriptors s0 in
      if fd \<ge> mx then Ret (False, s1)
      else
        (let s = desc_table_init s1 in
         andThen (desc_at s fd) (\<lambda>d.
         if d_flag d = 0 then Ret (False, s)
         else Ret (True, (desc_put s fd (d\<lparr>d_total := d_total d + 1, d_stamp := ds_now s\<rparr>))
                          \<lparr>ds_total_mark := u64_inc (ds_total_mark s)\<rparr>))))"

definition descriptor_release :: "int \<Rightarrow> desc_state \<Rightarrow> desc_state res" where
  "descriptor_release fd s0 =
     (let (mx, s1) = get_max_descriptors s0 in
      if fd \<ge> mx then Ret s1
      else
        (let s = desc_table_init s1 in
         andThen (desc_at s fd) (\<lambda>d.
         (let s' = (if ds_kind s fd \<noteq> None then s\<lparr>ds_kind := (ds_kind s)(fd := None)\<rparr> else s)
          in Ret ((desc_put s' fd desc_zero)
                    \<lparr>ds_total_release := u64_inc (ds_total_release s)\<rparr>)))))"

definition descriptor_get :: "int \<Rightarrow> desc_state \<Rightarrow> (desc option \<times> desc_state) res" where
  "descriptor_get fd s0 =
     (let (mx, s) = get_max_descriptors s0 in
      if fd \<ge> mx then Ret (None, s)
      else andThen (desc_at s fd) (\<lambda>d. Ret (if d_flag d = 0 then None else Some d, s)))"

definition buf_cat :: "byte list option \<Rightarrow> byte list \<Rightarrow> byte list option" where
  "buf_cat b data = Some ((case b of None \<Rightarrow> [] | Some x \<Rightarrow> x) @ data)"

definition descriptor_rbuff_add :: "int \<Rightarrow> byte list \<Rightarrow> desc_state \<Rightarrow> desc_state res" where
  "descriptor_rbuff_add fd data s0 =
     (let (mx, s) = get_max_descriptors s0 in
      if fd \<ge> mx \<or> data = [] then Ret s
      else andThen (desc_at s fd) (\<lambda>d.
        if d_flag d = 0 then Ret s
        else Ret (desc_put s fd (d\<lparr>d_rbuff := buf_cat (d_rbuff d) data\<rparr>))))"

definition descriptor_wbuff_add :: "int \<Rightarrow> byte list \<Rightarrow> desc_state \<Rightarrow> desc_state res" where
  "descriptor_wbuff_add fd data s0 =
     (let (mx, s) = get_max_descriptors s0 in
      if fd \<ge> mx \<or> data = [] then Ret s
      else andThen (desc_at s fd) (\<lambda>d.
        if d_flag d = 0 then Ret s
        else Ret (desc_put s fd (d\<lparr>d_wbuff := buf_cat (d_wbuff d) data\<rparr>))))"

definition descriptor_rbuff ::
  "int \<Rightarrow> desc_state \<Rightarrow> (byte list option \<times> desc_state) res" where
  "descriptor_rbuff fd s0 =
     (let (mx, s) = get_max_descriptors s0 in
      if fd \<ge> mx then Ret (None, s)
      else andThen (desc_at s fd) (\<lambda>d.
        if d_flag d = 0 then Ret (None, s)
        else (case d_rbuff d of
                None \<Rightarrow> Ret (Some [], desc_put s fd (d\<lparr>d_rbuff := Some []\<rparr>))
              | Some b \<Rightarrow> Ret (Some b, s))))"

definition descriptor_wbuff ::
  "int \<Rightarrow> desc_state \<Rightarrow> (byte list option \<times> desc_state) res" where
  "descriptor_wbuff fd s0 =
     (let (mx, s) = get_max_descriptors s0 in
      if fd \<ge> mx then Ret (None, s)
      else andThen (desc_at s fd) (\<lambda>d.
        if d_flag d = 0 then Ret (None, s)
        else (case d_wbuff d of
                None \<Rightarrow> Ret (Some [], desc_put s fd (d\<lparr>d_wbuff := Some []\<rparr>))
              | Some b \<Rightarrow> Ret (Some b, s))))"

definition get_total_descriptor_claimed :: "desc_state \<Rightarrow> int" where
  "get_total_descriptor_claimed s = s32 (ds_total_claim s)"

section \<open>What the operations leave alone\<close>

lemma get_max_frame [frame_simps]:
  "ds_kind (snd (get_max_descriptors s)) = ds_kind s"
  "ds_now (snd (get_max_descriptors s)) = ds_now s"
  "ds_table (snd (get_max_descriptors s)) = ds_table s"
  "ds_open_max (snd (get_max_descriptors s)) = ds_open_max s"
  by (simp_all add: get_max_descriptors_def Let_def)

lemma desc_table_init_frame [frame_simps]:
  "ds_kind (desc_table_init s) = ds_kind s"
  "ds_now (desc_table_init s) = ds_now s"
  "ds_table (desc_table_init s) \<noteq> None"
  by (simp_all add: desc_table_init_def split: option.splits)

lemma desc_put_frame [frame_simps]:
  "ds_kind (desc_put s fd d) = ds_kind s"
  "ds_now (desc_put s fd d) = ds_now s"
  by (simp_all add: desc_put_def split: option.splits)

lemma desc_at_init: "0 \<le> fd \<Longrightarrow> \<exists>d. desc_at (desc_table_init s) fd = Ret d"
  by (simp add: desc_at_def desc_table_init_def split: option.splits)

text \<open>With a descriptor that is not negative the three calls a file map makes return.\<close>

lemma descriptor_claim_ret:
  assumes "0 \<le> fd"
  shows "\<exists>r s'. descriptor_claim fd mode flag s = Ret (r, s') \<and> ds_now s' = ds_now s
           \<and> ds_kind s' = ds_kind s"
  using desc_at_init [OF assms, of "snd (get_max_descriptors s)"]
  by (auto simp: descriptor_claim_def Let_def frame_simps split_beta)

lemma descriptor_mark_ret:
  assumes "0 \<le> fd"
  shows "\<exists>r s'. descriptor_mark fd s = Ret (r, s') \<and> ds_now s' = ds_now s
           \<and> ds_kind s' = ds_kind s"
  using desc_at_init [OF assms, of "snd (get_max_descriptors s)"]
  by (auto simp: descriptor_mark_def Let_def frame_simps split_beta)

lemma descriptor_release_ret:
  assumes "0 \<le> fd"
  shows "\<exists>s'. descriptor_release fd s = Ret s' \<and> ds_now s' = ds_now s"
  using desc_at_init [OF assms, of "snd (get_max_descriptors s)"]
  by (auto simp: descriptor_release_def Let_def frame_simps split_beta)

end
