(* ===== verification/Bc_Map.thy ===== *)
theory Bc_Map
  imports Descriptor
begin

text \<open>
  The file maps of the block store (blockchain/bc.h, bc_fmap.c, bc_mutex.c): a growing file
  with a 16 byte header, mapped into memory.

  A file is its size and its bytes. A \<open>bc_map_t\<close> is the record \<open>bc_map\<close>; its \<open>hdr\<close> and
  \<open>raw\<close> pointers are set and cleared together and point into the shared mapping of the file,
  so the model keeps one flag (\<open>m_hdr\<close>) and reads and writes the file itself. A pointer to a
  map is a \<open>bc_slot\<close>. \<open>bc_state\<close> is one \<open>bc_t\<close> with the operating system around it: the
  files of the store's directory, the next descriptor number, and \<open>os_faults\<close>, the results of
  the system calls to come. Every call to pthread_mutex_lock, open, fstat, read, write,
  ftruncate, mmap, malloc takes the next entry: 0 (or no entry left) is success, anything else
  is the libshare code of the failure. An access outside the mapping is \<open>Segv\<close>.
\<close>

section \<open>Files, maps and the store's state\<close>

record bc_file =
  fsize :: nat
  fbytes :: "nat \<Rightarrow> byte"

definition fread :: "bc_file \<Rightarrow> nat \<Rightarrow> nat \<Rightarrow> byte list" where
  "fread f off n = map (\<lambda>i. fbytes f (off + i)) [0..<n]"

definition put_bytes :: "(nat \<Rightarrow> byte) \<Rightarrow> nat \<Rightarrow> byte list \<Rightarrow> nat \<Rightarrow> byte" where
  "put_bytes g off bs i = (if off \<le> i \<and> i < off + length bs then bs ! (i - off) else g i)"

definition fwrite :: "bc_file \<Rightarrow> nat \<Rightarrow> byte list \<Rightarrow> bc_file" where
  "fwrite f off bs = f\<lparr>fbytes := put_bytes (fbytes f) off bs\<rparr>"

definition ftrunc :: "bc_file \<Rightarrow> nat \<Rightarrow> bc_file" where
  "ftrunc f n = f\<lparr>fsize := n, fbytes := (\<lambda>i. if i < n then fbytes f i else 0)\<rparr>"

definition empty_file :: bc_file where
  "empty_file = \<lparr>fsize = 0, fbytes = (\<lambda>_. 0)\<rparr>"

record bc_map =
  m_fd :: int
  m_size :: nat
  m_stamp :: nat
  m_ext :: string
  m_hdr :: bool

definition bc_map_zero :: bc_map where
  "bc_map_zero = \<lparr>m_fd = 0, m_size = 0, m_stamp = 0, m_ext = [], m_hdr = False\<rparr>"

datatype bc_slot = IdxMap | TabMap | ArchMap | DataMap nat

record bc_state =
  bc_name :: string
  idx_map :: bc_map
  tab_map :: bc_map
  arch_map :: bc_map
  data_map :: "bc_map list"
  bc_lk :: nat
  os_faults :: "int list"
  os_files :: "string \<Rightarrow> bc_file option"
  os_isreg :: "string \<Rightarrow> bool"
  os_next_fd :: int
  os_base :: string
  os_ifaces :: "string option list"
  os_desc :: desc_state

primrec get_map :: "bc_state \<Rightarrow> bc_slot \<Rightarrow> bc_map" where
  "get_map s IdxMap = idx_map s"
| "get_map s TabMap = tab_map s"
| "get_map s ArchMap = arch_map s"
| "get_map s (DataMap j) = data_map s ! j"

primrec set_map :: "bc_state \<Rightarrow> bc_slot \<Rightarrow> bc_map \<Rightarrow> bc_state" where
  "set_map s IdxMap m = s\<lparr>idx_map := m\<rparr>"
| "set_map s TabMap m = s\<lparr>tab_map := m\<rparr>"
| "set_map s ArchMap m = s\<lparr>arch_map := m\<rparr>"
| "set_map s (DataMap j) m = s\<lparr>data_map := (data_map s)[j := m]\<rparr>"

definition bc_path :: "bc_state \<Rightarrow> string \<Rightarrow> string" where
  "bc_path s ext = os_base s @ ''/'' @ bc_name s @ ''.'' @ ext"

definition slot_path :: "bc_state \<Rightarrow> bc_slot \<Rightarrow> string" where
  "slot_path s sl = bc_path s (m_ext (get_map s sl))"

definition slot_file :: "bc_state \<Rightarrow> bc_slot \<Rightarrow> bc_file option" where
  "slot_file s sl = os_files s (slot_path s sl)"

definition put_file :: "bc_state \<Rightarrow> string \<Rightarrow> bc_file \<Rightarrow> bc_state" where
  "put_file s p f = s\<lparr>os_files := (os_files s)(p := Some f)\<rparr>"

section \<open>System calls and the lock\<close>

definition sys :: "bc_state \<Rightarrow> int \<times> bc_state" where
  "sys s = (case os_faults s of [] \<Rightarrow> (0, s) | e # es \<Rightarrow> (e, s\<lparr>os_faults := es\<rparr>))"

definition sys_close :: "int \<Rightarrow> bc_state \<Rightarrow> bc_state" where
  "sys_close fd s = s\<lparr>os_desc := (os_desc s)\<lparr>ds_kind := (ds_kind (os_desc s))(fd := None)\<rparr>\<rparr>"

definition bc_lock :: "bc_state \<Rightarrow> bool \<times> bc_state" where
  "bc_lock s = (case sys s of (e, s1) \<Rightarrow>
     if e \<noteq> 0 then (False, s1) else (True, s1\<lparr>bc_lk := Suc (bc_lk s1)\<rparr>))"

definition bc_trylock :: "bc_state \<Rightarrow> bool \<times> bc_state" where
  "bc_trylock s = (case sys s of (e, s1) \<Rightarrow>
     if e \<noteq> 0 then (False, s1) else (True, s1\<lparr>bc_lk := Suc (bc_lk s1)\<rparr>))"

definition bc_unlock :: "bc_state \<Rightarrow> bc_state" where
  "bc_unlock s = s\<lparr>bc_lk := bc_lk s - 1\<rparr>"

text \<open>
  The public entry points all have one shape: take the lock or return \<open>ERR_NOLCK\<close>, run the
  static worker, drop the lock. \<open>locked r f\<close> is that shape, with \<open>r\<close> the value returned when
  the lock is refused.
\<close>

definition locked ::
  "'r \<Rightarrow> (bc_state \<Rightarrow> ('r \<times> bc_state) res) \<Rightarrow> bc_state \<Rightarrow> ('r \<times> bc_state) res" where
  "locked r f s = (case bc_lock s of (ok, s1) \<Rightarrow>
     if \<not> ok then Ret (r, s1)
     else andThen (f s1) (\<lambda>(v, s2). Ret (v, bc_unlock s2)))"

section \<open>The header and the mapped bytes\<close>

abbreviation BC_MAP_BLOCK_SIZE :: nat where "BC_MAP_BLOCK_SIZE \<equiv> 16384"
abbreviation MAX_BC_MAP_SIZE :: nat where "MAX_BC_MAP_SIZE \<equiv> 4294967280"
abbreviation SHMEM32_MAGIC :: nat where "SHMEM32_MAGIC \<equiv> 579373090"
abbreviation BC_HDR_SIZE :: nat where "BC_HDR_SIZE \<equiv> 16"

definition hdr_bytes :: "nat \<Rightarrow> nat \<Rightarrow> nat \<Rightarrow> byte list" where
  "hdr_bytes stamp magic of' = le64 stamp @ le32 magic @ le32 of'"

definition f_magic :: "bc_file \<Rightarrow> nat" where
  "f_magic f = ld32 (fread f 8 4)"

definition f_of :: "bc_file \<Rightarrow> nat" where
  "f_of f = ld32 (fread f 12 4)"

definition hdr_of :: "bc_state \<Rightarrow> bc_slot \<Rightarrow> nat res" where
  "hdr_of s sl =
     (if m_hdr (get_map s sl)
      then (case slot_file s sl of None \<Rightarrow> Segv | Some f \<Rightarrow> Ret (f_of f))
      else Segv)"

definition set_hdr_of :: "bc_slot \<Rightarrow> nat \<Rightarrow> bc_state \<Rightarrow> bc_state res" where
  "set_hdr_of sl v s =
     (if m_hdr (get_map s sl)
      then (case slot_file s sl of
              None \<Rightarrow> Segv
            | Some f \<Rightarrow> Ret (put_file s (slot_path s sl) (fwrite f 12 (le32 v))))
      else Segv)"

definition raw_read :: "bc_state \<Rightarrow> bc_slot \<Rightarrow> nat \<Rightarrow> nat \<Rightarrow> byte list res" where
  "raw_read s sl off n =
     (if m_hdr (get_map s sl) \<and> BC_HDR_SIZE + off + n \<le> m_size (get_map s sl)
      then (case slot_file s sl of None \<Rightarrow> Segv | Some f \<Rightarrow> Ret (fread f (BC_HDR_SIZE + off) n))
      else Segv)"

definition raw_write :: "bc_slot \<Rightarrow> nat \<Rightarrow> byte list \<Rightarrow> bc_state \<Rightarrow> bc_state res" where
  "raw_write sl off bs s =
     (if m_hdr (get_map s sl) \<and> BC_HDR_SIZE + off + length bs \<le> m_size (get_map s sl)
      then (case slot_file s sl of
              None \<Rightarrow> Segv
            | Some f \<Rightarrow> Ret (put_file s (slot_path s sl) (fwrite f (BC_HDR_SIZE + off) bs)))
      else Segv)"

section \<open>The operations of bc\_fmap.c\<close>

fun iface_prefix :: "string option list \<Rightarrow> int \<Rightarrow> string \<Rightarrow> int" where
  "iface_prefix [] idx name = 0"
| "iface_prefix (None # is) idx name = iface_prefix is (idx + 1) name"
| "iface_prefix (Some n # is) idx name =
     (if take (length n) name = n then idx else iface_prefix is (idx + 1) name)"

definition bc_iface_index :: "string option list \<Rightarrow> string \<Rightarrow> int" where
  "bc_iface_index ifaces name = iface_prefix (drop 1 (take 7 ifaces)) 1 name"

text \<open>The part of \<open>_bc_map_open\<close> after the file has been opened as \<open>fd\<close>.\<close>

definition map_open_fd :: "bc_slot \<Rightarrow> int \<Rightarrow> bc_state \<Rightarrow> (int \<times> bc_state) res" where
  "map_open_fd sl fd s1 =
     (case sys s1 of (e2, s2) \<Rightarrow>
      if e2 \<noteq> 0 then Ret (e2, sys_close fd s2)
      else if \<not> os_isreg s2 (slot_path s2 sl) then Ret (ERR_ISDIR, sys_close fd s2)
      else
        (let p = slot_path s2 sl;
             f = (case os_files s2 p of None \<Rightarrow> empty_file | Some f \<Rightarrow> f) in
         case sys s2 of (e3, s3) \<Rightarrow>
           andThen
             (if e3 \<noteq> 0 \<or> fsize f < BC_HDR_SIZE \<or> f_magic f \<noteq> SHMEM32_MAGIC
              then (case sys s3 of (e4, s4) \<Rightarrow>
                if e4 \<noteq> 0 then Ret (e4, 0, sys_close fd s4)
                else (let f4 = ftrunc f BC_MAP_BLOCK_SIZE in
                  case sys s4 of (e5, s5) \<Rightarrow>
                    Ret (0, BC_MAP_BLOCK_SIZE,
                      put_file s5 p
                        (if e5 \<noteq> 0 then f4
                         else fwrite f4 0 (hdr_bytes (ds_now (os_desc s5)) SHMEM32_MAGIC 0)))))
              else Ret (0, fsize f, s3))
             (\<lambda>(err, sz, s6).
               if err \<noteq> 0 then Ret (err, s6)
               else
                 (let s7 = set_map s6 sl
                             ((get_map s6 sl)\<lparr>m_fd := fd, m_size := sz, m_hdr := False\<rparr>) in
                  andThen (descriptor_claim fd (bc_iface_index (os_ifaces s7) (bc_name s7)) DF_MAP
                             (os_desc s7))
                    (\<lambda>(d, ds). Ret (0, s7\<lparr>os_desc := ds\<rparr>))))))"

definition s_bc_map_open :: "bc_slot \<Rightarrow> bc_state \<Rightarrow> (int \<times> bc_state) res" where
  "s_bc_map_open sl s =
     (let m = get_map s sl in
      if m_fd m \<noteq> 0
      then andThen (descriptor_mark (m_fd m) (os_desc s)) (\<lambda>(d, ds). Ret (0, s\<lparr>os_desc := ds\<rparr>))
      else
        (case sys s of (e1, s1) \<Rightarrow>
          if e1 \<noteq> 0 then Ret (e1, s1)
          else
            (let fd = os_next_fd s1;
                 p = slot_path s1 sl;
                 f = (case os_files s1 p of None \<Rightarrow> empty_file | Some f \<Rightarrow> f)
             in map_open_fd sl fd
                  ((put_file s1 p f)
                     \<lparr>os_next_fd := fd + 1,
                      os_desc := (os_desc s1)\<lparr>ds_kind := (ds_kind (os_desc s1))
                        (fd := Some (if os_isreg s1 p then RegFile else OtherFd))\<rparr>\<rparr>))))"

definition bc_map_open :: "bc_slot \<Rightarrow> bc_state \<Rightarrow> (int \<times> bc_state) res" where
  "bc_map_open sl = locked ERR_NOLCK (s_bc_map_open sl)"

definition bc_map_free :: "bc_slot \<Rightarrow> bc_state \<Rightarrow> bc_state" where
  "bc_map_free sl s =
     (let m = get_map s sl in
      if m_hdr m then set_map s sl (m\<lparr>m_hdr := False, m_size := 0\<rparr>) else s)"

text \<open>The size \<open>_bc_map_alloc\<close> gives a map that is too small, in 32 bit arithmetic.\<close>

definition grow_size :: "nat \<Rightarrow> nat \<Rightarrow> nat" where
  "grow_size st len =
     (let size1 = u32 (st + len);
          size2 = u32 (size1 + size1 div 10)
      in u32 ((size2 div BC_MAP_BLOCK_SIZE + 1) * BC_MAP_BLOCK_SIZE))"

definition map_grow :: "bc_slot \<Rightarrow> nat \<Rightarrow> nat \<Rightarrow> nat \<Rightarrow> bc_state \<Rightarrow> (int \<times> bc_state) res" where
  "map_grow sl mof len sz s =
     (case slot_file s sl of
        None \<Rightarrow> Ret (- 9, s)
      | Some f \<Rightarrow>
        andThen
          (if sz < BC_MAP_BLOCK_SIZE \<or> BC_HDR_SIZE + mof + len \<ge> fsize f
           then (case sys s of (e, s1) \<Rightarrow>
             if e \<noteq> 0 then Ret (e, 0, s1)
             else Ret (0, grow_size (fsize f) len,
                       put_file s1 (slot_path s1 sl) (ftrunc f (grow_size (fsize f) len))))
           else Ret (0, sz, s))
          (\<lambda>(err, sz', s2).
            if err \<noteq> 0 then Ret (err, s2)
            else (case sys s2 of (e, s3) \<Rightarrow>
              if e \<noteq> 0 \<or> sz' = 0 then Ret (ERR_NOMEM, s3)
              else Ret (0, set_map s3 sl ((get_map s3 sl)\<lparr>m_hdr := True, m_size := sz'\<rparr>)))))"

definition s_bc_map_alloc :: "bc_slot \<Rightarrow> nat \<Rightarrow> bc_state \<Rightarrow> (int \<times> bc_state) res" where
  "s_bc_map_alloc sl len s =
     andThen (bc_map_open sl s) (\<lambda>(err, s1).
     if err \<noteq> 0 then Ret (err, s1)
     else
       (case sys s1 of (e, s2) \<Rightarrow>
        if e \<noteq> 0 then Ret (e, s2)
        else
          (case slot_file s2 sl of
             None \<Rightarrow> Ret (- 9, s2)
           | Some f \<Rightarrow>
             (let sz = u32 (fsize f div BC_MAP_BLOCK_SIZE * BC_MAP_BLOCK_SIZE) in
              if sz \<ge> MAX_BC_MAP_SIZE then Ret (ERR_OVERFLOW, s2)
              else if \<not> m_hdr (get_map s2 sl)
              then (case sys s2 of (e', s3) \<Rightarrow>
                     map_grow sl (if e' = 0 \<and> BC_HDR_SIZE \<le> fsize f then f_of f else 0)
                       len sz s3)
              else if BC_HDR_SIZE + f_of f + len < fsize f then Ret (0, s2)
              else map_grow sl (f_of f) len sz (bc_map_free sl s2)))))"

definition bc_map_alloc :: "bc_slot \<Rightarrow> nat \<Rightarrow> bc_state \<Rightarrow> (int \<times> bc_state) res" where
  "bc_map_alloc sl len = locked ERR_NOLCK (s_bc_map_alloc sl len)"

definition s_bc_map_trunc :: "bc_slot \<Rightarrow> nat \<Rightarrow> bc_state \<Rightarrow> (int \<times> bc_state) res" where
  "s_bc_map_trunc sl len s =
     andThen (bc_map_alloc sl 0 s) (\<lambda>(err, s1).
     if err \<noteq> 0 then Ret (err, s1)
     else andThen (hdr_of s1 sl) (\<lambda>of'.
       if len < of' then andThen (set_hdr_of sl len s1) (\<lambda>s2. Ret (0, s2))
       else Ret (0, s1)))"

definition bc_map_trunc :: "bc_slot \<Rightarrow> nat \<Rightarrow> bc_state \<Rightarrow> (int \<times> bc_state) res" where
  "bc_map_trunc sl len = locked ERR_NOLCK (s_bc_map_trunc sl len)"

definition bc_map_close :: "bc_slot \<Rightarrow> bc_state \<Rightarrow> bc_state res" where
  "bc_map_close sl s =
     (let s1 = bc_map_free sl s; m = get_map s1 sl in
      if m_fd m \<noteq> 0
      then andThen (descriptor_release (m_fd m) (os_desc s1)) (\<lambda>ds.
             Ret (set_map (s1\<lparr>os_desc := ds\<rparr>) sl (m\<lparr>m_fd := 0\<rparr>)))
      else Ret s1)"

definition s_bc_map_write ::
  "bc_slot \<Rightarrow> nat \<Rightarrow> byte list \<Rightarrow> bc_state \<Rightarrow> (int \<times> bc_state) res" where
  "s_bc_map_write sl off data s =
     andThen (bc_map_alloc sl (u32 (length data)) s) (\<lambda>(err, s1).
     if err \<noteq> 0 then Ret (err, s1)
     else andThen (raw_write sl off data s1) (\<lambda>s2.
       andThen (hdr_of s2 sl) (\<lambda>of'.
       andThen (set_hdr_of sl (max of' (u32 (off + length data))) s2) (\<lambda>s3.
         Ret (0, set_map s3 sl ((get_map s3 sl)\<lparr>m_stamp := ds_now (os_desc s3)\<rparr>))))))"

definition bc_map_write ::
  "bc_slot \<Rightarrow> nat \<Rightarrow> byte list \<Rightarrow> bc_state \<Rightarrow> (int \<times> bc_state) res" where
  "bc_map_write sl off data = locked ERR_NOLCK (s_bc_map_write sl off data)"

definition s_bc_map_append :: "bc_slot \<Rightarrow> byte list \<Rightarrow> bc_state \<Rightarrow> (int \<times> bc_state) res" where
  "s_bc_map_append sl data s =
     andThen (bc_map_alloc sl (u32 (length data)) s) (\<lambda>(err, s1).
     if err \<noteq> 0 then Ret (err, s1)
     else andThen (hdr_of s1 sl) (\<lambda>of'. bc_map_write sl of' data s1))"

definition bc_map_append :: "bc_slot \<Rightarrow> byte list \<Rightarrow> bc_state \<Rightarrow> (int \<times> bc_state) res" where
  "bc_map_append sl data = locked ERR_NOLCK (s_bc_map_append sl data)"

definition s_bc_map_read ::
  "bc_slot \<Rightarrow> nat \<Rightarrow> nat \<Rightarrow> bc_state \<Rightarrow> ((int \<times> byte list) \<times> bc_state) res" where
  "s_bc_map_read sl data_of data_len s =
     andThen (hdr_of s sl) (\<lambda>of'.
     if u32 (data_of + data_len) \<ge> of' then Ret ((ERR_INVAL, []), s)
     else andThen (raw_read s sl data_of data_len) (\<lambda>bs.
       Ret ((0, bs), set_map s sl ((get_map s sl)\<lparr>m_stamp := ds_now (os_desc s)\<rparr>))))"

definition bc_map_read ::
  "bc_slot \<Rightarrow> nat \<Rightarrow> nat \<Rightarrow> bc_state \<Rightarrow> ((int \<times> byte list) \<times> bc_state) res" where
  "bc_map_read sl data_of data_len = locked (ERR_NOLCK, []) (s_bc_map_read sl data_of data_len)"

definition bc_fmap_total :: "bc_state \<Rightarrow> nat" where
  "bc_fmap_total s = length (filter (\<lambda>m. m_fd m \<noteq> 0) (data_map s))"

end
