(* ===== verification/Bc_Map_Props.thy ===== *)
theory Bc_Map_Props
  imports Bc_Map
begin

text \<open>
  What the file maps guarantee: the invariant of the store (\<open>bc_inv\<close>), and, when no system
  call fails and the map stays below 3.9 GB, what each operation does to the content of a map
  (\<open>vbytes\<close>, \<open>vof\<close>) and that it stays inside the mapping.
\<close>

lemma length_fread [simp, byte_simps]: "length (fread f off n) = n"
  by (simp add: fread_def)

lemma fread_nth [simp]: "i < n \<Longrightarrow> fread f off n ! i = fbytes f (off + i)"
  by (simp add: fread_def)

lemma fread_fwrite_same [byte_simps]: "n = length bs \<Longrightarrow> fread (fwrite f off bs) off n = bs"
  by (rule nth_equalityI) (simp_all add: fwrite_def put_bytes_def)

lemma fread_fwrite_other [byte_simps]:
  "off + n \<le> a \<or> a + length bs \<le> off \<Longrightarrow> fread (fwrite f a bs) off n = fread f off n"
  by (rule nth_equalityI) (auto simp: fwrite_def put_bytes_def)

lemma fsize_fwrite [simp]: "fsize (fwrite f off bs) = fsize f"
  by (simp add: fwrite_def)

lemma fsize_ftrunc [simp]: "fsize (ftrunc f n) = n"
  by (simp add: ftrunc_def)

lemma fread_ftrunc [byte_simps]: "off + k \<le> n \<Longrightarrow> fread (ftrunc f n) off k = fread f off k"
  by (rule nth_equalityI) (simp_all add: ftrunc_def)

lemma put_bytes_outside: "i < off \<or> off + length bs \<le> i \<Longrightarrow> put_bytes g off bs i = g i"
  by (auto simp: put_bytes_def)

lemma put_bytes_shift: "put_bytes g (k + off) bs (k + i) = put_bytes (\<lambda>j. g (k + j)) off bs i"
  by (simp add: put_bytes_def)

lemma length_hdr_bytes [simp]: "length (hdr_bytes a b c) = 16"
  by (simp add: hdr_bytes_def)

lemma f_of_ftrunc [byte_simps]: "16 \<le> n \<Longrightarrow> f_of (ftrunc f n) = f_of f"
  by (simp add: f_of_def byte_simps)

lemma f_magic_ftrunc [byte_simps]: "16 \<le> n \<Longrightarrow> f_magic (ftrunc f n) = f_magic f"
  by (simp add: f_magic_def byte_simps)

lemma f_of_data [byte_simps]: "f_of (fwrite f (16 + off) bs) = f_of f"
  by (simp add: f_of_def fread_fwrite_other)

lemma f_magic_data [byte_simps]: "f_magic (fwrite f (16 + off) bs) = f_magic f"
  by (simp add: f_magic_def fread_fwrite_other)

lemma f_of_set [byte_simps]: "f_of (fwrite f 12 (le32 v)) = u32 v"
  by (simp add: f_of_def fread_fwrite_same)

lemma f_magic_set [byte_simps]: "f_magic (fwrite f 12 (le32 v)) = f_magic f"
  by (simp add: f_magic_def fread_fwrite_other)

lemma f_of_lt [simp]: "f_of f < 4294967296"
  by (simp add: f_of_def)

lemma fread_hdr_part:
  "k + n \<le> 16 \<Longrightarrow> fread (fwrite f 0 (hdr_bytes a b c)) k n = take n (drop k (hdr_bytes a b c))"
  by (rule nth_equalityI) (simp_all add: fwrite_def put_bytes_def)

lemma new_file_header [byte_simps]:
  "f_of (fwrite f 0 (hdr_bytes a b c)) = u32 c"
  "f_magic (fwrite f 0 (hdr_bytes a b c)) = u32 b"
  by (simp_all add: f_of_def f_magic_def fread_hdr_part) (simp_all add: hdr_bytes_def)

section \<open>The invariant\<close>

text \<open>
  A file of the store is well formed when its magic number is in place, its size is a number
  of blocks below 4 GB, nothing lies beyond its end and its content fits.
\<close>

definition wf_file :: "bc_file \<Rightarrow> bool" where
  "wf_file f \<longleftrightarrow> f_magic f = SHMEM32_MAGIC \<and> BC_MAP_BLOCK_SIZE dvd fsize f
     \<and> BC_MAP_BLOCK_SIZE \<le> fsize f \<and> fsize f < 4294967296
     \<and> (\<forall>i \<ge> fsize f. fbytes f i = 0) \<and> BC_HDR_SIZE + f_of f \<le> fsize f"

primrec cext :: "bc_slot \<Rightarrow> string" where
  "cext IdxMap = ''idx''"
| "cext TabMap = ''tmp''"
| "cext ArchMap = ''arch''"
| "cext (DataMap j) = udec j"

primrec valid_slot :: "bc_state \<Rightarrow> bc_slot \<Rightarrow> bool" where
  "valid_slot s IdxMap = True"
| "valid_slot s TabMap = True"
| "valid_slot s ArchMap = True"
| "valid_slot s (DataMap j) = (j < length (data_map s))"

definition vfile :: "bc_state \<Rightarrow> bc_slot \<Rightarrow> bc_file option" where
  "vfile s sl = os_files s (bc_path s (cext sl))"

definition vbytes :: "bc_state \<Rightarrow> bc_slot \<Rightarrow> nat \<Rightarrow> byte" where
  "vbytes s sl i = (case vfile s sl of None \<Rightarrow> 0 | Some f \<Rightarrow> fbytes f (BC_HDR_SIZE + i))"

definition vof :: "bc_state \<Rightarrow> bc_slot \<Rightarrow> nat" where
  "vof s sl = (case vfile s sl of None \<Rightarrow> 0 | Some f \<Rightarrow> f_of f)"

definition vsize :: "bc_state \<Rightarrow> bc_slot \<Rightarrow> nat" where
  "vsize s sl = (case vfile s sl of None \<Rightarrow> BC_MAP_BLOCK_SIZE | Some f \<Rightarrow> fsize f)"

definition map_ok :: "bc_state \<Rightarrow> bc_slot \<Rightarrow> bool" where
  "map_ok s sl \<longleftrightarrow>
     (let m = get_map s sl in
      0 \<le> m_fd m \<and> (m_fd m = 0 \<longrightarrow> \<not> m_hdr m) \<and> (m_ext m = [] \<or> m_ext m = cext sl)
      \<and> (m_fd m \<noteq> 0 \<longrightarrow> m_ext m = cext sl
           \<and> (\<exists>f. vfile s sl = Some f \<and> (m_hdr m \<longrightarrow> m_size m = fsize f))))"

definition bc_inv :: "bc_state \<Rightarrow> bool" where
  "bc_inv s \<longleftrightarrow> (\<forall>sl. valid_slot s sl \<longrightarrow> map_ok s sl)
     \<and> (\<forall>sl f. vfile s sl = Some f \<longrightarrow> wf_file f)
     \<and> (\<forall>sl. os_isreg s (bc_path s (cext sl))) \<and> 0 < os_next_fd s"

lemma cext_inj: "cext a = cext b \<Longrightarrow> a = b"
proof -
  have nd: "udec j \<noteq> ''idx'' \<and> udec j \<noteq> ''tmp'' \<and> udec j \<noteq> ''arch''" for j
    using hd_udec_digit [of j] by auto
  show "cext a = cext b \<Longrightarrow> a = b"
    using nd by (cases a; cases b) (auto dest: udec_inj intro: sym)
qed

lemma bc_path_eq [simp]: "bc_path s a = bc_path s b \<longleftrightarrow> a = b"
  by (simp add: bc_path_def)

lemma cext_eq [simp]: "cext a = cext b \<longleftrightarrow> a = b"
  using cext_inj by blast

lemma cext_nonempty [simp]: "cext sl \<noteq> []"
  by (cases sl) simp_all

section \<open>Reading and writing the slots\<close>

lemma get_set_same [simp]: "valid_slot s sl \<Longrightarrow> get_map (set_map s sl m) sl = m"
  by (cases sl) simp_all

lemma get_set_other [simp]: "t \<noteq> sl \<Longrightarrow> get_map (set_map s sl m) t = get_map s t"
  by (cases sl; cases t) auto

lemma set_map_frame [simp]:
  "bc_name (set_map s sl m) = bc_name s"
  "os_base (set_map s sl m) = os_base s"
  "os_isreg (set_map s sl m) = os_isreg s"
  "os_ifaces (set_map s sl m) = os_ifaces s"
  "os_files (set_map s sl m) = os_files s"
  "os_faults (set_map s sl m) = os_faults s"
  "os_next_fd (set_map s sl m) = os_next_fd s"
  "os_desc (set_map s sl m) = os_desc s"
  "bc_lk (set_map s sl m) = bc_lk s"
  "length (data_map (set_map s sl m)) = length (data_map s)"
  "bc_path (set_map s sl m) e = bc_path s e"
  "vfile (set_map s sl m) t = vfile s t"
  by (cases sl; simp add: bc_path_def vfile_def)+

lemma put_file_frame [simp]:
  "bc_name (put_file s p f) = bc_name s"
  "os_base (put_file s p f) = os_base s"
  "os_isreg (put_file s p f) = os_isreg s"
  "os_ifaces (put_file s p f) = os_ifaces s"
  "os_faults (put_file s p f) = os_faults s"
  "os_next_fd (put_file s p f) = os_next_fd s"
  "os_desc (put_file s p f) = os_desc s"
  "bc_lk (put_file s p f) = bc_lk s"
  "data_map (put_file s p f) = data_map s"
  "get_map (put_file s p f) t = get_map s t"
  "bc_path (put_file s p f) e = bc_path s e"
  "slot_path (put_file s p f) t = slot_path s t"
  "os_files (put_file s p f) = (os_files s)(p := Some f)"
  by (simp_all add: put_file_def bc_path_def slot_path_def) (cases t; simp)+

lemma upd_frame [simp]:
  "get_map (s\<lparr>bc_lk := n\<rparr>) t = get_map s t"
  "get_map (s\<lparr>os_desc := d\<rparr>) t = get_map s t"
  "get_map (s\<lparr>os_faults := fl\<rparr>) t = get_map s t"
  "get_map (s\<lparr>os_next_fd := k\<rparr>) t = get_map s t"
  "bc_path (s\<lparr>bc_lk := n\<rparr>) e = bc_path s e"
  "bc_path (s\<lparr>os_desc := d\<rparr>) e = bc_path s e"
  "bc_path (s\<lparr>os_faults := fl\<rparr>) e = bc_path s e"
  "bc_path (s\<lparr>os_next_fd := k\<rparr>) e = bc_path s e"
  by (cases t; simp add: bc_path_def)+

lemma upd_view [simp]:
  "vfile (s\<lparr>bc_lk := n\<rparr>) t = vfile s t"
  "vfile (s\<lparr>os_desc := d\<rparr>) t = vfile s t"
  "vfile (s\<lparr>os_faults := fl\<rparr>) t = vfile s t"
  "vfile (s\<lparr>os_next_fd := k\<rparr>) t = vfile s t"
  by (simp_all add: vfile_def)

lemma valid_slot_cong: "length (data_map s') = length (data_map s) \<Longrightarrow> valid_slot s' sl = valid_slot s sl"
  by (cases sl) simp_all

lemma vfile_put_file [simp]:
  "vfile (put_file s p f) t = (if p = bc_path s (cext t) then Some f else vfile s t)"
  by (auto simp: vfile_def)

lemma valid_slot_frame [simp]:
  "valid_slot (put_file s p f) t = valid_slot s t"
  "valid_slot (set_map s sl m) t = valid_slot s t"
  "valid_slot (s\<lparr>bc_lk := n\<rparr>) t = valid_slot s t"
  "valid_slot (s\<lparr>os_desc := d\<rparr>) t = valid_slot s t"
  "valid_slot (s\<lparr>os_faults := fl\<rparr>) t = valid_slot s t"
  "valid_slot (s\<lparr>os_next_fd := k\<rparr>) t = valid_slot s t"
  by (rule valid_slot_cong; simp)+

lemma slot_path_cext: "m_ext (get_map s sl) = cext sl \<Longrightarrow> slot_path s sl = bc_path s (cext sl)"
  by (simp add: slot_path_def)

lemma slot_file_cext: "m_ext (get_map s sl) = cext sl \<Longrightarrow> slot_file s sl = vfile s sl"
  by (simp add: slot_file_def vfile_def slot_path_def)

section \<open>Frames\<close>

text \<open>\<open>frame sl s s'\<close>: between \<open>s\<close> and \<open>s'\<close> only the map \<open>sl\<close> and its file have changed.\<close>

definition frame :: "bc_slot \<Rightarrow> bc_state \<Rightarrow> bc_state \<Rightarrow> bool" where
  "frame sl s s' \<longleftrightarrow> bc_name s' = bc_name s \<and> os_base s' = os_base s \<and> os_isreg s' = os_isreg s
     \<and> os_ifaces s' = os_ifaces s \<and> bc_lk s' = bc_lk s \<and> os_faults s' = os_faults s
     \<and> ds_now (os_desc s') = ds_now (os_desc s) \<and> length (data_map s') = length (data_map s)
     \<and> m_ext (get_map s' sl) = m_ext (get_map s sl)
     \<and> (\<forall>t. t \<noteq> sl \<longrightarrow> get_map s' t = get_map s t \<and> vfile s' t = vfile s t)"

lemma frame_refl [simp]: "frame sl s s"
  by (simp add: frame_def)

lemma frame_trans: "frame sl a b \<Longrightarrow> frame sl b c \<Longrightarrow> frame sl a c"
  by (simp add: frame_def)

lemma frame_valid: "frame sl s s' \<Longrightarrow> valid_slot s' t = valid_slot s t"
  by (rule valid_slot_cong) (simp add: frame_def)

lemma frame_path: "frame sl s s' \<Longrightarrow> bc_path s' e = bc_path s e"
  by (simp add: frame_def bc_path_def)

lemma frame_ext: "frame sl s s' \<Longrightarrow> m_ext (get_map s' sl) = m_ext (get_map s sl)"
  by (simp add: frame_def)

lemma bc_invD:
  assumes "bc_inv s"
  shows "valid_slot s sl \<Longrightarrow> map_ok s sl" "vfile s sl = Some f \<Longrightarrow> wf_file f"
    "os_isreg s (bc_path s (cext sl))" "0 < os_next_fd s"
  using assms by (auto simp: bc_inv_def)

lemma bc_inv_frameI:
  assumes "bc_inv s" "frame sl s s'" "0 < os_next_fd s'" "map_ok s' sl"
    and "\<And>f. vfile s' sl = Some f \<Longrightarrow> wf_file f"
  shows "bc_inv s'"
  unfolding bc_inv_def
proof (intro conjI allI impI)
  fix t assume v: "valid_slot s' t"
  show "map_ok s' t"
  proof (cases "t = sl")
    case False
    with v assms(1,2) have "map_ok s t"
      by (auto simp: bc_inv_def frame_valid)
    with False assms(2) show ?thesis
      by (simp add: map_ok_def frame_def)
  qed (use assms(4) in simp)
next
  fix t f assume "vfile s' t = Some f"
  then show "wf_file f"
    using assms(1,2,5) by (cases "t = sl") (auto simp: bc_inv_def frame_def)
next
  show "os_isreg s' (bc_path s' (cext t))" for t
    using assms(1,2) by (simp add: bc_inv_def frame_path [OF assms(2)]) (simp add: frame_def)
qed (use assms(3) in simp)

lemma bc_inv_upd [simp]:
  "bc_inv (s\<lparr>bc_lk := n\<rparr>) = bc_inv s"
  "bc_inv (s\<lparr>os_desc := d\<rparr>) = bc_inv s"
  by (simp_all add: bc_inv_def map_ok_def cong: valid_slot_cong)

section \<open>Runs without a failing system call\<close>

lemma sys_calm [simp]: "os_faults s = [] \<Longrightarrow> sys s = (0, s)"
  by (simp add: sys_def)

lemma locked_calm:
  "os_faults s = [] \<Longrightarrow> locked r f s =
     andThen (f (s\<lparr>bc_lk := Suc (bc_lk s)\<rparr>)) (\<lambda>(v, s2). Ret (v, bc_unlock s2))"
  by (simp add: locked_def bc_lock_def)

lemma unlock_frame [simp]:
  "get_map (bc_unlock s) t = get_map s t"
  "vfile (bc_unlock s) t = vfile s t"
  "vof (bc_unlock s) t = vof s t"
  "vbytes (bc_unlock s) t = vbytes s t"
  "vsize (bc_unlock s) t = vsize s t"
  "bc_inv (bc_unlock s) = bc_inv s"
  "data_map (bc_unlock s) = data_map s"
  "idx_map (bc_unlock s) = idx_map s"
  "tab_map (bc_unlock s) = tab_map s"
  "arch_map (bc_unlock s) = arch_map s"
  by (simp_all add: bc_unlock_def vof_def vbytes_def vsize_def fun_eq_iff)

lemma lk_view [simp]:
  "vof (s\<lparr>bc_lk := n\<rparr>) t = vof s t"
  "vbytes (s\<lparr>bc_lk := n\<rparr>) t = vbytes s t"
  "vsize (s\<lparr>bc_lk := n\<rparr>) t = vsize s t"
  by (simp_all add: vof_def vbytes_def vsize_def fun_eq_iff)

lemma frame_lock: "frame sl (s\<lparr>bc_lk := Suc (bc_lk s)\<rparr>) s2 \<Longrightarrow> frame sl s (bc_unlock s2)"
  by (simp add: frame_def) (simp add: bc_unlock_def)

section \<open>Opening a map\<close>

lemma new_file_wf:
  "wf_file (fwrite (ftrunc empty_file 16384) 0 (hdr_bytes n SHMEM32_MAGIC 0))"
  by (simp add: wf_file_def byte_simps) (simp add: fwrite_def ftrunc_def empty_file_def put_bytes_def)

lemma view_None:
  "vfile s sl = None \<Longrightarrow> vfile s' sl = Some (fwrite (ftrunc empty_file 16384) 0 (hdr_bytes n m 0)) \<Longrightarrow>
     vbytes s' sl = vbytes s sl \<and> vof s' sl = vof s sl \<and> vsize s' sl = vsize s sl"
  by (simp add: vbytes_def vof_def vsize_def byte_simps fun_eq_iff)
    (simp add: fwrite_def ftrunc_def empty_file_def put_bytes_def)

lemma view_cong:
  "vfile s' sl = vfile s sl \<Longrightarrow>
     vbytes s' sl = vbytes s sl \<and> vof s' sl = vof s sl \<and> vsize s' sl = vsize s sl"
  by (simp add: vbytes_def vof_def vsize_def fun_eq_iff)

text \<open>
  \<open>ready sl s\<close>: the invariant holds, no system call will fail, and \<open>sl\<close> names a map whose
  extension has been set. \<open>open_post\<close> and \<open>alloc_post\<close> are what opening and allocating promise.
\<close>

definition open_post :: "bc_slot \<Rightarrow> bc_state \<Rightarrow> bc_state \<Rightarrow> bool" where
  "open_post sl s s' \<longleftrightarrow> bc_inv s' \<and> frame sl s s' \<and> m_fd (get_map s' sl) \<noteq> 0
     \<and> m_stamp (get_map s' sl) = m_stamp (get_map s sl)
     \<and> vbytes s' sl = vbytes s sl \<and> vof s' sl = vof s sl \<and> vsize s' sl = vsize s sl"

definition ready :: "bc_slot \<Rightarrow> bc_state \<Rightarrow> bool" where
  "ready sl s \<longleftrightarrow> bc_inv s \<and> os_faults s = [] \<and> valid_slot s sl \<and> m_ext (get_map s sl) = cext sl"

lemma readyD:
  assumes "ready sl s"
  shows "bc_inv s" "os_faults s = []" "valid_slot s sl" "m_ext (get_map s sl) = cext sl"
    "slot_path s sl = bc_path s (cext sl)" "slot_file s sl = vfile s sl"
    "0 \<le> m_fd (get_map s sl)" "0 < os_next_fd s"
    "vfile s sl = Some f \<Longrightarrow> wf_file f"
    "m_hdr (get_map s sl) \<Longrightarrow> vfile s sl = Some f \<Longrightarrow> m_size (get_map s sl) = fsize f"
    "m_fd (get_map s sl) \<noteq> 0 \<Longrightarrow> \<exists>f. vfile s sl = Some f"
  using assms by (auto simp: ready_def bc_inv_def map_ok_def Let_def slot_path_def slot_file_def vfile_def)

lemma s_bc_map_open_marked:
  assumes "ready sl s" "m_fd (get_map s sl) \<noteq> 0"
  shows "wp (s_bc_map_open sl s) (\<lambda>(e, s'). e = 0 \<and> open_post sl s s')"
proof -
  have "0 \<le> m_fd (get_map s sl)"
    using assms by (auto simp: ready_def bc_inv_def map_ok_def Let_def)
  then obtain r ds where "descriptor_mark (m_fd (get_map s sl)) (os_desc s) = Ret (r, ds)"
    "ds_now ds = ds_now (os_desc s)"
    using descriptor_mark_ret by blast
  moreover have "vbytes (s\<lparr>os_desc := ds\<rparr>) sl = vbytes s sl \<and> vof (s\<lparr>os_desc := ds\<rparr>) sl = vof s sl
      \<and> vsize (s\<lparr>os_desc := ds\<rparr>) sl = vsize s sl"
    by (rule view_cong) simp
  ultimately show ?thesis
    using assms by (simp add: s_bc_map_open_def Let_def open_post_def frame_def ready_def)
qed

lemma put_file_same: "os_files s p = Some f \<Longrightarrow> put_file s p f = s"
  by (simp add: put_file_def fun_upd_idem)

lemma map_open_fd_calm:
  assumes "ready sl s0" "m_fd (get_map s0 sl) = 0" "0 < fd"
    and s1: "s1 = (put_file s0 (bc_path s0 (cext sl)) (case vfile s0 sl of None \<Rightarrow> empty_file | Some f \<Rightarrow> f))
       \<lparr>os_next_fd := fd + 1, os_desc := d\<rparr>" "ds_now d = ds_now (os_desc s0)"
  shows "wp (map_open_fd sl fd s1) (\<lambda>(e, s'). e = 0 \<and> open_post sl s0 s')"
proof -
  define f where "f = (case vfile s0 sl of
     None \<Rightarrow> fwrite (ftrunc empty_file 16384) 0 (hdr_bytes (ds_now d) SHMEM32_MAGIC 0) | Some f \<Rightarrow> f)"
  define s7 where "s7 = set_map (put_file s1 (bc_path s0 (cext sl)) f) sl
     ((get_map s0 sl)\<lparr>m_fd := fd, m_size := fsize f, m_hdr := False\<rparr>)"
  obtain r ds where cl: "descriptor_claim fd (bc_iface_index (os_ifaces s7) (bc_name s7)) DF_MAP (os_desc s7) = Ret (r, ds)"
    "ds_now ds = ds_now (os_desc s7)"
    using descriptor_claim_ret assms(3) less_imp_le by metis
  have ext: "slot_path s1 sl = bc_path s0 (cext sl)" "m_ext (get_map s0 sl) = cext sl"
    using assms(1) by (simp_all add: s1 slot_path_def ready_def)
  have wf: "wf_file f"
    using assms(1) new_file_wf by (auto simp: f_def ready_def bc_inv_def split: option.splits)
  have run: "map_open_fd sl fd s1 = Ret (0, s7\<lparr>os_desc := ds\<rparr>)"
  proof (cases "vfile s0 sl")
    case None
    then show ?thesis
      using assms(1) cl
      by (simp add: map_open_fd_def ready_def bc_inv_def slot_path_def ext(2) Let_def s7_def f_def s1 empty_file_def)
  next
    case (Some g)
    moreover have "put_file s1 (bc_path s0 (cext sl)) g = s1"
      by (rule put_file_same) (simp add: s1 Some)
    moreover have "\<not> fsize g < 16" "f_magic g = SHMEM32_MAGIC"
      using wf Some by (simp_all add: f_def wf_file_def)
    ultimately show ?thesis
      using assms(1) cl
      by (simp add: map_open_fd_def ready_def bc_inv_def slot_path_def ext(2) Let_def s7_def f_def s1)
  qed
  have fr: "frame sl s0 (s7\<lparr>os_desc := ds\<rparr>)"
    using assms cl(2) by (simp add: frame_def s7_def ready_def s1)
  show ?thesis
    unfolding run wp.simps prod.case open_post_def
  proof (intro conjI)
    show "bc_inv (s7\<lparr>os_desc := ds\<rparr>)"
      by (rule bc_inv_frameI [OF _ fr])
        (use assms wf in \<open>simp_all add: ready_def s7_def s1 map_ok_def ext(2)\<close>)
    have "vbytes s7 sl = vbytes s0 sl \<and> vof s7 sl = vof s0 sl \<and> vsize s7 sl = vsize s0 sl"
    proof (cases "vfile s0 sl")
      case None
      then show ?thesis
        by (rule view_None) (simp add: s7_def s1 f_def None)
    next
      case (Some g)
      show ?thesis
        by (rule view_cong) (simp add: s7_def s1 f_def Some)
    qed
    then show "vbytes (s7\<lparr>os_desc := ds\<rparr>) sl = vbytes s0 sl" "vof (s7\<lparr>os_desc := ds\<rparr>) sl = vof s0 sl"
       "vsize (s7\<lparr>os_desc := ds\<rparr>) sl = vsize s0 sl"
      using view_cong [of "s7\<lparr>os_desc := ds\<rparr>" sl s7] by simp_all
  qed (use fr assms in \<open>simp_all add: ready_def s7_def s1\<close>)
qed

lemma s_bc_map_open_calm:
  assumes "ready sl s"
  shows "wp (s_bc_map_open sl s) (\<lambda>(e, s'). e = 0 \<and> open_post sl s s')"
proof (cases "m_fd (get_map s sl) = 0")
  case True
  have "0 < os_next_fd s" "os_faults s = []" "slot_path s sl = bc_path s (cext sl)"
    using assms by (simp_all add: ready_def bc_inv_def slot_path_def)
  then show ?thesis
    using map_open_fd_calm [OF assms True] True
    by (simp add: s_bc_map_open_def Let_def vfile_def)
qed (use assms s_bc_map_open_marked in blast)

lemma ready_lock: "ready sl (s\<lparr>bc_lk := n\<rparr>) = ready sl s"
  by (simp add: ready_def)

lemma ready_unlock [simp]: "ready sl (bc_unlock s) = ready sl s"
  by (simp add: ready_def bc_unlock_def)

lemma open_post_lock: "open_post sl (s\<lparr>bc_lk := Suc (bc_lk s)\<rparr>) s2 \<Longrightarrow> open_post sl s (bc_unlock s2)"
  by (simp add: open_post_def frame_lock)

lemma locked_lift:
  assumes "wp (f (s\<lparr>bc_lk := Suc (bc_lk s)\<rparr>)) P" "os_faults s = []"
    and "\<And>v s2. P (v, s2) \<Longrightarrow> Q (v, bc_unlock s2)"
  shows "wp (locked r f s) Q"
  using assms by (auto simp: locked_calm wp_iff andThen_Ret_iff)

lemma bc_map_open_calm:
  assumes "ready sl s"
  shows "wp (bc_map_open sl s) (\<lambda>(e, s'). e = 0 \<and> open_post sl s s')"
  unfolding bc_map_open_def
  by (rule locked_lift [OF s_bc_map_open_calm])
    (use assms readyD(2) in \<open>auto simp: ready_lock intro: open_post_lock\<close>)

section \<open>Growing a map\<close>

lemma grow_size_bounds:
  assumes "st + len \<le> 3900000000"
  shows "st + len < grow_size st len" "grow_size st len \<le> (st + len) + (st + len) div 10 + 16384"
    "16384 dvd grow_size st len" "grow_size st len < 4294967296"
proof -
  let ?n = "st + len + (st + len) div 10"
  have g: "grow_size st len = (?n div 16384 + 1) * 16384"
    using assms by (simp add: grow_size_def Let_def)
  show "16384 dvd grow_size st len"
    unfolding g by simp
  show "st + len < grow_size st len" "grow_size st len \<le> ?n + 16384" "grow_size st len < 4294967296"
    unfolding g using assms div_times_less_eq_dividend [of ?n 16384] dividend_less_div_times [of 16384 ?n]
    by simp_all
qed

definition alloc_size :: "bc_state \<Rightarrow> bc_slot \<Rightarrow> nat \<Rightarrow> nat" where
  "alloc_size s sl len =
     (if 16 + vof s sl + len < vsize s sl then vsize s sl else grow_size (vsize s sl) len)"

definition alloc_post :: "bc_slot \<Rightarrow> nat \<Rightarrow> bc_state \<Rightarrow> bc_state \<Rightarrow> bool" where
  "alloc_post sl len s s' \<longleftrightarrow> bc_inv s' \<and> frame sl s s' \<and> m_fd (get_map s' sl) \<noteq> 0
     \<and> m_hdr (get_map s' sl) \<and> m_stamp (get_map s' sl) = m_stamp (get_map s sl)
     \<and> vbytes s' sl = vbytes s sl \<and> vof s' sl = vof s sl \<and> vsize s' sl = alloc_size s sl len"

text \<open>
  \<open>room sl len s\<close>: either \<open>len\<close> more bytes fit into the map as it is, or the map can grow by
  them without the 32 bit size arithmetic wrapping around.
\<close>

definition room :: "bc_slot \<Rightarrow> nat \<Rightarrow> bc_state \<Rightarrow> bool" where
  "room sl len s \<longleftrightarrow> 16 + vof s sl + len < vsize s sl \<or> vsize s sl + len \<le> 3900000000"

lemma vof_le_vsize: "bc_inv s \<Longrightarrow> 16 + vof s sl \<le> vsize s sl"
  by (auto simp: vof_def vsize_def bc_inv_def wf_file_def split: option.splits)

lemma alloc_size_fits:
  assumes "bc_inv s" "room sl len s"
  shows "16 + vof s sl + len < alloc_size s sl len" "vsize s sl \<le> alloc_size s sl len"
    "alloc_size s sl len \<le> vsize s sl + len + (vsize s sl + len) div 10 + 16384"
  using vof_le_vsize [OF assms(1), of sl] grow_size_bounds [of "vsize s sl" len] assms(2)
  by (auto simp: alloc_size_def room_def)

lemma vsize_lt: "bc_inv s \<Longrightarrow> vsize s sl < 4294967280"
proof -
  assume "bc_inv s"
  then have "vsize s sl < 4294967296 \<and> 16384 dvd vsize s sl"
    by (auto simp: vsize_def bc_inv_def wf_file_def split: option.splits)
  then show ?thesis
    by auto
qed

lemma room_u32: "bc_inv s \<Longrightarrow> room sl len s \<Longrightarrow> u32 len = len"
  using vsize_lt [of s sl] by (auto simp: room_def)

lemma wf_ftrunc:
  assumes "wf_file f" "fsize f \<le> n" "16384 dvd n" "n < 4294967296"
  shows "wf_file (ftrunc f n)" "fbytes (ftrunc f n) = fbytes f" "f_of (ftrunc f n) = f_of f"
proof -
  show b: "fbytes (ftrunc f n) = fbytes f"
    using assms(1,2) by (auto simp: wf_file_def ftrunc_def fun_eq_iff)
  have o: "16 \<le> n"
    using assms(1,2) by (auto simp: wf_file_def)
  show "f_of (ftrunc f n) = f_of f"
    using o by (simp add: f_of_ftrunc)
  show "wf_file (ftrunc f n)"
    using assms b o by (auto simp: wf_file_def f_of_ftrunc f_magic_ftrunc)
qed

lemma map_grow_calm:
  assumes "ready sl s" "m_fd (get_map s sl) \<noteq> 0" "vfile s sl = Some f" "room sl len s"
  shows "wp (map_grow sl (f_of f) len (fsize f) s) (\<lambda>(e, s'). e = 0 \<and> alloc_post sl len s s')"
proof -
  have wf: "wf_file f" and sf: "slot_file s sl = Some f"
    and p: "slot_path s sl = bc_path s (cext sl)"
    using assms by (auto simp: ready_def bc_inv_def slot_path_def slot_file_def vfile_def)
  define g where "g = ftrunc f (grow_size (fsize f) len)"
  have v: "vsize s sl = fsize f" "vof s sl = f_of f"
    using assms(3) by (simp_all add: vsize_def vof_def)
  have b: "fsize f + len < grow_size (fsize f) len" "wf_file g \<and> fbytes g = fbytes f
       \<and> f_of g = f_of f \<and> fsize g = grow_size (fsize f) len"
    if "BC_HDR_SIZE + f_of f + len \<ge> fsize f"
  proof -
    have "fsize f + len \<le> 3900000000"
      using assms(4) that by (simp add: room_def v)
    note b = grow_size_bounds [OF this]
    show "fsize f + len < grow_size (fsize f) len" by (rule b)
    show "wf_file g \<and> fbytes g = fbytes f \<and> f_of g = f_of f \<and> fsize g = grow_size (fsize f) len"
      using wf_ftrunc [OF wf _ b(3,4)] b(1) by (simp add: g_def)
  qed
  define h where "h = (if BC_HDR_SIZE + f_of f + len \<ge> fsize f then g else f)"
  define s' where "s' = set_map (put_file s (bc_path s (cext sl)) h) sl
      ((get_map s sl)\<lparr>m_hdr := True, m_size := fsize h\<rparr>)"
  have "put_file s (bc_path s (cext sl)) f = s"
    using assms(3) by (intro put_file_same) (simp add: vfile_def)
  moreover have "16384 \<le> fsize f"
    using wf by (simp add: wf_file_def)
  ultimately have run: "map_grow sl (f_of f) len (fsize f) s = Ret (0, s')"
    using assms(1) b sf p
    by (cases "fsize f \<le> 16 + f_of f + len") (auto simp: map_grow_def ready_def s'_def h_def v g_def)
  have fr: "frame sl s s'"
    using assms by (simp add: frame_def s'_def ready_def)
  have h: "wf_file h" "fbytes h = fbytes f" "f_of h = f_of f"
    using b wf by (simp_all add: h_def)
  have inv: "bc_inv s'"
    by (rule bc_inv_frameI [OF _ fr])
      (use assms h readyD [OF assms(1)] in \<open>auto simp: s'_def map_ok_def split: if_splits\<close>)
  have "vfile s' sl = Some h"
    by (simp add: s'_def)
  then have "vbytes s' sl = vbytes s sl \<and> vof s' sl = vof s sl \<and> vsize s' sl = alloc_size s sl len"
    using assms(3) h b by (simp add: vbytes_def vof_def vsize_def alloc_size_def h_def fun_eq_iff)
  then show ?thesis
    unfolding run using fr inv assms by (simp add: alloc_post_def s'_def ready_def)
qed

lemma open_post_ready: "ready sl s \<Longrightarrow> open_post sl s s' \<Longrightarrow> ready sl s'"
  unfolding ready_def open_post_def by (auto simp: frame_valid frame_ext) (simp add: frame_def)

lemma open_alloc_post:
  "open_post sl s s1 \<Longrightarrow> alloc_post sl len s1 s2 \<Longrightarrow> alloc_post sl len s s2"
  unfolding open_post_def alloc_post_def alloc_size_def by (auto intro: frame_trans)

lemma free_ready:
  assumes "ready sl s" "m_fd (get_map s sl) \<noteq> 0"
  shows "ready sl (bc_map_free sl s)" "m_fd (get_map (bc_map_free sl s) sl) = m_fd (get_map s sl)"
    "open_post sl s (bc_map_free sl s)" "\<not> m_hdr (get_map (bc_map_free sl s) sl)"
    "vfile (bc_map_free sl s) sl = vfile s sl"
proof -
  have fr: "frame sl s (bc_map_free sl s)"
    using readyD [OF assms(1)] by (simp add: bc_map_free_def Let_def frame_def)
  obtain f where f: "vfile s sl = Some f"
    using readyD(11) [OF assms] by blast
  have inv: "bc_inv (bc_map_free sl s)"
    by (rule bc_inv_frameI [OF _ fr])
      (use assms(2) f readyD [OF assms(1)] in \<open>auto simp: bc_map_free_def Let_def map_ok_def split: if_splits\<close>)
  show vf: "vfile (bc_map_free sl s) sl = vfile s sl"
    by (simp add: bc_map_free_def Let_def)
  show fd: "m_fd (get_map (bc_map_free sl s) sl) = m_fd (get_map s sl)"
    "\<not> m_hdr (get_map (bc_map_free sl s) sl)"
    using readyD [OF assms(1)] by (simp_all add: bc_map_free_def Let_def)
  show op: "open_post sl s (bc_map_free sl s)"
    using inv fr fd assms view_cong [OF vf] readyD(3) [OF assms(1)]
    by (simp add: open_post_def) (simp add: bc_map_free_def Let_def)
  show "ready sl (bc_map_free sl s)"
    by (rule open_post_ready [OF assms(1) op])
qed

lemma alloc_opened:
  assumes "ready sl s" "m_fd (get_map s sl) \<noteq> 0" "room sl len s" "vfile s sl = Some f"
    "sz = u32 (fsize f div 16384 * 16384)"
  shows "sz = fsize f" "sz < MAX_BC_MAP_SIZE"
    "\<not> m_hdr (get_map s sl) \<Longrightarrow>
       wp (map_grow sl (f_of f) len sz s) (\<lambda>(e, s'). e = 0 \<and> alloc_post sl len s s')"
    "m_hdr (get_map s sl) \<Longrightarrow> 16 + f_of f + len < fsize f \<Longrightarrow> alloc_post sl len s s"
    "m_hdr (get_map s sl) \<Longrightarrow>
       wp (map_grow sl (f_of f) len sz (bc_map_free sl s)) (\<lambda>(e, s'). e = 0 \<and> alloc_post sl len s s')"
proof -
  have v: "vsize s sl = fsize f" "vof s sl = f_of f"
    using assms(4) by (simp_all add: vsize_def vof_def)
  have wf: "wf_file f"
    using readyD(9) [OF assms(1,4)] .
  show sz: "sz = fsize f" and "sz < MAX_BC_MAP_SIZE"
  proof -
    have "fsize f div 16384 * 16384 = fsize f"
      using wf unfolding wf_file_def by (intro dvd_div_mult_self) blast
    then show "sz = fsize f"
      using wf unfolding assms(5) by (simp add: wf_file_def)
    then show "sz < MAX_BC_MAP_SIZE"
      using vsize_lt [OF readyD(1) [OF assms(1)], of sl] v by simp
  qed
  show "wp (map_grow sl (f_of f) len sz s) (\<lambda>(e, s'). e = 0 \<and> alloc_post sl len s s')"
    unfolding sz by (rule map_grow_calm [OF assms(1,2,4,3)])
  show "m_hdr (get_map s sl) \<Longrightarrow> 16 + f_of f + len < fsize f \<Longrightarrow> alloc_post sl len s s"
    using assms(2) readyD(1) [OF assms(1)] by (simp add: alloc_post_def alloc_size_def v)
  note fp = free_ready [OF assms(1,2)]
  have "wp (map_grow sl (f_of f) len sz (bc_map_free sl s))
      (\<lambda>(e, s'). e = 0 \<and> alloc_post sl len (bc_map_free sl s) s')"
    unfolding sz
    by (rule map_grow_calm [OF fp(1)]) (use fp assms(2-4) in \<open>simp_all add: open_post_def room_def\<close>)
  then show "wp (map_grow sl (f_of f) len sz (bc_map_free sl s))
      (\<lambda>(e, s'). e = 0 \<and> alloc_post sl len s s')"
    by (rule wp_mono) (auto intro: open_alloc_post [OF fp(3)])
qed

lemma s_bc_map_alloc_calm:
  assumes "ready sl s" "room sl len s"
  shows "wp (s_bc_map_alloc sl len s) (\<lambda>(e, s'). e = 0 \<and> alloc_post sl len s s')"
proof -
  obtain s1 where o: "bc_map_open sl s = Ret (0, s1)" "open_post sl s s1"
    using bc_map_open_calm [OF assms(1)] by (auto simp: wp_iff)
  have p: "ready sl s1"
    by (rule open_post_ready [OF assms(1) o(2)])
  have fd: "m_fd (get_map s1 sl) \<noteq> 0" and rm: "room sl len s1"
    using o(2) assms(2) by (simp_all add: open_post_def room_def)
  obtain f where f: "vfile s1 sl = Some f"
    using readyD(11) [OF p fd] by blast
  define sz where "sz = u32 (fsize f div 16384 * 16384)"
  note a = alloc_opened [OF p fd rm f sz_def]
  have 16: "BC_HDR_SIZE \<le> fsize f"
    using readyD(9) [OF p f] by (simp add: wf_file_def)
  have "wp (s_bc_map_alloc sl len s) (\<lambda>(e, s'). e = 0 \<and> alloc_post sl len s1 s')"
    using a(2-) 16 readyD(2,6) [OF p]
    by (cases "m_hdr (get_map s1 sl)")
      (simp_all add: s_bc_map_alloc_def o(1) Let_def f flip: sz_def)
  then show ?thesis
    by (rule wp_mono) (auto intro: open_alloc_post [OF o(2)])
qed

lemma alloc_post_lock:
  "alloc_post sl len (s\<lparr>bc_lk := Suc (bc_lk s)\<rparr>) s2 \<Longrightarrow> alloc_post sl len s (bc_unlock s2)"
  by (simp add: alloc_post_def alloc_size_def frame_lock)

lemma bc_map_alloc_calm:
  assumes "ready sl s" "room sl len s"
  shows "wp (bc_map_alloc sl len s) (\<lambda>(e, s'). e = 0 \<and> alloc_post sl len s s')"
  unfolding bc_map_alloc_def
  by (rule locked_lift [OF s_bc_map_alloc_calm])
    (use assms readyD(2) in \<open>auto simp: ready_lock room_def intro: alloc_post_lock\<close>)

section \<open>Reading and writing a mapped file\<close>

lemma poke:
  assumes "ready sl s" "m_fd (get_map s sl) \<noteq> 0" "m_hdr (get_map s sl)" "vfile s sl = Some f"
    and "wf_file g" "fsize g = fsize f" "s' = put_file s (slot_path s sl) g"
  shows "bc_inv s'" "frame sl s s'" "ready sl s'" "vfile s' sl = Some g"
proof -
  note r = readyD [OF assms(1)]
  show fr: "frame sl s s'"
    using r by (simp add: assms(7) frame_def)
  show vf: "vfile s' sl = Some g"
    by (simp add: assms(7) r)
  show inv: "bc_inv s'"
    by (rule bc_inv_frameI [OF r(1) fr])
      (use r assms(2-6) vf in \<open>auto simp: assms(7) map_ok_def\<close>)
  show "ready sl s'"
    using inv r by (simp add: ready_def assms(7))
qed

lemma wf_data:
  "wf_file f \<Longrightarrow> 16 + off + length bs \<le> fsize f \<Longrightarrow> wf_file (fwrite f (16 + off) bs)"
  by (simp add: wf_file_def byte_simps) (simp add: fwrite_def put_bytes_def)

lemma wf_set_of:
  "wf_file f \<Longrightarrow> 16 + v \<le> fsize f \<Longrightarrow> wf_file (fwrite f 12 (le32 v))"
  by (simp add: wf_file_def byte_simps) (simp add: fwrite_def put_bytes_def)

lemma mapped_size:
  assumes "ready sl s" "m_fd (get_map s sl) \<noteq> 0" "m_hdr (get_map s sl)"
  obtains f where "vfile s sl = Some f" "m_size (get_map s sl) = fsize f" "vsize s sl = fsize f"
    "vof s sl = f_of f" "wf_file f" "slot_file s sl = Some f"
    "\<And>i. vbytes s sl i = fbytes f (16 + i)"
proof -
  obtain f where "vfile s sl = Some f"
    using readyD(11) [OF assms(1,2)] by blast
  then show thesis
    using that [of f] readyD [OF assms(1)] assms by (simp add: vsize_def vof_def vbytes_def)
qed

definition view_bytes :: "bc_state \<Rightarrow> bc_slot \<Rightarrow> nat \<Rightarrow> nat \<Rightarrow> byte list" where
  "view_bytes s sl off n = map (\<lambda>i. vbytes s sl (off + i)) [0..<n]"

lemma hdr_of_calm:
  assumes "ready sl s" "m_fd (get_map s sl) \<noteq> 0" "m_hdr (get_map s sl)"
  shows "hdr_of s sl = Ret (vof s sl)"
  using mapped_size [OF assms] assms by (metis hdr_of_def option.simps(5))

lemma raw_read_calm:
  assumes "ready sl s" "m_fd (get_map s sl) \<noteq> 0" "m_hdr (get_map s sl)"
    "16 + off + n \<le> vsize s sl"
  shows "raw_read s sl off n = Ret (view_bytes s sl off n)"
proof -
  obtain f where "m_size (get_map s sl) = fsize f" "vsize s sl = fsize f"
    "slot_file s sl = Some f" "\<And>i. vbytes s sl i = fbytes f (16 + i)"
    using mapped_size [OF assms(1-3)] by metis
  then show ?thesis
    using assms by (simp add: raw_read_def view_bytes_def fread_def add.assoc)
qed

definition poke_post :: "bc_slot \<Rightarrow> bc_state \<Rightarrow> bc_state \<Rightarrow> bool" where
  "poke_post sl s s' \<longleftrightarrow> ready sl s' \<and> frame sl s s' \<and> get_map s' sl = get_map s sl
     \<and> vsize s' sl = vsize s sl"

lemma raw_write_calm:
  assumes "ready sl s" "m_fd (get_map s sl) \<noteq> 0" "m_hdr (get_map s sl)"
    "16 + off + length bs \<le> vsize s sl"
  shows "wp (raw_write sl off bs s) (\<lambda>s'. poke_post sl s s'
      \<and> vbytes s' sl = put_bytes (vbytes s sl) off bs \<and> vof s' sl = vof s sl)"
proof -
  obtain f where f: "vfile s sl = Some f" "m_size (get_map s sl) = fsize f" "vsize s sl = fsize f"
    "vof s sl = f_of f" "wf_file f" "slot_file s sl = Some f"
    "\<And>i. vbytes s sl i = fbytes f (16 + i)"
    using mapped_size [OF assms(1-3)] by metis
  let ?g = "fwrite f (16 + off) bs"
  note p = poke [OF assms(1-3) f(1) wf_data [OF f(5)], of off bs, OF _ _ refl]
  have "vbytes (put_file s (slot_path s sl) ?g) sl i = fbytes ?g (16 + i)" for i
    using p(4) assms(4) f(3) by (simp add: vbytes_def)
  then have "vbytes (put_file s (slot_path s sl) ?g) sl = put_bytes (vbytes s sl) off bs"
    by (simp add: fun_eq_iff fwrite_def put_bytes_def f(7))
  moreover have "vof (put_file s (slot_path s sl) ?g) sl = vof s sl"
    "vsize (put_file s (slot_path s sl) ?g) sl = vsize s sl"
    using p(4) assms(4) f by (simp_all add: vof_def vsize_def byte_simps)
  ultimately show ?thesis
    using p assms f by (simp add: raw_write_def poke_post_def)
qed

lemma set_hdr_of_calm:
  assumes "ready sl s" "m_fd (get_map s sl) \<noteq> 0" "m_hdr (get_map s sl)"
    "16 + v \<le> vsize s sl"
  shows "wp (set_hdr_of sl v s) (\<lambda>s'. poke_post sl s s'
      \<and> vbytes s' sl = vbytes s sl \<and> vof s' sl = v)"
proof -
  obtain f where f: "vfile s sl = Some f" "m_size (get_map s sl) = fsize f" "vsize s sl = fsize f"
    "vof s sl = f_of f" "wf_file f" "slot_file s sl = Some f"
    "\<And>i. vbytes s sl i = fbytes f (16 + i)"
    using mapped_size [OF assms(1-3)] by metis
  let ?g = "fwrite f 12 (le32 v)"
  note p = poke [OF assms(1-3) f(1) wf_set_of [OF f(5)], of v, OF _ _ refl]
  have "vbytes (put_file s (slot_path s sl) ?g) sl i = fbytes ?g (16 + i)" for i
    using p(4) assms(4) f(3) by (simp add: vbytes_def)
  then have "vbytes (put_file s (slot_path s sl) ?g) sl = vbytes s sl"
    by (simp add: fun_eq_iff fwrite_def put_bytes_def f(7))
  moreover have "v < 4294967296"
    using assms(4) f(3,5) by (simp add: wf_file_def)
  then have "vof (put_file s (slot_path s sl) ?g) sl = v"
    "vsize (put_file s (slot_path s sl) ?g) sl = vsize s sl"
    using p(4) assms(4) f by (simp_all add: vof_def vsize_def byte_simps)
  ultimately show ?thesis
    using p assms f by (simp add: set_hdr_of_def poke_post_def)
qed

lemma alloc_post_ready: "ready sl s \<Longrightarrow> alloc_post sl len s s' \<Longrightarrow> ready sl s'"
  unfolding ready_def alloc_post_def by (auto simp: frame_valid frame_ext) (simp add: frame_def)

lemma poke_post_trans: "poke_post sl a b \<Longrightarrow> poke_post sl b c \<Longrightarrow> poke_post sl a c"
  by (auto simp: poke_post_def intro: frame_trans)

lemma touch:
  assumes "ready sl s" "m_fd (get_map s sl) \<noteq> 0"
    and s': "s' = set_map s sl ((get_map s sl)\<lparr>m_stamp := x\<rparr>)"
  shows "ready sl s'" "frame sl s s'" "get_map s' sl = (get_map s sl)\<lparr>m_stamp := x\<rparr>"
    "vfile s' sl = vfile s sl"
    "vbytes s' sl = vbytes s sl" "vof s' sl = vof s sl" "vsize s' sl = vsize s sl"
proof -
  note r = readyD [OF assms(1)]
  show fr: "frame sl s s'"
    using r by (simp add: s' frame_def)
  show vf: "vfile s' sl = vfile s sl"
    by (simp add: s')
  show m: "get_map s' sl = (get_map s sl)\<lparr>m_stamp := x\<rparr>"
    using r by (simp add: s')
  obtain f where f: "vfile s sl = Some f"
    using r(11) assms(2) by blast
  have inv: "bc_inv s'"
    by (rule bc_inv_frameI [OF r(1) fr]) (use r f assms(2) in \<open>auto simp: s' map_ok_def\<close>)
  show "ready sl s'"
    using inv r by (simp add: ready_def s')
  show "vbytes s' sl = vbytes s sl" "vof s' sl = vof s sl" "vsize s' sl = vsize s sl"
    using view_cong [OF vf] by simp_all
qed

section \<open>Writing, appending, truncating\<close>

definition write_post :: "bc_slot \<Rightarrow> nat \<Rightarrow> byte list \<Rightarrow> bc_state \<Rightarrow> bc_state \<Rightarrow> bool" where
  "write_post sl off bs s s' \<longleftrightarrow> ready sl s' \<and> frame sl s s' \<and> m_fd (get_map s' sl) \<noteq> 0
     \<and> m_hdr (get_map s' sl) \<and> m_stamp (get_map s' sl) = ds_now (os_desc s)
     \<and> vbytes s' sl = put_bytes (vbytes s sl) off bs \<and> vof s' sl = max (vof s sl) (off + length bs)
     \<and> vsize s' sl = alloc_size s sl (length bs)"

lemma write_post_lock:
  "write_post sl off bs (s\<lparr>bc_lk := Suc (bc_lk s)\<rparr>) s2 \<Longrightarrow> write_post sl off bs s (bc_unlock s2)"
  by (simp add: write_post_def alloc_size_def frame_lock)

lemma s_bc_map_write_calm:
  assumes "ready sl s" "room sl (length bs) s" "off \<le> vof s sl \<or> 16 + off + length bs \<le> vsize s sl"
  shows "wp (s_bc_map_write sl off bs s) (\<lambda>(e, s'). e = 0 \<and> write_post sl off bs s s')"
proof -
  have l: "u32 (length bs) = length bs"
    by (rule room_u32 [OF readyD(1) [OF assms(1)] assms(2)])
  obtain s1 where a: "bc_map_alloc sl (length bs) s = Ret (0, s1)" "alloc_post sl (length bs) s s1"
    using bc_map_alloc_calm [OF assms(1,2)] by (auto simp: wp_iff)
  have r1: "ready sl s1"
    by (rule alloc_post_ready [OF assms(1) a(2)])
  have h1: "m_fd (get_map s1 sl) \<noteq> 0" "m_hdr (get_map s1 sl)" "frame sl s s1"
    "vsize s1 sl = alloc_size s sl (length bs)" "vbytes s1 sl = vbytes s sl" "vof s1 sl = vof s sl"
    using a(2) by (simp_all add: alloc_post_def)
  have fit: "16 + off + length bs \<le> vsize s1 sl"
    using alloc_size_fits [OF readyD(1) [OF assms(1)] assms(2)] assms(3) h1(4) by auto
  obtain s2 where w: "raw_write sl off bs s1 = Ret s2" "poke_post sl s1 s2"
    "vbytes s2 sl = put_bytes (vbytes s1 sl) off bs" "vof s2 sl = vof s1 sl"
    using raw_write_calm [OF r1 h1(1,2) fit] by (auto simp: wp_iff)
  have r2: "ready sl s2" "m_fd (get_map s2 sl) \<noteq> 0" "m_hdr (get_map s2 sl)"
    using w(2) h1 by (simp_all add: poke_post_def)
  have sm: "vsize s2 sl < 4294967296"
    using mapped_size [OF r2] by (metis wf_file_def)
  have v2: "vsize s2 sl = vsize s1 sl"
    using w(2) by (simp add: poke_post_def)
  have u: "u32 (off + length bs) = off + length bs"
    using sm v2 fit by simp
  have "16 + max (vof s2 sl) (off + length bs) \<le> vsize s2 sl"
    using fit v2 vof_le_vsize [OF readyD(1) [OF r2(1)], of sl] by (simp add: max_def)
  from set_hdr_of_calm [OF r2 this]
  obtain s3 where t: "set_hdr_of sl (max (vof s2 sl) (off + length bs)) s2 = Ret s3" "poke_post sl s2 s3"
    "vbytes s3 sl = vbytes s2 sl" "vof s3 sl = max (vof s2 sl) (off + length bs)"
    by (auto simp: wp_iff)
  have r3: "ready sl s3" "m_fd (get_map s3 sl) \<noteq> 0" "frame sl s1 s3" "get_map s3 sl = get_map s1 sl"
     "vsize s3 sl = vsize s1 sl"
    using poke_post_trans [OF w(2) t(2)] h1 by (simp_all add: poke_post_def)
  note c = touch [OF r3(1,2) refl, of "ds_now (os_desc s3)"]
  have "ds_now (os_desc s3) = ds_now (os_desc s)"
    using r3(3) h1(3) by (simp add: frame_def)
  then show ?thesis
    unfolding s_bc_map_write_def l a(1)
    using c r3 h1 t w(3,4) frame_trans [OF frame_trans [OF h1(3) r3(3)] c(2)]
    by (simp add: w(1) hdr_of_calm [OF r2] u write_post_def)
qed

lemma bc_map_write_calm:
  assumes "ready sl s" "room sl (length bs) s" "off \<le> vof s sl \<or> 16 + off + length bs \<le> vsize s sl"
  shows "wp (bc_map_write sl off bs s) (\<lambda>(e, s'). e = 0 \<and> write_post sl off bs s s')"
  unfolding bc_map_write_def
  by (rule locked_lift [OF s_bc_map_write_calm])
    (use assms readyD(2) in \<open>auto simp: ready_lock room_def intro: write_post_lock\<close>)

lemma bc_map_append_calm:
  assumes "ready sl s" "room sl (length bs) s"
  shows "wp (bc_map_append sl bs s) (\<lambda>(e, s'). e = 0 \<and> write_post sl (vof s sl) bs s s')"
proof -
  let ?s = "s\<lparr>bc_lk := Suc (bc_lk s)\<rparr>"
  have l: "u32 (length bs) = length bs"
    by (rule room_u32 [OF readyD(1) [OF assms(1)] assms(2)])
  have r: "ready sl ?s"
    using assms(1) by (simp add: ready_lock)
  obtain s1 where a: "bc_map_alloc sl (length bs) ?s = Ret (0, s1)" "alloc_post sl (length bs) ?s s1"
    using bc_map_alloc_calm [OF r] assms(2) by (auto simp: wp_iff room_def)
  have r1: "ready sl s1"
    by (rule alloc_post_ready [OF r a(2)])
  have h1: "m_fd (get_map s1 sl) \<noteq> 0" "m_hdr (get_map s1 sl)" "frame sl ?s s1"
    "vsize s1 sl = alloc_size s sl (length bs)" "vbytes s1 sl = vbytes s sl" "vof s1 sl = vof s sl"
    using a(2) by (simp_all add: alloc_post_def alloc_size_def)
  have fit: "16 + vof s1 sl + length bs < vsize s1 sl"
    using alloc_size_fits [OF readyD(1) [OF assms(1)] assms(2)] h1(4,6) by auto
  obtain s2 where w: "bc_map_write sl (vof s1 sl) bs s1 = Ret (0, s2)"
      "write_post sl (vof s1 sl) bs s1 s2"
    using bc_map_write_calm [OF r1, of bs "vof s1 sl"] fit by (auto simp: wp_iff room_def)
  have "write_post sl (vof s sl) bs ?s s2"
    using w(2) h1 fit frame_trans [OF h1(3)]
    by (auto simp: write_post_def alloc_size_def frame_def)
  then show ?thesis
    using readyD(2) [OF assms(1)] write_post_lock
    by (simp add: bc_map_append_def locked_calm s_bc_map_append_def l a(1) hdr_of_calm [OF r1 h1(1,2)] w(1))
qed

definition trunc_post :: "bc_slot \<Rightarrow> nat \<Rightarrow> bc_state \<Rightarrow> bc_state \<Rightarrow> bool" where
  "trunc_post sl len s s' \<longleftrightarrow> ready sl s' \<and> frame sl s s' \<and> m_fd (get_map s' sl) \<noteq> 0
     \<and> m_hdr (get_map s' sl) \<and> vbytes s' sl = vbytes s sl \<and> vof s' sl = min (vof s sl) len
     \<and> vsize s' sl = alloc_size s sl 0"

lemma s_bc_map_trunc_calm:
  assumes "ready sl s" "room sl 0 s"
  shows "wp (s_bc_map_trunc sl len s) (\<lambda>(e, s'). e = 0 \<and> trunc_post sl len s s')"
proof -
  obtain s1 where a: "bc_map_alloc sl 0 s = Ret (0, s1)" "alloc_post sl 0 s s1"
    using bc_map_alloc_calm [OF assms] by (auto simp: wp_iff)
  have r1: "ready sl s1"
    by (rule alloc_post_ready [OF assms(1) a(2)])
  have h1: "m_fd (get_map s1 sl) \<noteq> 0" "m_hdr (get_map s1 sl)" "frame sl s s1"
    "vsize s1 sl = alloc_size s sl 0" "vbytes s1 sl = vbytes s sl" "vof s1 sl = vof s sl"
    using a(2) by (simp_all add: alloc_post_def)
  show ?thesis
  proof (cases "len < vof s sl")
    case True
    then have "16 + len \<le> vsize s1 sl"
      using vof_le_vsize [OF readyD(1) [OF r1], of sl] h1(6) by simp
    then obtain s2 where t: "set_hdr_of sl len s1 = Ret s2" "poke_post sl s1 s2"
      "vbytes s2 sl = vbytes s1 sl" "vof s2 sl = len"
      using set_hdr_of_calm [OF r1 h1(1,2)] by (auto simp: wp_iff)
    then show ?thesis
      using True h1 frame_trans [OF h1(3)]
      by (simp add: s_bc_map_trunc_def a(1) hdr_of_calm [OF r1 h1(1,2)] trunc_post_def poke_post_def)
  next
    case False
    then show ?thesis
      using h1 r1 by (simp add: s_bc_map_trunc_def a(1) hdr_of_calm [OF r1 h1(1,2)] trunc_post_def)
  qed
qed

lemma bc_map_trunc_calm:
  assumes "ready sl s" "room sl 0 s"
  shows "wp (bc_map_trunc sl len s) (\<lambda>(e, s'). e = 0 \<and> trunc_post sl len s s')"
  unfolding bc_map_trunc_def
  by (rule locked_lift [OF s_bc_map_trunc_calm])
    (use assms readyD(2) in
      \<open>auto simp: ready_lock room_def trunc_post_def alloc_size_def frame_lock\<close>)

lemma s_bc_map_read_calm:
  assumes "ready sl s" "m_fd (get_map s sl) \<noteq> 0" "m_hdr (get_map s sl)" "data_of + len < 4294967296"
  shows "s_bc_map_read sl data_of len s =
    (if data_of + len < vof s sl
     then Ret ((0, view_bytes s sl data_of len),
               set_map s sl ((get_map s sl)\<lparr>m_stamp := ds_now (os_desc s)\<rparr>))
     else Ret ((ERR_INVAL, []), s))"
  using raw_read_calm [OF assms(1-3), of data_of len] vof_le_vsize [OF readyD(1) [OF assms(1)], of sl] assms(4)
  by (simp add: s_bc_map_read_def hdr_of_calm [OF assms(1-3)])

lemma bc_map_close_calm:
  assumes "bc_inv s" "valid_slot s sl"
  shows "wp (bc_map_close sl s) (\<lambda>s'. bc_inv s' \<and> frame sl s s' \<and> m_fd (get_map s' sl) = 0
     \<and> \<not> m_hdr (get_map s' sl) \<and> vfile s' sl = vfile s sl)"
proof -
  have ok: "map_ok s sl"
    using assms by (simp add: bc_inv_def)
  define s1 where "s1 = bc_map_free sl s"
  have m1: "m_fd (get_map s1 sl) = m_fd (get_map s sl)" "m_ext (get_map s1 sl) = m_ext (get_map s sl)"
    "\<not> m_hdr (get_map s1 sl)" "os_desc s1 = os_desc s" "frame sl s s1" "vfile s1 sl = vfile s sl"
    "valid_slot s1 sl" "os_next_fd s1 = os_next_fd s"
    using assms(2) by (simp_all add: s1_def bc_map_free_def Let_def frame_def)
  show ?thesis
  proof (cases "m_fd (get_map s sl) = 0")
    case True
    have "bc_inv s1"
      by (rule bc_inv_frameI [OF assms(1) m1(5)])
        (use ok m1 True assms(1) in \<open>auto simp: map_ok_def Let_def bc_inv_def\<close>)
    then show ?thesis
      using m1 True by (simp add: bc_map_close_def Let_def flip: s1_def)
  next
    case False
    then obtain ds where ds: "descriptor_release (m_fd (get_map s sl)) (os_desc s) = Ret ds"
      "ds_now ds = ds_now (os_desc s)"
      using descriptor_release_ret ok by (fastforce simp: map_ok_def Let_def)
    define s2 where "s2 = set_map (s1\<lparr>os_desc := ds\<rparr>) sl ((get_map s1 sl)\<lparr>m_fd := 0\<rparr>)"
    have fr: "frame sl s s2"
      using m1 ds(2) by (simp add: s2_def frame_def)
    have "bc_inv s2"
      by (rule bc_inv_frameI [OF assms(1) fr])
        (use ok m1 assms(1) in \<open>auto simp: map_ok_def Let_def s2_def bc_inv_def\<close>)
    then show ?thesis
      using m1 False ds fr by (simp add: bc_map_close_def Let_def s2_def flip: s1_def)
  qed
qed

section \<open>The lock is given back\<close>

text \<open>
  Whatever system calls fail on the way, a routine that returns leaves the lock count as it
  found it; wrapping a worker that does so in \<open>bc_lock\<close>/\<open>bc_unlock\<close> gives such a routine.
\<close>

locale lock_balanced =
  fixes f :: "bc_state \<Rightarrow> ('r \<times> bc_state) res"
  assumes balance: "wlp (f s) (\<lambda>(v, s'). bc_lk s' = bc_lk s)"
begin

lemma locked_balance: "wlp (locked r f s) (\<lambda>(v, s'). bc_lk s' = bc_lk s)"
proof -
  obtain e s1 where e: "sys s = (e, s1)" "bc_lk s1 = bc_lk s"
    by (cases "os_faults s") (auto simp: sys_def)
  have "wlp (f (s1\<lparr>bc_lk := Suc (bc_lk s1)\<rparr>)) (\<lambda>(v, s'). bc_lk s' = Suc (bc_lk s1))"
    using balance [of "s1\<lparr>bc_lk := Suc (bc_lk s1)\<rparr>"] by simp
  then show ?thesis
    using e by (auto simp: locked_def bc_lock_def wlp_iff bc_unlock_def andThen_Ret_iff)
qed

end

lemma sys_lk [simp]: "bc_lk (snd (sys s)) = bc_lk s"
  by (cases "os_faults s") (auto simp: sys_def)

lemma sys_close_lk [simp]: "bc_lk (sys_close fd s) = bc_lk s"
  by (simp add: sys_close_def)

lemma sys_lkD: "sys s = (e, s') \<Longrightarrow> bc_lk s' = bc_lk s"
  using sys_lk [of s] by simp

lemma map_open_fd_lkD: "map_open_fd sl fd s = Ret (e, s') \<Longrightarrow> bc_lk s' = bc_lk s"
  by (auto simp: map_open_fd_def Let_def split_beta andThen_Ret_iff split: if_splits)

interpretation open_lk: lock_balanced "s_bc_map_open sl" for sl
  by unfold_locales
    (auto simp: s_bc_map_open_def Let_def split_beta wlp_iff andThen_Ret_iff split: if_splits
      dest!: sys_lkD map_open_fd_lkD)

lemma bc_map_open_lkD: "bc_map_open sl s = Ret (e, s') \<Longrightarrow> bc_lk s' = bc_lk s"
  using open_lk.locked_balance [of ERR_NOLCK sl s] by (simp add: bc_map_open_def wlp_iff)

lemma bc_map_free_lk [simp]: "bc_lk (bc_map_free sl s) = bc_lk s"
  by (simp add: bc_map_free_def Let_def)

lemma map_grow_lkD: "map_grow sl a len sz s = Ret (e, s') \<Longrightarrow> bc_lk s' = bc_lk s"
  by (auto simp: map_grow_def split_beta andThen_Ret_iff split: if_splits option.splits dest!: sys_lkD)

interpretation alloc_lk: lock_balanced "s_bc_map_alloc sl len" for sl len
  by unfold_locales
    (auto simp: s_bc_map_alloc_def Let_def wlp_iff andThen_Ret_iff
      split: prod.split_asm if_split_asm option.split_asm dest!: sys_lkD bc_map_open_lkD map_grow_lkD)

lemma bc_map_alloc_lkD: "bc_map_alloc sl len s = Ret (e, s') \<Longrightarrow> bc_lk s' = bc_lk s"
  using alloc_lk.locked_balance [of ERR_NOLCK sl len s] by (simp add: bc_map_alloc_def wlp_iff)

lemma set_hdr_of_lkD: "set_hdr_of sl v s = Ret s' \<Longrightarrow> bc_lk s' = bc_lk s"
  by (auto simp: set_hdr_of_def split: if_splits option.splits)

lemma raw_write_lkD: "raw_write sl off bs s = Ret s' \<Longrightarrow> bc_lk s' = bc_lk s"
  by (auto simp: raw_write_def split: if_splits option.splits)

interpretation trunc_lk: lock_balanced "s_bc_map_trunc sl len" for sl len
  by unfold_locales
    (auto simp: s_bc_map_trunc_def wlp_iff andThen_Ret_iff split: if_splits
      dest!: bc_map_alloc_lkD set_hdr_of_lkD)

interpretation write_lk: lock_balanced "s_bc_map_write sl off bs" for sl off bs
  by unfold_locales
    (auto simp: s_bc_map_write_def wlp_iff andThen_Ret_iff split: if_splits
      dest!: bc_map_alloc_lkD set_hdr_of_lkD raw_write_lkD)

lemma bc_map_trunc_lkD: "bc_map_trunc sl len s = Ret (e, s') \<Longrightarrow> bc_lk s' = bc_lk s"
  using trunc_lk.locked_balance [of ERR_NOLCK sl len s] by (simp add: bc_map_trunc_def wlp_iff)

lemma bc_map_write_lkD: "bc_map_write sl off bs s = Ret (e, s') \<Longrightarrow> bc_lk s' = bc_lk s"
  using write_lk.locked_balance [of ERR_NOLCK sl off bs s] by (simp add: bc_map_write_def wlp_iff)

interpretation append_lk: lock_balanced "s_bc_map_append sl bs" for sl bs
  by unfold_locales
    (auto simp: s_bc_map_append_def wlp_iff andThen_Ret_iff split: if_splits
      dest!: bc_map_alloc_lkD bc_map_write_lkD)

interpretation read_lk: lock_balanced "s_bc_map_read sl off n" for sl off n
  by unfold_locales
    (auto simp: s_bc_map_read_def wlp_iff andThen_Ret_iff split: if_splits)

lemma bc_map_append_lkD: "bc_map_append sl bs s = Ret (e, s') \<Longrightarrow> bc_lk s' = bc_lk s"
  using append_lk.locked_balance [of ERR_NOLCK sl bs s] by (simp add: bc_map_append_def wlp_iff)

lemma bc_map_read_lkD: "bc_map_read sl off n s = Ret (e, s') \<Longrightarrow> bc_lk s' = bc_lk s"
  using read_lk.locked_balance [of "(ERR_NOLCK, [])" sl off n s]
  by (cases e) (simp add: bc_map_read_def wlp_iff)

lemma bc_map_close_lkD: "bc_map_close sl s = Ret s' \<Longrightarrow> bc_lk s' = bc_lk s"
  by (auto simp: bc_map_close_def Let_def andThen_Ret_iff split: if_splits)

lemmas lk_dests = sys_lkD bc_map_open_lkD bc_map_alloc_lkD bc_map_trunc_lkD bc_map_write_lkD
  bc_map_append_lkD bc_map_read_lkD bc_map_close_lkD set_hdr_of_lkD raw_write_lkD

end
