(* ===== verification/Bc_Store.thy ===== *)
theory Bc_Store
  imports Bc_Map_Props
begin

text \<open>
  What the index, the hash table and the archive have in common: the 64 byte index record
  (\<open>bc_idx_t\<close> of bc.h) and its encoding, the way the three maps are opened, and the
  invariant of a whole store (\<open>store_ok\<close>).
\<close>

section \<open>Index records\<close>

type_synonym bc_hash = "byte list"

record bc_idx =
  ix_jrnl :: nat
  ix_of :: nat
  ix_size :: nat
  ix_crc :: nat
  ix_reserved_0 :: nat
  ix_reserved_1 :: nat
  ix_hash :: bc_hash

definition idx_zero :: bc_idx where
  "idx_zero = \<lparr>ix_jrnl = 0, ix_of = 0, ix_size = 0, ix_crc = 0, ix_reserved_0 = 0,
     ix_reserved_1 = 0, ix_hash = replicate 32 0\<rparr>"

definition idx_bytes :: "bc_idx \<Rightarrow> byte list" where
  "idx_bytes x = le32 (ix_jrnl x) @ le32 (ix_of x) @ le32 (ix_size x) @ le32 (ix_crc x)
     @ le64 (ix_reserved_0 x) @ le64 (ix_reserved_1 x) @ ix_hash x"

definition idx_of_bytes :: "byte list \<Rightarrow> bc_idx" where
  "idx_of_bytes bs = \<lparr>ix_jrnl = ld32 (take 4 bs), ix_of = ld32 (take 4 (drop 4 bs)),
     ix_size = ld32 (take 4 (drop 8 bs)), ix_crc = ld32 (take 4 (drop 12 bs)),
     ix_reserved_0 = ld64 (take 8 (drop 16 bs)), ix_reserved_1 = ld64 (take 8 (drop 24 bs)),
     ix_hash = take 32 (drop 32 bs)\<rparr>"

definition idx_wf :: "bc_idx \<Rightarrow> bool" where
  "idx_wf x \<longleftrightarrow> ix_jrnl x < 4294967296 \<and> ix_of x < 4294967296 \<and> ix_size x < 4294967296
     \<and> ix_crc x < 4294967296 \<and> ix_reserved_0 x < 18446744073709551616
     \<and> ix_reserved_1 x < 18446744073709551616 \<and> length (ix_hash x) = 32"

lemma length_idx_bytes [simp, byte_simps]: "idx_wf x \<Longrightarrow> length (idx_bytes x) = 64"
  by (simp add: idx_bytes_def idx_wf_def)

lemma idx_of_idx_bytes [byte_simps]: "idx_wf x \<Longrightarrow> idx_of_bytes (idx_bytes x) = x"
  by (cases x) (simp add: idx_of_bytes_def idx_bytes_def idx_wf_def ld64_le64)

interpretation cidx: codec idx_bytes idx_of_bytes idx_wf
  by unfold_locales (rule idx_of_idx_bytes)

lemma idx_wf_zero [simp]: "idx_wf idx_zero"
  by (simp add: idx_wf_def idx_zero_def)

lemma ix_size_zero [simp]: "ix_size idx_zero = 0"
  by (simp add: idx_zero_def)

text \<open>\<open>bc_hash_cmp\<close> of bc\_block.c compares the 32 bytes of two hashes.\<close>

definition bc_hash_cmp :: "bc_hash \<Rightarrow> bc_hash \<Rightarrow> bool" where
  "bc_hash_cmp a_hash b_hash \<longleftrightarrow> take 32 a_hash = take 32 b_hash"

section \<open>Records in a map\<close>

text \<open>The fields of \<open>idx[i]\<close> the code looks at, and the whole of it, read from the mapping.\<close>

definition idx_size_at :: "bc_state \<Rightarrow> bc_slot \<Rightarrow> nat \<Rightarrow> nat res" where
  "idx_size_at s sl i = andThen (raw_read s sl (64 * i + 8) 4) (\<lambda>bs. Ret (ld32 bs))"

definition idx_hash_at :: "bc_state \<Rightarrow> bc_slot \<Rightarrow> nat \<Rightarrow> bc_hash res" where
  "idx_hash_at s sl i = raw_read s sl (64 * i + 32) 32"

definition idx_at :: "bc_state \<Rightarrow> bc_slot \<Rightarrow> nat \<Rightarrow> bc_idx res" where
  "idx_at s sl i = andThen (raw_read s sl (64 * i) 64) (\<lambda>bs. Ret (idx_of_bytes bs))"

text \<open>\<open>rec_at\<close> and \<open>nrec\<close>: the records a map holds, independently of whether it is open.\<close>

definition rec_at :: "bc_state \<Rightarrow> bc_slot \<Rightarrow> nat \<Rightarrow> bc_idx" where
  "rec_at s sl i = idx_of_bytes (view_bytes s sl (64 * i) 64)"

definition nrec :: "bc_state \<Rightarrow> bc_slot \<Rightarrow> nat" where
  "nrec s sl = vof s sl div 64"

definition live :: "bc_state \<Rightarrow> bc_slot \<Rightarrow> nat \<Rightarrow> bool" where
  "live s sl i \<longleftrightarrow> i < nrec s sl \<and> ix_size (rec_at s sl i) \<noteq> 0"

lemma view_bytes_take_drop:
  "a + n \<le> m \<Longrightarrow> take n (drop a (view_bytes s sl off m)) = view_bytes s sl (off + a) n"
  by (rule nth_equalityI) (simp_all add: view_bytes_def add.assoc)

lemma length_view_bytes [simp]: "length (view_bytes s sl off n) = n"
  by (simp add: view_bytes_def)

lemma rec_at_fields:
  "ix_size (rec_at s sl i) = ld32 (view_bytes s sl (64 * i + 8) 4)"
  "ix_hash (rec_at s sl i) = view_bytes s sl (64 * i + 32) 32"
  using view_bytes_take_drop [of 32 32 64 s sl "64 * i"]
  by (simp_all add: rec_at_def idx_of_bytes_def view_bytes_take_drop)

lemma ld64_lt [simp]: "ld64 bs < 18446744073709551616"
  using ld32_lt [of "take 4 bs"] ld32_lt [of "take 4 (drop 4 bs)"]
  unfolding ld64_def by linarith

lemma idx_wf_rec_at [simp]: "idx_wf (rec_at s sl i)"
  by (simp add: idx_wf_def rec_at_def idx_of_bytes_def)

section \<open>Opening one of the three maps\<close>

definition set_ext :: "bc_slot \<Rightarrow> string \<Rightarrow> bc_state \<Rightarrow> bc_state" where
  "set_ext sl ext s = set_map s sl ((get_map s sl)\<lparr>m_ext := ext\<rparr>)"

text \<open>The common body of \<open>_bc_idx_open\<close>, \<open>_bc_table_open\<close> and \<open>_bc_arch_open\<close>.\<close>

definition slot_open :: "bc_slot \<Rightarrow> string \<Rightarrow> nat \<Rightarrow> bc_state \<Rightarrow> (int \<times> bc_state) res" where
  "slot_open sl ext len s =
     (if m_fd (get_map s sl) \<noteq> 0 then Ret (0, s)
      else andThen (bc_map_open sl (set_ext sl ext s)) (\<lambda>(err, s1).
        if err \<noteq> 0 then Ret (err, s1) else bc_map_alloc sl len s1))"

text \<open>The common body of the three close functions.\<close>

definition slot_close :: "bc_slot \<Rightarrow> bc_state \<Rightarrow> bc_state res" where
  "slot_close sl s =
     (case bc_lock s of (ok, s1) \<Rightarrow>
        if ok then andThen (if m_fd (get_map s1 sl) \<noteq> 0 then bc_map_close sl s1 else Ret s1)
                     (\<lambda>s2. Ret (bc_unlock s2))
        else Ret s1)"

section \<open>The invariant of a store\<close>

text \<open>
  A store is in order when its maps are (\<open>bc_inv\<close>), no system call is about to fail, an open
  index, table or archive is mapped, the index and the archive hold whole records and an open
  table holds all its entries.
\<close>

definition store_ok :: "bc_state \<Rightarrow> bool" where
  "store_ok s \<longleftrightarrow> bc_inv s \<and> os_faults s = []
     \<and> (m_fd (idx_map s) \<noteq> 0 \<longrightarrow> m_hdr (idx_map s))
     \<and> (m_fd (arch_map s) \<noteq> 0 \<longrightarrow> m_hdr (arch_map s))
     \<and> (m_fd (tab_map s) \<noteq> 0 \<longrightarrow> m_hdr (tab_map s) \<and> 4194320 < vsize s TabMap)
     \<and> 64 dvd vof s IdxMap \<and> 64 dvd vof s ArchMap \<and> vof s TabMap = 0 \<and> vsize s TabMap \<le> 10000000"

text \<open>
  \<open>keep M s s'\<close>: outside the maps of \<open>M\<close> the contents of the store are unchanged, and no map
  that was mapped has been closed.
\<close>

definition open_at :: "bc_slot \<Rightarrow> bc_state \<Rightarrow> bool" where
  "open_at sl s \<longleftrightarrow> valid_slot s sl \<and> m_ext (get_map s sl) = cext sl \<and> m_fd (get_map s sl) \<noteq> 0
     \<and> m_hdr (get_map s sl)"

abbreviation mapped :: "bc_slot \<Rightarrow> bc_state \<Rightarrow> bool" where
  "mapped sl s \<equiv> ready sl s \<and> m_fd (get_map s sl) \<noteq> 0 \<and> m_hdr (get_map s sl)"

definition keep :: "bc_slot set \<Rightarrow> bc_state \<Rightarrow> bc_state \<Rightarrow> bool" where
  "keep M s s' \<longleftrightarrow> bc_name s' = bc_name s \<and> os_base s' = os_base s \<and> bc_lk s' = bc_lk s
     \<and> ds_now (os_desc s') = ds_now (os_desc s) \<and> length (data_map s) \<le> length (data_map s')
     \<and> (\<forall>sl. open_at sl s \<longrightarrow> open_at sl s')
     \<and> (\<forall>sl. sl \<notin> M \<longrightarrow> vbytes s' sl = vbytes s sl \<and> vof s' sl = vof s sl \<and> vsize s' sl = vsize s sl)"

lemma keep_refl [simp]: "keep M s s"
  by (simp add: keep_def)

lemma keepD: "keep M s s' \<Longrightarrow> sl \<notin> M \<Longrightarrow>
    vbytes s' sl = vbytes s sl \<and> vof s' sl = vof s sl \<and> vsize s' sl = vsize s sl"
  by (simp add: keep_def)

lemma keep_trans:
  assumes "keep M a b" "keep N b c" "M \<subseteq> K" "N \<subseteq> K"
  shows "keep K a c"
proof -
  have "vbytes c sl = vbytes a sl \<and> vof c sl = vof a sl \<and> vsize c sl = vsize a sl" if "sl \<notin> K" for sl
  proof -
    have "sl \<notin> M" "sl \<notin> N"
      using assms(3,4) that by auto
    then show ?thesis
      using keepD [OF assms(1)] keepD [OF assms(2)] by simp
  qed
  then show ?thesis
    using assms(1,2) by (auto simp: keep_def)
qed

lemma keep_mono: "keep M a b \<Longrightarrow> M \<subseteq> K \<Longrightarrow> keep K a b"
  unfolding keep_def by (auto simp: subset_iff)

lemma keep_rec: "keep M s s' \<Longrightarrow> sl \<notin> M \<Longrightarrow>
    rec_at s' sl = rec_at s sl \<and> nrec s' sl = nrec s sl \<and> live s' sl = live s sl"
  by (simp add: keep_def rec_at_def nrec_def live_def view_bytes_def fun_eq_iff)

lemma mapped_iff: "mapped sl s \<longleftrightarrow> bc_inv s \<and> os_faults s = [] \<and> open_at sl s"
  by (auto simp: ready_def open_at_def)

lemma keep_mapped: "keep M s s' \<Longrightarrow> store_ok s' \<Longrightarrow> mapped sl s \<Longrightarrow> mapped sl s'"
  unfolding mapped_iff keep_def store_ok_def by blast

lemma frame_keep:
  assumes "frame sl s s'" "open_at sl s \<longrightarrow> open_at sl s'"
  shows "keep {sl} s s'"
proof -
  have "open_at t s \<longrightarrow> open_at t s'" for t
    using assms frame_valid [OF assms(1)] by (cases "t = sl") (auto simp: open_at_def frame_def)
  then show ?thesis
    using assms(1) by (simp add: frame_def keep_def vbytes_def vof_def vsize_def fun_eq_iff)
qed

lemma alloc_post_keep: "ready sl s \<Longrightarrow> alloc_post sl n s s' \<Longrightarrow> keep {sl} s s'"
  using alloc_post_ready [of sl s n s']
  by (intro frame_keep) (auto simp: alloc_post_def open_at_def ready_def)

lemma write_post_keep: "write_post sl off bs s s' \<Longrightarrow> keep {sl} s s'"
  by (intro frame_keep) (auto simp: write_post_def open_at_def ready_def)

lemma poke_post_keep: "poke_post sl s s' \<Longrightarrow> keep {sl} s s'"
  by (intro frame_keep) (auto simp: poke_post_def open_at_def ready_def)

lemma open_at_lock [simp]: "open_at sl (s\<lparr>bc_lk := n\<rparr>) = open_at sl s" "open_at sl (bc_unlock s) = open_at sl s"
  by (simp_all add: open_at_def bc_unlock_def)

lemma keep_lock: "keep M (s\<lparr>bc_lk := Suc (bc_lk s)\<rparr>) s2 \<Longrightarrow> keep M s (bc_unlock s2)"
  by (simp add: keep_def) (simp add: bc_unlock_def)

lemma store_ok_lock [simp]: "store_ok (s\<lparr>bc_lk := n\<rparr>) = store_ok s"
  by (simp add: store_ok_def)

lemma store_ok_unlock [simp]: "store_ok (bc_unlock s) = store_ok s"
  by (simp add: bc_unlock_def)

lemma lk_rec [simp]:
  "rec_at (s\<lparr>bc_lk := n\<rparr>) = rec_at s" "nrec (s\<lparr>bc_lk := n\<rparr>) = nrec s" "live (s\<lparr>bc_lk := n\<rparr>) = live s"
  "rec_at (bc_unlock s) = rec_at s" "nrec (bc_unlock s) = nrec s" "live (bc_unlock s) = live s"
  "view_bytes (s\<lparr>bc_lk := n\<rparr>) = view_bytes s" "view_bytes (bc_unlock s) = view_bytes s"
  by (simp_all add: rec_at_def nrec_def live_def view_bytes_def fun_eq_iff)

text \<open>An operation on one map re-establishes the invariant if that map is in order again.\<close>

lemma store_ok_frame:
  assumes "store_ok s" "\<forall>t. t \<noteq> sl \<longrightarrow> get_map s' t = get_map s t \<and> vfile s' t = vfile s t"
    and "bc_inv s'" "os_faults s' = []"
    and "sl = IdxMap \<Longrightarrow> (m_fd (idx_map s') \<noteq> 0 \<longrightarrow> m_hdr (idx_map s')) \<and> 64 dvd vof s' IdxMap"
    and "sl = ArchMap \<Longrightarrow> (m_fd (arch_map s') \<noteq> 0 \<longrightarrow> m_hdr (arch_map s')) \<and> 64 dvd vof s' ArchMap"
    and "sl = TabMap \<Longrightarrow> (m_fd (tab_map s') \<noteq> 0 \<longrightarrow> m_hdr (tab_map s') \<and> 4194320 < vsize s' TabMap)
       \<and> vof s' TabMap = 0 \<and> vsize s' TabMap \<le> 10000000"
  shows "store_ok s'"
proof -
  have k: "get_map s' t = get_map s t \<and> vof s' t = vof s t \<and> vsize s' t = vsize s t" if "t \<noteq> sl" for t
    using assms(2) that by (simp add: vof_def vsize_def)
  show ?thesis
    using assms(1,3-) k [of IdxMap] k [of ArchMap] k [of TabMap]
    by (cases sl) (simp_all add: store_ok_def)
qed

section \<open>Opening a map in a store that is in order\<close>

lemma set_ext_ready:
  assumes "bc_inv s" "os_faults s = []" "valid_slot s sl" "m_fd (get_map s sl) = 0"
  shows "ready sl (set_ext sl (cext sl) s)" "vfile (set_ext sl (cext sl) s) = vfile s"
    "t \<noteq> sl \<Longrightarrow> get_map (set_ext sl (cext sl) s) t = get_map s t"
proof -
  let ?s = "set_ext sl (cext sl) s"
  show vf: "vfile ?s = vfile s"
    by (simp add: set_ext_def fun_eq_iff)
  show "t \<noteq> sl \<Longrightarrow> get_map ?s t = get_map s t" for t
    by (simp add: set_ext_def)
  have "map_ok ?s t" if "valid_slot s t" for t
  proof (cases "t = sl")
    case True
    have "\<not> m_hdr (get_map s sl)"
      using assms by (auto simp: bc_inv_def map_ok_def Let_def)
    with True show ?thesis
      using assms(3,4) by (simp add: map_ok_def set_ext_def)
  next
    case False
    then show ?thesis
      using assms(1) that by (simp add: bc_inv_def map_ok_def set_ext_def)
  qed
  then have "bc_inv ?s"
    using assms(1) vf by (simp add: bc_inv_def) (simp add: set_ext_def)
  then show "ready sl ?s"
    using assms by (simp add: ready_def set_ext_def)
qed

lemma vfile_view:
  assumes "vfile s' = vfile s"
  shows "vbytes s' = vbytes s" "vof s' = vof s" "vsize s' = vsize s" "alloc_size s' = alloc_size s"
    "room sl len s' = room sl len s"
  using assms by (simp_all add: vbytes_def vof_def vsize_def alloc_size_def room_def fun_eq_iff)

definition opened_post :: "bc_slot \<Rightarrow> nat \<Rightarrow> bc_state \<Rightarrow> bc_state \<Rightarrow> bool" where
  "opened_post sl len s s' \<longleftrightarrow> ready sl s' \<and> keep {sl} s s' \<and> m_fd (get_map s' sl) \<noteq> 0
     \<and> m_hdr (get_map s' sl) \<and> vbytes s' sl = vbytes s sl \<and> vof s' sl = vof s sl
     \<and> (\<forall>t. t \<noteq> sl \<longrightarrow> get_map s' t = get_map s t \<and> vfile s' t = vfile s t)
     \<and> vsize s' sl = (if m_fd (get_map s sl) \<noteq> 0 then vsize s sl else alloc_size s sl len)"

lemma slot_open_calm:
  assumes "bc_inv s" "os_faults s = []" "valid_slot s sl"
    and "m_fd (get_map s sl) \<noteq> 0 \<longrightarrow> m_hdr (get_map s sl)"
    and "m_fd (get_map s sl) = 0 \<longrightarrow> room sl len s"
  shows "wp (slot_open sl (cext sl) len s) (\<lambda>(e, s'). e = 0 \<and> opened_post sl len s s')"
proof (cases "m_fd (get_map s sl) = 0")
  case False
  have "map_ok s sl"
    using assms by (simp add: bc_inv_def)
  then have "ready sl s"
    using assms False by (simp add: ready_def map_ok_def Let_def)
  then show ?thesis
    using False assms by (simp add: slot_open_def opened_post_def)
next
  case True
  let ?s = "set_ext sl (cext sl) s"
  note e = set_ext_ready [OF assms(1-3) True]
  note v = vfile_view [OF e(2)]
  obtain s1 where o: "bc_map_open sl ?s = Ret (0, s1)" "open_post sl ?s s1"
    using bc_map_open_calm [OF e(1)] by (auto simp: wp_iff)
  have r1: "ready sl s1"
    by (rule open_post_ready [OF e(1) o(2)])
  have rm: "room sl len s1"
    using assms(5) True o(2) v by (simp add: open_post_def room_def)
  obtain s2 where a: "bc_map_alloc sl len s1 = Ret (0, s2)" "alloc_post sl len s1 s2"
    using bc_map_alloc_calm [OF r1 rm] by (auto simp: wp_iff)
  have ap: "alloc_post sl len ?s s2"
    by (rule open_alloc_post [OF o(2) a(2)])
  have "keep {sl} s s2"
  proof -
    have "open_at t s \<longrightarrow> open_at t ?s" for t
      using True by (cases "t = sl") (simp_all add: open_at_def set_ext_def)
    then show ?thesis
      using alloc_post_keep [OF e(1) ap] by (auto simp: keep_def v) (simp_all add: set_ext_def)
  qed
  moreover have "get_map s2 t = get_map s t \<and> vfile s2 t = vfile s t" if "t \<noteq> sl" for t
    using ap that e(2,3) by (simp add: alloc_post_def frame_def)
  ultimately have "opened_post sl len s s2"
    using ap v alloc_post_ready [OF e(1) ap] True by (simp add: opened_post_def alloc_post_def)
  then show ?thesis
    using True by (simp add: slot_open_def o(1) a(1))
qed

lemma records_fit:
  assumes "bc_inv s" "64 dvd vof s sl"
  shows "16 + vof s sl < vsize s sl" "alloc_size s sl 0 = vsize s sl" "room sl 0 s"
proof -
  have "16384 dvd vsize s sl"
    using assms(1) by (auto simp: vsize_def bc_inv_def wf_file_def split: option.splits)
  then have "64 dvd vsize s sl"
    by (rule dvd_trans [rotated]) simp
  then have "16 + vof s sl \<noteq> vsize s sl"
    using assms(2) dvd_imp_le [of 64 "16::nat"] by (auto simp: dvd_add_left_iff dest: sym)
  then show "16 + vof s sl < vsize s sl"
    using vof_le_vsize [OF assms(1), of sl] by simp
  then show "alloc_size s sl 0 = vsize s sl" "room sl 0 s"
    by (simp_all add: alloc_size_def room_def)
qed

lemma record_map_open:
  assumes "store_ok s" "sl = IdxMap \<or> sl = ArchMap"
  shows "wp (slot_open sl (cext sl) 0 s) (\<lambda>(e, s'). e = 0 \<and> store_ok s' \<and> keep {} s s' \<and> mapped sl s')"
proof -
  have b: "bc_inv s" "os_faults s = []" "valid_slot s sl" "64 dvd vof s sl"
    "m_fd (get_map s sl) \<noteq> 0 \<longrightarrow> m_hdr (get_map s sl)"
    using assms by (auto simp: store_ok_def)
  note f = records_fit [OF b(1,4)]
  have "store_ok s' \<and> keep {} s s' \<and> mapped sl s'" if p: "opened_post sl 0 s s'" for s'
  proof -
    have o: "ready sl s'" "keep {sl} s s'" "m_fd (get_map s' sl) \<noteq> 0" "m_hdr (get_map s' sl)"
      "vbytes s' sl = vbytes s sl" "vof s' sl = vof s sl" "vsize s' sl = vsize s sl"
      "\<forall>t. t \<noteq> sl \<longrightarrow> get_map s' t = get_map s t \<and> vfile s' t = vfile s t"
      using p f(2) by (simp_all add: opened_post_def)
    have "store_ok s'"
      by (rule store_ok_frame [OF assms(1) o(8)])
        (use o assms(2) b(4) readyD(1,2) [OF o(1)] in auto)
    moreover have "keep {} s s'"
      using o(2,5-7) by (auto simp: keep_def)
    ultimately show ?thesis
      using o by simp
  qed
  then show ?thesis
    using slot_open_calm [OF b(1-3,5), of 0] f(3) by (auto simp: wp_iff)
qed

lemma table_map_open:
  assumes "store_ok s"
  shows "wp (slot_open TabMap ''tmp'' 4194304 s) (\<lambda>(e, s'). e = 0 \<and> store_ok s' \<and> keep {TabMap} s s'
     \<and> mapped TabMap s' \<and> vbytes s' TabMap = vbytes s TabMap)"
proof -
  have b: "bc_inv s" "os_faults s = []" "valid_slot s TabMap" "vof s TabMap = 0"
    "m_fd (get_map s TabMap) \<noteq> 0 \<longrightarrow> m_hdr (get_map s TabMap)" "vsize s TabMap \<le> 10000000"
    "m_fd (get_map s TabMap) \<noteq> 0 \<longrightarrow> 4194320 < vsize s TabMap"
    using assms by (auto simp: store_ok_def)
  have r: "room TabMap 4194304 s"
    using b(6) by (simp add: room_def)
  have "4194320 < alloc_size s TabMap 4194304 \<and> alloc_size s TabMap 4194304 \<le> 10000000"
  proof (cases "4194320 < vsize s TabMap")
    case True
    then show ?thesis
      using b(4,6) by (simp add: alloc_size_def)
  next
    case False
    then show ?thesis
      using alloc_size_fits [OF b(1) r] b(4) by simp
  qed
  note g = this
  have "store_ok s' \<and> keep {TabMap} s s' \<and> mapped TabMap s' \<and> vbytes s' TabMap = vbytes s TabMap"
    if p: "opened_post TabMap 4194304 s s'" for s'
  proof -
    have o: "ready TabMap s'" "keep {TabMap} s s'" "m_fd (get_map s' TabMap) \<noteq> 0"
      "m_hdr (get_map s' TabMap)" "vbytes s' TabMap = vbytes s TabMap" "vof s' TabMap = vof s TabMap"
      "4194320 < vsize s' TabMap \<and> vsize s' TabMap \<le> 10000000"
      "\<forall>t. t \<noteq> TabMap \<longrightarrow> get_map s' t = get_map s t \<and> vfile s' t = vfile s t"
      using p g b(6,7) by (auto simp: opened_post_def split: if_splits)
    have "store_ok s'"
      by (rule store_ok_frame [OF assms o(8)]) (use o b(4) readyD(1,2) [OF o(1)] in auto)
    then show ?thesis
      using o by simp
  qed
  then show ?thesis
    using slot_open_calm [OF b(1-3,5), of 4194304] r by (auto simp: wp_iff)
qed

lemma store_ok_calm: "store_ok s \<Longrightarrow> os_faults s = []"
  by (simp add: store_ok_def)

lemma poke_store_ok:
  assumes "store_ok s" "poke_post sl s s'" "sl = IdxMap \<or> sl = ArchMap \<or> sl = TabMap"
    "vof s' sl = vof s sl"
  shows "store_ok s'"
  by (rule store_ok_frame [OF assms(1), of sl])
    (use assms readyD(1,2) in \<open>auto simp: poke_post_def frame_def store_ok_def\<close>)

lemma mapped_m_size: "mapped sl s \<Longrightarrow> m_size (get_map s sl) = vsize s sl"
  by (auto elim!: mapped_size)

section \<open>Capacity\<close>

text \<open>
  \<open>cap sl n s\<close>: the map \<open>sl\<close> is below 3 GB and can take \<open>n\<close> more bytes without its content
  passing 2 GB. Within that bound the 32 bit size arithmetic never wraps.
\<close>

definition cap :: "bc_slot \<Rightarrow> nat \<Rightarrow> bc_state \<Rightarrow> bool" where
  "cap sl n s \<longleftrightarrow> vsize s sl \<le> 3000000000 \<and> vof s sl + n \<le> 2000000000 \<and> n \<le> 500000000"

lemma cap_mono: "cap sl n s \<Longrightarrow> m \<le> n \<Longrightarrow> cap sl m s"
  by (simp add: cap_def)

lemma cap_alloc:
  assumes "bc_inv s" "cap sl n s"
  shows "room sl n s" "alloc_size s sl n \<le> 3000000000"
proof -
  show r: "room sl n s"
    using assms(2) by (simp add: cap_def room_def)
  show "alloc_size s sl n \<le> 3000000000"
  proof (cases "16 + vof s sl + n < vsize s sl")
    case True
    then show ?thesis
      using assms(2) by (simp add: alloc_size_def cap_def)
  next
    case False
    then have l: "vsize s sl + n \<le> 2500000016"
      using assms(2) by (simp add: cap_def)
    show ?thesis
      using alloc_size_fits(3) [OF assms(1) r] l div_le_mono [OF l, of 10] by simp
  qed
qed

lemma cap_keep: "keep M s s' \<Longrightarrow> sl \<notin> M \<Longrightarrow> cap sl n s' = cap sl n s"
  by (simp add: keep_def cap_def)

lemma cap_lock [simp]: "cap sl n (s\<lparr>bc_lk := k\<rparr>) = cap sl n s" "cap sl n (bc_unlock s) = cap sl n s"
  by (simp_all add: cap_def)

section \<open>Reading and writing records\<close>

lemma rec_read_calm:
  assumes "mapped sl s" "i < nrec s sl"
  shows "idx_size_at s sl i = Ret (ix_size (rec_at s sl i))"
    "idx_hash_at s sl i = Ret (ix_hash (rec_at s sl i))"
    "idx_at s sl i = Ret (rec_at s sl i)"
proof -
  have "64 * i + 64 \<le> vof s sl"
    using assms(2) unfolding nrec_def by linarith
  then have "16 + 64 * i + 64 \<le> vsize s sl"
    using vof_le_vsize [OF readyD(1), of sl s sl] assms(1) by simp
  then show "idx_size_at s sl i = Ret (ix_size (rec_at s sl i))"
    "idx_hash_at s sl i = Ret (ix_hash (rec_at s sl i))"
    "idx_at s sl i = Ret (rec_at s sl i)"
    using assms(1)
    by (simp_all add: idx_size_at_def idx_hash_at_def idx_at_def raw_read_calm rec_at_fields)
      (simp add: rec_at_def)
qed

lemma rec_write_view:
  assumes "idx_wf x" "vbytes s' sl = put_bytes (vbytes s sl) (64 * pos) (idx_bytes x)"
  shows "rec_at s' sl = (rec_at s sl)(pos := x)"
proof -
  have "view_bytes s' sl (64 * pos) 64 = idx_bytes x"
    using assms by (intro nth_equalityI) (simp_all add: view_bytes_def put_bytes_def)
  moreover have "view_bytes s' sl (64 * k) 64 = view_bytes s sl (64 * k) 64" if "k \<noteq> pos" for k
    using that assms by (intro nth_equalityI) (auto simp: view_bytes_def put_bytes_def)
  ultimately show ?thesis
    using assms(1) by (simp add: rec_at_def fun_eq_iff idx_of_idx_bytes)
qed

lemma write_post_store_ok:
  assumes "store_ok s" "write_post sl off bs s s'" "sl = IdxMap \<or> sl = ArchMap" "64 dvd off + length bs"
  shows "store_ok s'"
proof -
  have "64 dvd vof s' sl"
    using assms by (auto simp: write_post_def store_ok_def max_def)
  then show ?thesis
    by (intro store_ok_frame [OF assms(1), of sl])
      (use assms readyD(1,2) in \<open>auto simp: write_post_def frame_def\<close>)
qed

lemma rec_write_calm:
  assumes "store_ok s" "mapped sl s" "sl = IdxMap \<or> sl = ArchMap" "cap sl 64 s" "idx_wf x"
    "pos \<le> nrec s sl"
  shows "wp (bc_map_write sl (64 * pos) (idx_bytes x) s) (\<lambda>(e, s'). e = 0 \<and> store_ok s' \<and> mapped sl s'
     \<and> keep {sl} s s' \<and> rec_at s' sl = (rec_at s sl)(pos := x) \<and> nrec s' sl = max (nrec s sl) (Suc pos)
     \<and> vsize s' sl \<le> 3000000000 \<and> vof s' sl = max (vof s sl) (64 * pos + 64))"
proof -
  have len: "length (idx_bytes x) = 64"
    using assms(5) by simp
  have "bc_inv s"
    using assms(1) by (simp add: store_ok_def)
  note c = cap_alloc [OF this assms(4)]
  have "64 * pos \<le> vof s sl"
    using assms(6) unfolding nrec_def by linarith
  then obtain s' where w: "bc_map_write sl (64 * pos) (idx_bytes x) s = Ret (0, s')"
    "write_post sl (64 * pos) (idx_bytes x) s s'"
    using bc_map_write_calm [of sl s "idx_bytes x" "64 * pos"] assms(2) c(1) len by (auto simp: wp_iff)
  have "vof s' sl = max (vof s sl) (64 * Suc pos)"
    using w(2) len by (simp add: write_post_def)
  then have "nrec s' sl = max (nrec s sl) (Suc pos)"
    by (simp add: nrec_def max_def) linarith
  then show ?thesis
    using w c(2) write_post_store_ok [OF assms(1) w(2) assms(3)] len
      rec_write_view [OF assms(5), of s' sl s pos]
    using write_post_keep [OF w(2)] by (auto simp: write_post_def)
qed

lemma rec_alloc_calm:
  assumes "store_ok s" "mapped sl s" "sl = IdxMap \<or> sl = ArchMap" "cap sl n s"
  shows "wp (bc_map_alloc sl n s) (\<lambda>(e, s'). e = 0 \<and> store_ok s' \<and> mapped sl s' \<and> keep {sl} s s'
     \<and> rec_at s' sl = rec_at s sl \<and> nrec s' sl = nrec s sl \<and> vof s' sl = vof s sl
     \<and> vsize s' sl \<le> 3000000000)"
proof -
  have inv: "bc_inv s"
    using assms(1) by (simp add: store_ok_def)
  note c = cap_alloc [OF inv assms(4)]
  obtain s' where a: "bc_map_alloc sl n s = Ret (0, s')" "alloc_post sl n s s'"
    using bc_map_alloc_calm [OF _ c(1)] assms(2) by (auto simp: wp_iff)
  have r: "ready sl s'"
    using alloc_post_ready [OF _ a(2)] assms(2) by simp
  have "store_ok s'"
    by (rule store_ok_frame [OF assms(1), of sl])
      (use a(2) assms readyD(1,2) [OF r] in \<open>auto simp: alloc_post_def frame_def store_ok_def\<close>)
  then show ?thesis
    using a r c(2) alloc_post_keep [of sl s n s'] assms(2)
    by (auto simp: alloc_post_def rec_at_def nrec_def view_bytes_def)
qed

text \<open>The step of the set functions that makes room for a record at \<open>pos\<close>.\<close>

lemma rec_room_calm:
  assumes "store_ok s" "mapped sl s" "sl = IdxMap \<or> sl = ArchMap" "cap sl 64 s" "pos \<le> nrec s sl"
  shows "wp (if pos \<ge> vof s sl div 64 \<and> 64 * pos + 64 > m_size (get_map s sl)
             then bc_map_alloc sl (u32_of_int (int (64 * pos + 64) - int (m_size (get_map s sl)))) s
             else Ret (0, s))
    (\<lambda>(e, s'). e = 0 \<and> store_ok s' \<and> mapped sl s' \<and> keep {sl} s s'
     \<and> rec_at s' sl = rec_at s sl \<and> nrec s' sl = nrec s sl \<and> cap sl 64 s' \<and> vof s' sl = vof s sl)"
proof (cases "64 * pos + 64 > vsize s sl")
  case True
  let ?n = "u32_of_int (int (64 * pos + 64) - int (vsize s sl))"
  have "64 * pos \<le> vof s sl"
    using assms(5) unfolding nrec_def by linarith
  then have "?n \<le> 64"
    using True vof_le_vsize [OF readyD(1), of sl s sl] assms(2) by (simp add: u32_of_int_def nat_mono)
  then have "cap sl ?n s"
    by (rule cap_mono [OF assms(4)])
  from rec_alloc_calm [OF assms(1-3) this] show ?thesis
    using assms mapped_m_size [OF assms(2)] by (auto simp: cap_def elim!: wp_mono)
next
  case False
  then show ?thesis
    using assms mapped_m_size [OF assms(2)] by simp
qed

lemma pos_u32:
  assumes "cap sl 64 s" "pos \<le> nrec s sl"
  shows "u32 (pos * 64) = 64 * pos"
proof -
  have "64 * pos \<le> vof s sl"
    using assms(2) unfolding nrec_def by linarith
  then show ?thesis
    using assms(1) by (simp add: cap_def mult.commute)
qed


text \<open>\<open>put_post\<close>: what making room and writing the record achieve together.\<close>

definition put_post :: "bc_slot \<Rightarrow> nat \<Rightarrow> bc_idx \<Rightarrow> bc_state \<Rightarrow> bc_state \<Rightarrow> bool" where
  "put_post sl pos x s s' \<longleftrightarrow> store_ok s' \<and> mapped sl s' \<and> keep {sl} s s'
     \<and> rec_at s' sl = (rec_at s sl)(pos := x) \<and> nrec s' sl = max (nrec s sl) (Suc pos)
     \<and> vsize s' sl \<le> 3000000000 \<and> vof s' sl = max (vof s sl) (64 * pos + 64)"

lemma rec_put_calm:
  assumes "store_ok s" "mapped sl s" "sl = IdxMap \<or> sl = ArchMap" "cap sl 64 s" "idx_wf x"
    "pos \<le> nrec s sl"
    and k: "\<And>s'. put_post sl pos x s s' \<Longrightarrow> wp (k (0, s')) Q"
  shows "wp (andThen (if pos \<ge> vof s sl div 64 \<and> 64 * pos + 64 > m_size (get_map s sl)
             then bc_map_alloc sl (u32_of_int (int (64 * pos + 64) - int (m_size (get_map s sl)))) s
             else Ret (0, s))
      (\<lambda>(err, s1). if err \<noteq> 0 then Ret (err, s1)
         else andThen (bc_map_write sl (64 * pos) (idx_bytes x) s1) k)) Q"
proof -
  obtain s1 where a: "(if pos \<ge> vof s sl div 64 \<and> 64 * pos + 64 > m_size (get_map s sl)
             then bc_map_alloc sl (u32_of_int (int (64 * pos + 64) - int (m_size (get_map s sl)))) s
             else Ret (0, s)) = Ret (0, s1)"
    "store_ok s1" "mapped sl s1" "keep {sl} s s1" "rec_at s1 sl = rec_at s sl"
    "nrec s1 sl = nrec s sl" "cap sl 64 s1" "vof s1 sl = vof s sl"
    using rec_room_calm [OF assms(1-4,6)] by (auto simp: wp_iff)
  obtain s2 where w: "bc_map_write sl (64 * pos) (idx_bytes x) s1 = Ret (0, s2)"
    "store_ok s2" "mapped sl s2" "keep {sl} s1 s2" "rec_at s2 sl = (rec_at s sl)(pos := x)"
    "nrec s2 sl = max (nrec s sl) (Suc pos)" "vsize s2 sl \<le> 3000000000"
    "vof s2 sl = max (vof s sl) (64 * pos + 64)"
    using rec_write_calm [OF a(2,3) assms(3) a(7) assms(5), of pos] assms(6) a(5,6,8)
    by (auto simp: wp_iff)
  have "keep {sl} s s2"
    by (rule keep_trans [OF a(4) w(4)]) auto
  then have "put_post sl pos x s s2"
    using w by (simp add: put_post_def)
  then show ?thesis
    by (simp add: a(1) w(1) k)
qed

text \<open>The specification of a search: the highest filled position below \<open>n\<close> with the hash.\<close>

fun last_match :: "bc_state \<Rightarrow> bc_slot \<Rightarrow> bc_hash \<Rightarrow> nat \<Rightarrow> nat option" where
  "last_match s sl hash 0 = None"
| "last_match s sl hash (Suc i) =
     (if ix_size (rec_at s sl i) \<noteq> 0 \<and> bc_hash_cmp hash (ix_hash (rec_at s sl i)) then Some i
      else last_match s sl hash i)"

lemma last_match_SomeD:
  "last_match s sl hash n = Some p \<Longrightarrow> p < n \<and> ix_size (rec_at s sl p) \<noteq> 0
     \<and> bc_hash_cmp hash (ix_hash (rec_at s sl p))"
  by (induction n) (auto split: if_splits)

lemma last_match_cut:
  "n \<le> m \<Longrightarrow> (\<And>j. n \<le> j \<Longrightarrow> j < m \<Longrightarrow> ix_size (rec_at s sl j) \<noteq> 0 \<Longrightarrow>
     \<not> bc_hash_cmp hash (ix_hash (rec_at s sl j))) \<Longrightarrow> last_match s sl hash m = last_match s sl hash n"
  by (induction m) (auto simp: le_Suc_eq)

lemma nrec_lt: "nrec s sl < 67108864"
proof -
  have "vof s sl < 4294967296"
    by (simp add: vof_def split: option.splits)
  then show ?thesis
    unfolding nrec_def by linarith
qed

lemma put_post_lock:
  "put_post sl pos x (s\<lparr>bc_lk := Suc (bc_lk s)\<rparr>) s2 \<Longrightarrow> put_post sl pos x s (bc_unlock s2)"
  by (simp add: put_post_def keep_lock)

lemma put_post_keep:
  assumes "keep {} s s1" "put_post sl pos x s1 s'"
  shows "put_post sl pos x s s'"
proof -
  have "keep {sl} s s'"
    using assms by (intro keep_trans [OF assms(1), of "{sl}"]) (auto simp: put_post_def)
  then show ?thesis
    using assms(2) keep_rec [OF assms(1), of sl] keepD [OF assms(1), of sl] by (simp add: put_post_def)
qed

section \<open>The contract of a record map\<close>

text \<open>
  The index and the archive promise the same of their get, next and set: \<open>record_store\<close>.
  A record can be set at the end or at a position that is not filled in.
\<close>

locale record_store =
  fixes sl :: bc_slot
    and rget :: "bool \<Rightarrow> nat \<Rightarrow> bc_state \<Rightarrow> ((int \<times> bc_idx) \<times> bc_state) res"
    and rset :: "nat \<Rightarrow> bc_idx \<Rightarrow> bc_state \<Rightarrow> (int \<times> bc_state) res"
    and rnext :: "bc_state \<Rightarrow> ((int \<times> nat) \<times> bc_state) res"
  assumes get_law: "store_ok s \<Longrightarrow> wp (rget w pos s) (\<lambda>((e, x), s'). store_ok s' \<and> keep {} s s' \<and>
        (if live s sl pos then e = 0 \<and> (w \<longrightarrow> x = rec_at s sl pos) else e = ERR_NOENT))"
    and next_law: "store_ok s \<Longrightarrow> wp (rnext s) (\<lambda>((e, n), s'). store_ok s' \<and> keep {} s s' \<and>
        e = 0 \<and> n = nrec s sl)"
    and set_law: "store_ok s \<Longrightarrow> cap sl 64 s \<Longrightarrow> idx_wf x \<Longrightarrow> pos \<le> nrec s sl \<Longrightarrow>
        wp (rset pos x s) (\<lambda>(e, s'). store_ok s' \<and>
          (if live s sl pos then e = ERR_EXIST \<and> keep {} s s'
           else e = 0 \<and> keep {sl, TabMap} s s' \<and> rec_at s' sl = (rec_at s sl)(pos := x)
              \<and> nrec s' sl = max (nrec s sl) (Suc pos)))"
begin

lemma set_get:
  assumes "store_ok s" "cap sl 64 s" "idx_wf x" "ix_size x \<noteq> 0" "pos \<le> nrec s sl" "\<not> live s sl pos"
  shows "wp (andThen (rset pos x s) (\<lambda>(e, s1). rget True q s1))
    (\<lambda>((e, y), s'). if q = pos then e = 0 \<and> y = x
        else if live s sl q then e = 0 \<and> y = rec_at s sl q else e = ERR_NOENT)"
proof -
  obtain s1 where s1: "rset pos x s = Ret (0, s1)" "store_ok s1"
    "rec_at s1 sl = (rec_at s sl)(pos := x)" "nrec s1 sl = max (nrec s sl) (Suc pos)"
    using set_law [OF assms(1-3,5)] assms(6) by (auto simp: wp_iff)
  have "live s1 sl q = (q = pos \<or> live s sl q)"
    using s1(3,4) assms(4,5) by (auto simp: live_def)
  then have "wp (rget True q s1) (\<lambda>((e, y), s'). if q = pos then e = 0 \<and> y = x
        else if live s sl q then e = 0 \<and> y = rec_at s sl q else e = ERR_NOENT)"
    using get_law [OF s1(2), of True q] s1(3) by (auto elim!: wp_mono split: if_splits)
  then show ?thesis
    by (simp add: s1(1))
qed

lemma add_get:
  assumes "store_ok s" "cap sl 64 s" "idx_wf x" "ix_size x \<noteq> 0"
  shows "wp (andThen (rnext s) (\<lambda>((e, n), s1). andThen (rset n x s1) (\<lambda>(e, s2). rget True n s2)))
    (\<lambda>((e, y), s'). e = 0 \<and> y = x)"
proof -
  obtain s1 where s1: "rnext s = Ret ((0, nrec s sl), s1)" "store_ok s1" "keep {} s s1"
    using next_law [OF assms(1)] by (auto simp: wp_iff)
  have "cap sl 64 s1" "nrec s1 sl = nrec s sl" "\<not> live s1 sl (nrec s sl)"
    using assms(2) cap_keep [OF s1(3)] keep_rec [OF s1(3), of sl] by (simp_all add: live_def)
  then show ?thesis
    using set_get [OF s1(2) _ assms(3,4), of "nrec s sl" "nrec s sl"] by (simp add: s1(1))
qed

end

end
