(* ===== verification/Bc_Table.thy ===== *)
theory Bc_Table
  imports Bc_Store
begin

text \<open>
  The hash table of a store (blockchain/bc_table.h, bc_table.c): a file of 1048576 32 bit
  entries that remembers, per table slot, the highest index position a record with such a hash
  may have, that there is none, or that the index has to be searched.
\<close>

section \<open>The operations of bc\_table.c\<close>

abbreviation BC_TABLE_SIZE :: nat where "BC_TABLE_SIZE \<equiv> 1048576"
abbreviation BC_TABLE_POS_MASK :: nat where "BC_TABLE_POS_MASK \<equiv> 4294967280"
abbreviation BC_TABLE_NULL_POS :: nat where "BC_TABLE_NULL_POS \<equiv> 4294967281"
abbreviation BC_TABLE_SEARCH_POS :: nat where "BC_TABLE_SEARCH_POS \<equiv> 0"

definition hash_word :: "bc_hash \<Rightarrow> nat \<Rightarrow> nat" where
  "hash_word hash i = ld32 (take 4 (drop (4 * i) hash))"

definition bc_table_hash :: "bc_hash \<Rightarrow> nat" where
  "bc_table_hash hash = fold (\<lambda>i val. u32 (val + hash_word hash i)) [0..<8] 0 mod BC_TABLE_SIZE"

definition s_bc_table_open :: "bc_state \<Rightarrow> (int \<times> bc_state) res" where
  "s_bc_table_open = slot_open TabMap ''tmp'' (BC_TABLE_SIZE * 4)"

definition bc_table_open :: "bc_state \<Rightarrow> (int \<times> bc_state) res" where
  "bc_table_open = locked ERR_NOLCK s_bc_table_open"

text \<open>\<open>bc_table_pos\<close> yields the address of an entry (here its offset), or NULL.\<close>

definition bc_table_pos :: "bc_hash \<Rightarrow> bc_state \<Rightarrow> nat option" where
  "bc_table_pos hash s = (if m_hdr (tab_map s) then Some (4 * bc_table_hash hash) else None)"

text \<open>\<open>ret\<close> is what the caller's \<open>*ret_pos\<close> holds before the call.\<close>

definition s_bc_table_get :: "bc_hash \<Rightarrow> nat \<Rightarrow> bc_state \<Rightarrow> ((int \<times> nat) \<times> bc_state) res" where
  "s_bc_table_get hash ret s =
     andThen (bc_table_open s) (\<lambda>(err, s1).
     if err \<noteq> 0 then Ret ((err, ret), s1)
     else (case bc_table_pos hash s1 of
         None \<Rightarrow> Ret ((ERR_INVAL, BC_TABLE_NULL_POS), s1)
       | Some off \<Rightarrow> andThen (raw_read s1 TabMap off 4) (\<lambda>bs.
           if ld32 bs = BC_TABLE_SEARCH_POS then Ret ((ERR_SRCH, BC_TABLE_NULL_POS), s1)
           else if ld32 bs = BC_TABLE_NULL_POS then Ret ((ERR_NOENT, BC_TABLE_NULL_POS), s1)
           else Ret ((0, ld32 bs), s1))))"

definition bc_table_get :: "bc_hash \<Rightarrow> nat \<Rightarrow> bc_state \<Rightarrow> ((int \<times> nat) \<times> bc_state) res" where
  "bc_table_get hash ret = locked (ERR_NOLCK, ret) (s_bc_table_get hash ret)"

definition s_bc_table_set :: "bc_hash \<Rightarrow> nat \<Rightarrow> bc_state \<Rightarrow> (int \<times> bc_state) res" where
  "s_bc_table_set hash pos s =
     (if pos \<ge> BC_TABLE_POS_MASK then Ret (ERR_INVAL, s)
      else andThen (bc_table_open s) (\<lambda>(err, s1).
        if err \<noteq> 0 then Ret (err, s1)
        else (case bc_table_pos hash s1 of
            None \<Rightarrow> Ret (ERR_INVAL, s1)
          | Some off \<Rightarrow> andThen (raw_read s1 TabMap off 4) (\<lambda>bs.
              if ld32 bs < pos \<or> ld32 bs \<ge> BC_TABLE_POS_MASK
              then andThen (raw_write TabMap off (le32 pos) s1) (\<lambda>s2. Ret (0, s2))
              else Ret (0, s1)))))"

definition bc_table_set :: "bc_hash \<Rightarrow> nat \<Rightarrow> bc_state \<Rightarrow> (int \<times> bc_state) res" where
  "bc_table_set hash pos = locked ERR_NOLCK (s_bc_table_set hash pos)"

definition s_bc_table_unset :: "bc_hash \<Rightarrow> bc_state \<Rightarrow> (int \<times> bc_state) res" where
  "s_bc_table_unset hash s =
     andThen (bc_table_open s) (\<lambda>(err, s1).
     if err \<noteq> 0 then Ret (err, s1)
     else (case bc_table_pos hash s1 of
         None \<Rightarrow> Ret (ERR_INVAL, s1)
       | Some off \<Rightarrow> andThen (raw_write TabMap off (le32 BC_TABLE_NULL_POS) s1) (\<lambda>s2. Ret (0, s2))))"

definition bc_table_unset :: "bc_hash \<Rightarrow> bc_state \<Rightarrow> (int \<times> bc_state) res" where
  "bc_table_unset hash = locked ERR_NOLCK (s_bc_table_unset hash)"

definition s_bc_table_reset :: "bc_hash \<Rightarrow> bc_state \<Rightarrow> (int \<times> bc_state) res" where
  "s_bc_table_reset hash s =
     andThen (bc_table_open s) (\<lambda>(err, s1).
     if err \<noteq> 0 then Ret (err, s1)
     else (case bc_table_pos hash s1 of
         None \<Rightarrow> Ret (ERR_INVAL, s1)
       | Some off \<Rightarrow> andThen (raw_write TabMap off (le32 BC_TABLE_SEARCH_POS) s1) (\<lambda>s2. Ret (0, s2))))"

definition bc_table_reset :: "bc_hash \<Rightarrow> bc_state \<Rightarrow> (int \<times> bc_state) res" where
  "bc_table_reset hash = locked ERR_NOLCK (s_bc_table_reset hash)"

definition bc_table_close :: "bc_state \<Rightarrow> bc_state res" where
  "bc_table_close = slot_close TabMap"

text \<open>A null \<open>raw\<close> pointer makes the memset of \<open>_bc_table_clear\<close> crash.\<close>

definition s_bc_table_clear :: "bc_state \<Rightarrow> (int \<times> bc_state) res" where
  "s_bc_table_clear s =
     andThen (bc_table_open s) (\<lambda>(err, s1).
     if err \<noteq> 0 then Ret (err, s1)
     else andThen (raw_write TabMap 0 (replicate (m_size (tab_map s1) - BC_HDR_SIZE) 0) s1)
            (\<lambda>s2. Ret (0, s2)))"

definition bc_table_clear :: "bc_state \<Rightarrow> (int \<times> bc_state) res" where
  "bc_table_clear = locked ERR_NOLCK s_bc_table_clear"

section \<open>The table as a function\<close>

definition tab_entry :: "bc_state \<Rightarrow> nat \<Rightarrow> nat" where
  "tab_entry s h = ld32 (view_bytes s TabMap (4 * h) 4)"

text \<open>What a lookup reports for an entry, and what setting a position makes of it.\<close>

definition entry_lookup :: "nat \<Rightarrow> int \<times> nat" where
  "entry_lookup t =
     (if t = BC_TABLE_SEARCH_POS then (ERR_SRCH, BC_TABLE_NULL_POS)
      else if t = BC_TABLE_NULL_POS then (ERR_NOENT, BC_TABLE_NULL_POS) else (0, t))"

definition entry_raise :: "nat \<Rightarrow> nat \<Rightarrow> nat" where
  "entry_raise t pos = (if t < pos \<or> t \<ge> BC_TABLE_POS_MASK then pos else t)"

lemma bc_table_hash_lt: "bc_table_hash hash < BC_TABLE_SIZE"
  unfolding bc_table_hash_def by (rule mod_less_divisor) simp

section \<open>What the operations do in a store that is in order\<close>

lemma table_open_calm:
  assumes "store_ok s"
  shows "wp (bc_table_open s) (\<lambda>(e, s'). e = 0 \<and> store_ok s' \<and> keep {TabMap} s s'
     \<and> mapped TabMap s' \<and> vbytes s' TabMap = vbytes s TabMap)"
proof -
  have eq: "s_bc_table_open = slot_open TabMap ''tmp'' 4194304"
    by (simp add: s_bc_table_open_def)
  show ?thesis
    unfolding bc_table_open_def eq
    by (rule locked_lift [where f = "slot_open TabMap ''tmp'' 4194304", OF table_map_open])
      (use assms in \<open>auto simp: store_ok_calm keep_lock\<close>)
qed

lemma tab_entry_cong: "vbytes s' TabMap = vbytes s TabMap \<Longrightarrow> tab_entry s' = tab_entry s"
  by (simp add: tab_entry_def view_bytes_def fun_eq_iff)

lemma ld32_view_put:
  assumes "length bs = 4"
  shows "vbytes s' TabMap = put_bytes (vbytes s TabMap) (4 * h) bs \<Longrightarrow>
     tab_entry s' = (tab_entry s)(h := ld32 bs)"
proof -
  assume v: "vbytes s' TabMap = put_bytes (vbytes s TabMap) (4 * h) bs"
  have "view_bytes s' TabMap (4 * h) 4 = bs"
    by (rule nth_equalityI) (simp_all add: view_bytes_def v put_bytes_def assms)
  moreover have "view_bytes s' TabMap (4 * k) 4 = view_bytes s TabMap (4 * k) 4" if "k \<noteq> h" for k
    using that by (intro nth_equalityI) (auto simp: view_bytes_def v put_bytes_def assms)
  ultimately show ?thesis
    by (simp add: tab_entry_def fun_eq_iff)
qed

lemma tab_read_calm:
  assumes "store_ok s" "mapped TabMap s"
  shows "bc_table_pos hash s = Some (4 * bc_table_hash hash)"
    "raw_read s TabMap (4 * bc_table_hash hash) 4 = Ret (view_bytes s TabMap (4 * bc_table_hash hash) 4)"
proof -
  show "bc_table_pos hash s = Some (4 * bc_table_hash hash)"
    using assms(2) by (simp add: bc_table_pos_def)
  have "4194320 < vsize s TabMap"
    using assms by (simp add: store_ok_def)
  then show "raw_read s TabMap (4 * bc_table_hash hash) 4 = Ret (view_bytes s TabMap (4 * bc_table_hash hash) 4)"
    using assms(2) bc_table_hash_lt [of hash] by (intro raw_read_calm) auto
qed

lemma tab_write_calm:
  assumes "store_ok s" "mapped TabMap s"
  shows "wp (raw_write TabMap (4 * bc_table_hash hash) (le32 v) s) (\<lambda>s'. store_ok s' \<and> keep {TabMap} s s'
     \<and> tab_entry s' = (tab_entry s)(bc_table_hash hash := u32 v))"
proof -
  have "4194320 < vsize s TabMap"
    using assms by (simp add: store_ok_def)
  then have "16 + 4 * bc_table_hash hash + length (le32 v) \<le> vsize s TabMap"
    using bc_table_hash_lt [of hash] by simp
  from raw_write_calm [OF _ _ _ this] assms(2)
  obtain s' where w: "raw_write TabMap (4 * bc_table_hash hash) (le32 v) s = Ret s'" "poke_post TabMap s s'"
    "vbytes s' TabMap = put_bytes (vbytes s TabMap) (4 * bc_table_hash hash) (le32 v)"
    "vof s' TabMap = vof s TabMap"
    by (auto simp: wp_iff)
  have "keep {TabMap} s s'"
    using w(2) by (rule poke_post_keep)
  then show ?thesis
    using w(1) poke_store_ok [OF assms(1) w(2) _ w(4)] ld32_view_put [OF _ w(3)] by simp
qed

lemma tab_entry_lock [simp]: "tab_entry (s\<lparr>bc_lk := n\<rparr>) = tab_entry s" "tab_entry (bc_unlock s) = tab_entry s"
  by (simp_all add: tab_entry_def fun_eq_iff)

lemma tab_update_calm:
  assumes "store_ok s"
    and "\<And>s1. mapped TabMap s1 \<Longrightarrow> f s1 = andThen (raw_write TabMap (4 * bc_table_hash hash) (le32 v) s1) (\<lambda>s2. Ret (0, s2))"
  shows "wp (locked ERR_NOLCK (\<lambda>s. andThen (bc_table_open s) (\<lambda>(err, s1). if err \<noteq> 0 then Ret (err, s1) else f s1)) s)
     (\<lambda>(e, s'). e = 0 \<and> store_ok s' \<and> keep {TabMap} s s' \<and> tab_entry s' = (tab_entry s)(bc_table_hash hash := u32 v))"
proof -
  let ?s = "s\<lparr>bc_lk := Suc (bc_lk s)\<rparr>"
  have ok: "store_ok ?s"
    using assms(1) by simp
  obtain s1 where o: "bc_table_open ?s = Ret (0, s1)" "store_ok s1" "keep {TabMap} ?s s1"
    "mapped TabMap s1" "tab_entry s1 = tab_entry s"
    using table_open_calm [OF ok] by (auto simp: wp_iff dest: tab_entry_cong)
  obtain s2 where w: "raw_write TabMap (4 * bc_table_hash hash) (le32 v) s1 = Ret s2" "store_ok s2"
    "keep {TabMap} s1 s2" "tab_entry s2 = (tab_entry s1)(bc_table_hash hash := u32 v)"
    using tab_write_calm [OF o(2,4)] by (auto simp: wp_iff)
  have "keep {TabMap} ?s s2"
    by (rule keep_trans [OF o(3) w(3)]) auto
  then show ?thesis
    using w o assms(2) [OF o(4)] store_ok_calm [OF assms(1)]
    by (simp add: locked_calm keep_lock)
qed

lemma bc_table_get_calm:
  assumes "store_ok s"
  shows "wp (bc_table_get hash ret s) (\<lambda>(r, s'). store_ok s' \<and> keep {TabMap} s s'
     \<and> tab_entry s' = tab_entry s \<and> r = entry_lookup (tab_entry s (bc_table_hash hash)))"
proof -
  let ?s = "s\<lparr>bc_lk := Suc (bc_lk s)\<rparr>"
  obtain s1 where o: "bc_table_open ?s = Ret (0, s1)" "store_ok s1" "keep {TabMap} ?s s1"
    "mapped TabMap s1" "tab_entry s1 = tab_entry s"
    using table_open_calm [of ?s] assms by (auto simp: wp_iff dest: tab_entry_cong)
  have e: "ld32 (view_bytes s1 TabMap (4 * bc_table_hash hash) 4) = tab_entry s (bc_table_hash hash)"
    using o(5) by (metis tab_entry_def)
  show ?thesis
    using o tab_read_calm [OF o(2,4)] store_ok_calm [OF assms]
    by (simp add: bc_table_get_def locked_calm s_bc_table_get_def keep_lock e entry_lookup_def)
qed

lemma bc_table_unset_calm:
  assumes "store_ok s"
  shows "wp (bc_table_unset hash s) (\<lambda>(e, s'). e = 0 \<and> store_ok s' \<and> keep {TabMap} s s'
     \<and> tab_entry s' = (tab_entry s)(bc_table_hash hash := BC_TABLE_NULL_POS))"
  using tab_update_calm [OF assms, of "\<lambda>s1. case bc_table_pos hash s1 of None \<Rightarrow> Ret (ERR_INVAL, s1)
       | Some off \<Rightarrow> andThen (raw_write TabMap off (le32 BC_TABLE_NULL_POS) s1) (\<lambda>s2. Ret (0, s2))"
       hash BC_TABLE_NULL_POS]
  by (simp add: bc_table_unset_def s_bc_table_unset_def [abs_def] bc_table_pos_def)

lemma bc_table_reset_calm:
  assumes "store_ok s"
  shows "wp (bc_table_reset hash s) (\<lambda>(e, s'). e = 0 \<and> store_ok s' \<and> keep {TabMap} s s'
     \<and> tab_entry s' = (tab_entry s)(bc_table_hash hash := BC_TABLE_SEARCH_POS))"
  using tab_update_calm [OF assms, of "\<lambda>s1. case bc_table_pos hash s1 of None \<Rightarrow> Ret (ERR_INVAL, s1)
       | Some off \<Rightarrow> andThen (raw_write TabMap off (le32 BC_TABLE_SEARCH_POS) s1) (\<lambda>s2. Ret (0, s2))"
       hash BC_TABLE_SEARCH_POS]
  by (simp add: bc_table_reset_def s_bc_table_reset_def [abs_def] bc_table_pos_def)

lemma bc_table_set_calm:
  assumes "store_ok s" "pos < BC_TABLE_POS_MASK"
  shows "wp (bc_table_set hash pos s) (\<lambda>(e, s'). e = 0 \<and> store_ok s' \<and> keep {TabMap} s s'
     \<and> tab_entry s' = (tab_entry s)(bc_table_hash hash := entry_raise (tab_entry s (bc_table_hash hash)) pos))"
proof -
  let ?s = "s\<lparr>bc_lk := Suc (bc_lk s)\<rparr>"
  obtain s1 where o: "bc_table_open ?s = Ret (0, s1)" "store_ok s1" "keep {TabMap} ?s s1"
    "mapped TabMap s1" "tab_entry s1 = tab_entry s"
    using table_open_calm [of ?s] assms by (auto simp: wp_iff dest: tab_entry_cong)
  obtain s2 where w: "raw_write TabMap (4 * bc_table_hash hash) (le32 pos) s1 = Ret s2" "store_ok s2"
    "keep {TabMap} s1 s2" "tab_entry s2 = (tab_entry s1)(bc_table_hash hash := u32 pos)"
    using tab_write_calm [OF o(2,4)] by (auto simp: wp_iff)
  have k: "keep {TabMap} ?s s2"
    by (rule keep_trans [OF o(3) w(3)]) auto
  have e: "ld32 (view_bytes s1 TabMap (4 * bc_table_hash hash) 4) = tab_entry s (bc_table_hash hash)"
    using o(5) by (metis tab_entry_def)
  show ?thesis
    using o w k assms(2) tab_read_calm [OF o(2,4)] store_ok_calm [OF assms(1)]
    by (simp add: bc_table_set_def locked_calm s_bc_table_set_def keep_lock e entry_raise_def)
qed

lemma bc_table_clear_calm:
  assumes "store_ok s" "h < BC_TABLE_SIZE"
  shows "wp (bc_table_clear s) (\<lambda>(e, s'). e = 0 \<and> store_ok s' \<and> keep {TabMap} s s'
     \<and> tab_entry s' h = BC_TABLE_SEARCH_POS)"
proof -
  let ?s = "s\<lparr>bc_lk := Suc (bc_lk s)\<rparr>"
  obtain s1 where o: "bc_table_open ?s = Ret (0, s1)" "store_ok s1" "keep {TabMap} ?s s1"
    "mapped TabMap s1"
    using table_open_calm [of ?s] assms by (auto simp: wp_iff)
  have f: "m_size (tab_map s1) = vsize s1 TabMap"
    using mapped_m_size [OF o(4)] by simp
  have sz: "4194320 < vsize s1 TabMap"
    using o(2,4) by (simp add: store_ok_def)
  let ?z = "replicate (vsize s1 TabMap - 16) 0 :: byte list"
  obtain s2 where w: "raw_write TabMap 0 ?z s1 = Ret s2" "poke_post TabMap s1 s2"
    "vbytes s2 TabMap = put_bytes (vbytes s1 TabMap) 0 ?z" "vof s2 TabMap = vof s1 TabMap"
    using raw_write_calm [of TabMap s1 0 ?z] o(4) sz by (auto simp: wp_iff)
  have z: "vbytes s2 TabMap (4 * h + i) = 0" if "i < 4" for i
  proof -
    have "4 * h + i < vsize s1 TabMap - 16"
      using assms(2) sz that by linarith
    then show ?thesis
      by (simp add: w(3) put_bytes_def)
  qed
  have "view_bytes s2 TabMap (4 * h) 4 = map (\<lambda>i. 0) [0..<4]"
    unfolding view_bytes_def by (rule map_cong) (simp_all add: z)
  then have "tab_entry s2 h = 0"
    by (simp add: tab_entry_def ld32_def nth0_def upt_rec)
  moreover have "keep {TabMap} ?s s2"
    using w(2) by (intro keep_trans [OF o(3), of "{TabMap}"]) (auto intro: poke_post_keep)
  ultimately show ?thesis
    using o w(1) f poke_store_ok [OF o(2) w(2) _ w(4)] store_ok_calm [OF assms(1)]
    by (simp add: bc_table_clear_def locked_calm s_bc_table_clear_def keep_lock)
qed

section \<open>The contract of the table\<close>

text \<open>
  \<open>pos_cache\<close> is the contract the index relies on: entries are only changed by the operations
  that name them, and a lookup reports the entry.
\<close>

locale pos_cache =
  fixes ok :: "'s \<Rightarrow> bool"
    and ent :: "'s \<Rightarrow> nat \<Rightarrow> nat"
    and slot :: "'h \<Rightarrow> nat"
    and cget :: "'h \<Rightarrow> nat \<Rightarrow> 's \<Rightarrow> ((int \<times> nat) \<times> 's) res"
    and cset :: "'h \<Rightarrow> nat \<Rightarrow> 's \<Rightarrow> (int \<times> 's) res"
    and cunset :: "'h \<Rightarrow> 's \<Rightarrow> (int \<times> 's) res"
    and creset :: "'h \<Rightarrow> 's \<Rightarrow> (int \<times> 's) res"
  assumes get_law: "ok s \<Longrightarrow> wp (cget h r s) (\<lambda>(v, s'). ok s' \<and> ent s' = ent s \<and> v = entry_lookup (ent s (slot h)))"
    and set_law: "ok s \<Longrightarrow> p < BC_TABLE_POS_MASK \<Longrightarrow> wp (cset h p s)
        (\<lambda>(e, s'). e = 0 \<and> ok s' \<and> ent s' = (ent s)(slot h := entry_raise (ent s (slot h)) p))"
    and unset_law: "ok s \<Longrightarrow> wp (cunset h s)
        (\<lambda>(e, s'). e = 0 \<and> ok s' \<and> ent s' = (ent s)(slot h := BC_TABLE_NULL_POS))"
    and reset_law: "ok s \<Longrightarrow> wp (creset h s)
        (\<lambda>(e, s'). e = 0 \<and> ok s' \<and> ent s' = (ent s)(slot h := BC_TABLE_SEARCH_POS))"
begin

lemma then_get:
  assumes "wp m (\<lambda>(e, s'). e = 0 \<and> ok s' \<and> ent s' = (ent s)(slot h := t))"
  shows "wp (andThen m (\<lambda>(e, s'). cget g r s'))
     (\<lambda>(v, s'). ok s' \<and> v = entry_lookup (if slot g = slot h then t else ent s (slot g)))"
proof -
  obtain s' where s': "m = Ret (0, s')" "ok s'" "ent s' = (ent s)(slot h := t)"
    using assms by (auto simp: wp_iff)
  have "wp (cget g r s') (\<lambda>(v, s'). ok s' \<and> v = entry_lookup (if slot g = slot h then t else ent s (slot g)))"
    using get_law [OF s'(2), of g r] s'(3) by (auto elim!: wp_mono)
  then show ?thesis
    by (simp add: s'(1))
qed

lemmas get_after_set = then_get [OF set_law]
lemmas get_after_unset = then_get [OF unset_law]
lemmas get_after_reset = then_get [OF reset_law]

end

interpretation tab: pos_cache store_ok tab_entry bc_table_hash
  bc_table_get bc_table_set bc_table_unset bc_table_reset
proof
  show "store_ok s \<Longrightarrow> wp (bc_table_get h r s)
     (\<lambda>(v, s'). store_ok s' \<and> tab_entry s' = tab_entry s \<and> v = entry_lookup (tab_entry s (bc_table_hash h)))"
    for s h r
    using bc_table_get_calm [of s h r] by (auto elim!: wp_mono)
  show "store_ok s \<Longrightarrow> p < BC_TABLE_POS_MASK \<Longrightarrow> wp (bc_table_set h p s) (\<lambda>(e, s'). e = 0 \<and> store_ok s'
     \<and> tab_entry s' = (tab_entry s)(bc_table_hash h := entry_raise (tab_entry s (bc_table_hash h)) p))"
    for s h p
    using bc_table_set_calm [of s p h] by (auto elim!: wp_mono)
  show "store_ok s \<Longrightarrow> wp (bc_table_unset h s) (\<lambda>(e, s'). e = 0 \<and> store_ok s'
     \<and> tab_entry s' = (tab_entry s)(bc_table_hash h := BC_TABLE_NULL_POS))" for s h
    using bc_table_unset_calm [of s h] by (auto elim!: wp_mono)
  show "store_ok s \<Longrightarrow> wp (bc_table_reset h s) (\<lambda>(e, s'). e = 0 \<and> store_ok s'
     \<and> tab_entry s' = (tab_entry s)(bc_table_hash h := BC_TABLE_SEARCH_POS))" for s h
    using bc_table_reset_calm [of s h] by (auto elim!: wp_mono)
qed

end
