(* ===== verification/Shcrc.thy ===== *)
theory Shcrc
  imports Coin_Prelude
begin

unbundle bit_operations_syntax

text \<open>
  The checksum the block store writes beside every record: \<open>shcrc\<close> of the bundled share
  library (share.c) and its 32 bit truncation \<open>shcrc32\<close> (shcrc.h). The loop takes the data
  in groups of four bytes; \<open>a\<close> and \<open>c\<close> are 32 bit, \<open>b\<close> and \<open>d\<close> 64 bit accumulators.
\<close>

definition htonl :: "nat \<Rightarrow> nat" where
  "htonl n = ld32 (rev (le32 n))"

definition htonll :: "nat \<Rightarrow> nat" where
  "htonll x = (htonl (x mod 4294967296) * 4294967296) OR htonl (x div 4294967296)"

type_synonym crc_acc = "nat \<times> nat \<times> nat \<times> nat"

definition shcrc_step :: "byte list \<Rightarrow> crc_acc \<Rightarrow> crc_acc" where
  "shcrc_step grp acc =
     (case acc of (a, b, c, d) \<Rightarrow>
       (let a' = u32 (a + ld32 grp);
            b' = (b + a') mod 18446744073709551616;
            c' = u32 (c + nth0 grp 0) mod 65521;
            d' = (d + c') mod 18446744073709551616 mod 65521
        in (a', b', c', d')))"

fun shcrc_loop :: "byte list \<Rightarrow> crc_acc \<Rightarrow> crc_acc" where
  "shcrc_loop [] acc = acc"
| "shcrc_loop (x # xs) acc = shcrc_loop (drop 3 xs) (shcrc_step (x # take 3 xs) acc)"

definition shcrc :: "byte list \<Rightarrow> nat" where
  "shcrc data =
     (case shcrc_loop data (1, 0, 1, 0) of (a, b, c, d) \<Rightarrow>
        htonll (((((d * 65536) mod 18446744073709551616) OR c)
                 + (((b * 4294967296) mod 18446744073709551616) OR a)) mod 18446744073709551616))"

definition shcrc32 :: "byte list \<Rightarrow> nat" where
  "shcrc32 data = shcrc data mod 4294967296"

lemma shcrc32_lt [simp]: "shcrc32 data < 4294967296"
  by (simp add: shcrc32_def)

end
