(* ===== verification/Bc_Index.thy ===== *)
theory Bc_Index
  imports Bc_Table Shcrc
begin

text \<open>
  The index of a store (blockchain/bc_index.c): the array of index records, looked up by
  position or, with the help of the hash table, by hash.

  Out parameters are part of the result. Where the C code takes an optional \<open>ret_idx\<close> pointer,
  the argument \<open>want\<close> says whether the caller passed one.
\<close>

section \<open>The operations of bc\_index.c\<close>

definition s_bc_idx_open :: "bc_state \<Rightarrow> (int \<times> bc_state) res" where
  "s_bc_idx_open = slot_open IdxMap ''idx'' 0"

definition bc_idx_open :: "bc_state \<Rightarrow> (int \<times> bc_state) res" where
  "bc_idx_open = locked ERR_NOLCK s_bc_idx_open"

definition bc_idx_close :: "bc_state \<Rightarrow> bc_state res" where
  "bc_idx_close = slot_close IdxMap"

text \<open>
  The loop of \<open>_bc_idx_find\<close> from position \<open>n - 1\<close> down: the position where it stops (-1 at
  the end) and the highest position seen with the same table hash.
\<close>

fun idx_scan :: "bc_state \<Rightarrow> bc_hash \<Rightarrow> nat \<Rightarrow> nat \<Rightarrow> int \<Rightarrow> (int \<times> int) res" where
  "idx_scan s hash tab_hash 0 pos_high = Ret (- 1, pos_high)"
| "idx_scan s hash tab_hash (Suc i) pos_high =
     andThen (idx_size_at s IdxMap i) (\<lambda>sz.
     if sz = 0 then idx_scan s hash tab_hash i pos_high
     else andThen (idx_hash_at s IdxMap i) (\<lambda>h.
       (let high = (if int i > pos_high \<and> bc_table_hash h = tab_hash then int i else pos_high) in
        if bc_hash_cmp hash h then Ret (int i, high)
        else idx_scan s hash tab_hash i high)))"

text \<open>\<open>_bc_idx_find\<close> once the index is open; \<open>terr\<close> and \<open>pos\<close> come from the table lookup.\<close>

definition idx_find_opened ::
  "bool \<Rightarrow> bc_hash \<Rightarrow> int \<Rightarrow> nat \<Rightarrow> bc_state \<Rightarrow> ((int \<times> bc_idx \<times> int) \<times> bc_state) res" where
  "idx_find_opened want hash terr pos s =
     andThen (hdr_of s IdxMap) (\<lambda>of'.
       (let pos_high0 = (if terr = 0 then s32 pos else - 1);
            len0 = u32_of_int (int (of' div 64) - 1);
            pos_high = (if u32_of_int pos_high0 > len0 then - 1 else pos_high0);
            len = (if pos_high \<noteq> - 1 then u32_of_int pos_high else len0)
        in andThen (idx_scan s hash (bc_table_hash hash) (nat (s32 len + 1)) pos_high) (\<lambda>(i, high).
           andThen
             (if high \<noteq> - 1
              then (if int pos \<noteq> high then bc_table_set hash (u32_of_int high) s else Ret (0, s))
              else if i < 0 then bc_table_unset hash s else Ret (0, s))
             (\<lambda>(_, s1).
               if i < 0 then Ret ((ERR_NOENT, idx_zero, - 1), s1)
               else andThen (if want then idx_at s1 IdxMap (nat i) else Ret idx_zero)
                      (\<lambda>x. Ret ((0, x, i), s1))))))"

definition s_bc_idx_find ::
  "bool \<Rightarrow> bc_hash \<Rightarrow> bc_state \<Rightarrow> ((int \<times> bc_idx \<times> int) \<times> bc_state) res" where
  "s_bc_idx_find want hash s =
     andThen (bc_table_get hash 0 s) (\<lambda>((terr, pos), s1).
     if terr = ERR_NOENT then Ret ((ERR_NOENT, idx_zero, - 1), s1)
     else andThen (bc_idx_open s1) (\<lambda>(err, s2).
       if err \<noteq> 0 then Ret ((err, idx_zero, - 1), s2)
       else idx_find_opened want hash terr pos s2))"

definition bc_idx_find ::
  "bool \<Rightarrow> bc_hash \<Rightarrow> bc_state \<Rightarrow> ((int \<times> bc_idx \<times> int) \<times> bc_state) res" where
  "bc_idx_find want hash = locked (ERR_NOLCK, idx_zero, - 1) (s_bc_idx_find want hash)"

definition s_bc_idx_get :: "bool \<Rightarrow> nat \<Rightarrow> bc_state \<Rightarrow> ((int \<times> bc_idx) \<times> bc_state) res" where
  "s_bc_idx_get want pos s =
     andThen (bc_idx_open s) (\<lambda>(err, s1).
     if err \<noteq> 0 then Ret ((err, idx_zero), s1)
     else andThen (hdr_of s1 IdxMap) (\<lambda>of'.
       if pos \<ge> of' div 64 then Ret ((ERR_NOENT, idx_zero), s1)
       else andThen (idx_size_at s1 IdxMap pos) (\<lambda>sz.
         if sz = 0 then Ret ((ERR_NOENT, idx_zero), s1)
         else andThen (if want then idx_at s1 IdxMap pos else Ret idx_zero)
                (\<lambda>x. Ret ((0, x), s1)))))"

definition bc_idx_get :: "bool \<Rightarrow> nat \<Rightarrow> bc_state \<Rightarrow> ((int \<times> bc_idx) \<times> bc_state) res" where
  "bc_idx_get want pos = locked (ERR_NOLCK, idx_zero) (s_bc_idx_get want pos)"

definition s_bc_idx_set :: "nat \<Rightarrow> bc_idx \<Rightarrow> bc_state \<Rightarrow> (int \<times> bc_state) res" where
  "s_bc_idx_set pos idx s =
     andThen (bc_idx_open s) (\<lambda>(err, s1).
     if err \<noteq> 0 then Ret (err, s1)
     else andThen (bc_idx_get False pos s1) (\<lambda>((err, _), s2).
       if err \<noteq> ERR_NOENT then Ret (ERR_EXIST, s2)
       else andThen (hdr_of s2 IdxMap) (\<lambda>hof.
         (let of' = u32 (pos * 64) in
          andThen
            (if pos \<ge> hof div 64 \<and> of' + 64 > m_size (idx_map s2)
             then bc_map_alloc IdxMap (u32_of_int (int (of' + 64) - int (m_size (idx_map s2)))) s2
             else Ret (0, s2))
            (\<lambda>(err, s3).
              if err \<noteq> 0 then Ret (err, s3)
              else andThen (bc_map_write IdxMap of' (idx_bytes idx) s3) (\<lambda>(err, s4).
                if err \<noteq> 0 then Ret (err, s4)
                else andThen (bc_table_reset (ix_hash idx) s4) (\<lambda>(_, s5). Ret (0, s5))))))))"

definition bc_idx_set :: "nat \<Rightarrow> bc_idx \<Rightarrow> bc_state \<Rightarrow> (int \<times> bc_state) res" where
  "bc_idx_set pos idx = locked ERR_NOLCK (s_bc_idx_set pos idx)"

definition s_bc_idx_reset :: "nat \<Rightarrow> bc_idx \<Rightarrow> bc_state \<Rightarrow> (int \<times> bc_state) res" where
  "s_bc_idx_reset pos idx s =
     andThen (bc_idx_open s) (\<lambda>(err, s1).
     if err \<noteq> 0 then Ret (err, s1)
     else andThen (bc_idx_get True pos s1) (\<lambda>((err, _), s2).
       if err \<noteq> 0 then Ret (ERR_NOENT, s2)
       else andThen (hdr_of s2 IdxMap) (\<lambda>hof.
         (let of' = u32 (pos * 64) in
          if pos \<ge> hof div 64 \<or> of' + 64 > m_size (idx_map s2) then Ret (ERR_IO, s2)
          else andThen (bc_map_write IdxMap of' (idx_bytes idx) s2) (\<lambda>(err, s3).
            if err \<noteq> 0 then Ret (err, s3) else Ret (0, s3))))))"

definition bc_idx_reset :: "nat \<Rightarrow> bc_idx \<Rightarrow> bc_state \<Rightarrow> (int \<times> bc_state) res" where
  "bc_idx_reset pos idx = locked ERR_NOLCK (s_bc_idx_reset pos idx)"

definition s_bc_idx_clear :: "nat \<Rightarrow> bc_state \<Rightarrow> (int \<times> bc_state) res" where
  "s_bc_idx_clear pos s =
     andThen (bc_idx_open s) (\<lambda>(err, s1).
     if err \<noteq> 0 then Ret (err, s1)
     else andThen (hdr_of s1 IdxMap) (\<lambda>hof.
       (let of' = u32 (pos * 64) in
        if pos \<ge> hof div 64 \<and> of' + 64 > m_size (idx_map s1) then Ret (0, s1)
        else andThen (bc_map_write IdxMap of' (idx_bytes idx_zero) s1) (\<lambda>(err, s2).
          if err \<noteq> 0 then Ret (err, s2) else Ret (0, s2)))))"

definition bc_idx_clear :: "nat \<Rightarrow> bc_state \<Rightarrow> (int \<times> bc_state) res" where
  "bc_idx_clear pos = locked ERR_NOLCK (s_bc_idx_clear pos)"

definition bc_idx_next :: "bc_state \<Rightarrow> ((int \<times> nat) \<times> bc_state) res" where
  "bc_idx_next s =
     andThen (bc_idx_open s) (\<lambda>(err, s1).
     if err \<noteq> 0 then Ret ((err, 0), s1)
     else andThen (hdr_of s1 IdxMap) (\<lambda>of'. Ret ((0, of' div 64), s1)))"

definition bc_idx_crc :: "bc_hash \<Rightarrow> nat" where
  "bc_idx_crc hash = shcrc32 (take 32 hash)"

section \<open>The index by position\<close>

lemma bc_idx_open_calm:
  assumes "store_ok s"
  shows "wp (bc_idx_open s) (\<lambda>(e, s'). e = 0 \<and> store_ok s' \<and> keep {} s s' \<and> mapped IdxMap s')"
proof -
  have eq: "s_bc_idx_open = slot_open IdxMap (cext IdxMap) 0"
    by (simp add: s_bc_idx_open_def)
  show ?thesis
    unfolding bc_idx_open_def eq
    by (rule locked_lift [where f = "slot_open IdxMap (cext IdxMap) 0", OF record_map_open])
      (use assms in \<open>auto simp: store_ok_calm keep_lock\<close>)
qed

lemma s_bc_idx_get_calm:
  assumes "store_ok s"
  shows "wp (s_bc_idx_get w pos s) (\<lambda>((e, x), s'). store_ok s' \<and> keep {} s s' \<and> mapped IdxMap s' \<and>
     (if live s IdxMap pos then e = 0 \<and> (w \<longrightarrow> x = rec_at s IdxMap pos) else e = ERR_NOENT))"
proof -
  obtain s1 where o: "bc_idx_open s = Ret (0, s1)" "store_ok s1" "keep {} s s1" "mapped IdxMap s1"
    using bc_idx_open_calm [OF assms] by (auto simp: wp_iff)
  have k: "rec_at s1 IdxMap = rec_at s IdxMap" "nrec s1 IdxMap = nrec s IdxMap"
    using keep_rec [OF o(3), of IdxMap] by simp_all
  have h: "hdr_of s1 IdxMap = Ret (vof s1 IdxMap)"
    using o(4) by (intro hdr_of_calm) simp_all
  have n: "vof s1 IdxMap div 64 = nrec s IdxMap"
    using k(2) by (simp add: nrec_def)
  show ?thesis
  proof (cases "pos < nrec s IdxMap")
    case True
    then show ?thesis
      using o rec_read_calm [OF o(4), of pos] k n
      by (simp add: s_bc_idx_get_def h live_def)
  next
    case False
    then show ?thesis
      using o n by (simp add: s_bc_idx_get_def h live_def)
  qed
qed

lemma bc_idx_get_calm:
  assumes "store_ok s"
  shows "wp (bc_idx_get w pos s) (\<lambda>((e, x), s'). store_ok s' \<and> keep {} s s' \<and> mapped IdxMap s' \<and>
     (if live s IdxMap pos then e = 0 \<and> (w \<longrightarrow> x = rec_at s IdxMap pos) else e = ERR_NOENT))"
  unfolding bc_idx_get_def
  by (rule locked_lift [where f = "s_bc_idx_get w pos", OF s_bc_idx_get_calm])
    (use assms in \<open>auto simp: store_ok_calm keep_lock\<close>)

lemma bc_idx_next_calm:
  assumes "store_ok s"
  shows "wp (bc_idx_next s) (\<lambda>((e, n), s'). store_ok s' \<and> keep {} s s' \<and> mapped IdxMap s' \<and>
     e = 0 \<and> n = nrec s IdxMap)"
proof -
  obtain s1 where o: "bc_idx_open s = Ret (0, s1)" "store_ok s1" "keep {} s s1" "mapped IdxMap s1"
    using bc_idx_open_calm [OF assms] by (auto simp: wp_iff)
  have "hdr_of s1 IdxMap = Ret (vof s1 IdxMap)"
    using o(4) by (intro hdr_of_calm) simp_all
  then show ?thesis
    using o keep_rec [OF o(3), of IdxMap] by (simp add: bc_idx_next_def nrec_def)
qed

definition idx_set_post :: "nat \<Rightarrow> bc_idx \<Rightarrow> bc_state \<Rightarrow> bc_state \<Rightarrow> bool" where
  "idx_set_post pos x s s' \<longleftrightarrow> store_ok s' \<and> keep {IdxMap, TabMap} s s'
     \<and> rec_at s' IdxMap = (rec_at s IdxMap)(pos := x)
     \<and> nrec s' IdxMap = max (nrec s IdxMap) (Suc pos) \<and> vsize s' IdxMap \<le> 3000000000
     \<and> vof s' IdxMap = max (vof s IdxMap) (64 * pos + 64)
     \<and> tab_entry s' = (tab_entry s)(bc_table_hash (ix_hash x) := BC_TABLE_SEARCH_POS)"

lemma idx_put_reset:
  assumes "keep {} s s2" "put_post IdxMap pos x s2 s4"
  shows "wp (bc_table_reset (ix_hash x) s4) (\<lambda>(e, s'). idx_set_post pos x s s')"
proof -
  have r: "rec_at s2 IdxMap = rec_at s IdxMap" "nrec s2 IdxMap = nrec s IdxMap"
    "vof s2 IdxMap = vof s IdxMap"
    using keep_rec [OF assms(1), of IdxMap] keepD [OF assms(1), of IdxMap] by simp_all
  have w: "store_ok s4" "keep {IdxMap} s2 s4" "rec_at s4 IdxMap = (rec_at s IdxMap)(pos := x)"
    "nrec s4 IdxMap = max (nrec s IdxMap) (Suc pos)" "vsize s4 IdxMap \<le> 3000000000"
    "vof s4 IdxMap = max (vof s IdxMap) (64 * pos + 64)"
    using assms(2) r by (simp_all add: put_post_def)
  have k: "keep {IdxMap} s s4"
    by (rule keep_trans [OF assms(1) w(2)]) auto
  then have t: "tab_entry s4 = tab_entry s"
    using keepD [OF k, of TabMap] by (intro tab_entry_cong) simp
  obtain s5 where z: "bc_table_reset (ix_hash x) s4 = Ret (0, s5)" "store_ok s5" "keep {TabMap} s4 s5"
    "tab_entry s5 = (tab_entry s)(bc_table_hash (ix_hash x) := BC_TABLE_SEARCH_POS)"
    using bc_table_reset_calm [OF w(1)] t by (auto simp: wp_iff)
  have "keep {IdxMap, TabMap} s s5"
    by (rule keep_trans [OF k z(3)]) auto
  then show ?thesis
    using w z keep_rec [OF z(3), of IdxMap] keepD [OF z(3), of IdxMap]
    by (simp add: idx_set_post_def)
qed

lemma s_bc_idx_set_calm:
  assumes "store_ok s" "cap IdxMap 64 s" "idx_wf x" "pos \<le> nrec s IdxMap"
  shows "wp (s_bc_idx_set pos x s) (\<lambda>(e, s'). if live s IdxMap pos then e = ERR_EXIST \<and> store_ok s' \<and> keep {} s s'
      else e = 0 \<and> idx_set_post pos x s s')"
proof -
  obtain s1 where o: "bc_idx_open s = Ret (0, s1)" "store_ok s1" "keep {} s s1"
    using bc_idx_open_calm [OF assms(1)] by (auto simp: wp_iff)
  have k1: "live s1 IdxMap = live s IdxMap"
    using keep_rec [OF o(3), of IdxMap] by simp
  obtain e y s2 where g: "bc_idx_get False pos s1 = Ret ((e, y), s2)" "store_ok s2" "keep {} s1 s2"
    "mapped IdxMap s2" "if live s IdxMap pos then e = 0 else e = ERR_NOENT"
    using bc_idx_get_calm [OF o(2), of False pos] k1 by (auto simp: wp_iff split: if_splits)
  have k2: "keep {} s s2"
    by (rule keep_trans [OF o(3) g(3)]) simp_all
  show ?thesis
  proof (cases "live s IdxMap pos")
    case True
    then show ?thesis
      using o(1) g k2 by (simp add: s_bc_idx_set_def)
  next
    case False
    have r2: "nrec s2 IdxMap = nrec s IdxMap" "cap IdxMap 64 s2"
      using keep_rec [OF k2, of IdxMap] cap_keep [OF k2] assms(2) by simp_all
    have h: "hdr_of s2 IdxMap = Ret (vof s2 IdxMap)"
      using g(4) by (intro hdr_of_calm) simp_all
    have u: "u32 (pos * 64) = 64 * pos"
      by (rule pos_u32 [OF assms(2,4)])
    have "s_bc_idx_set pos x s =
      andThen (if pos \<ge> vof s2 IdxMap div 64 \<and> 64 * pos + 64 > m_size (get_map s2 IdxMap)
             then bc_map_alloc IdxMap (u32_of_int (int (64 * pos + 64) - int (m_size (get_map s2 IdxMap)))) s2
             else Ret (0, s2))
      (\<lambda>(err, s3). if err \<noteq> 0 then Ret (err, s3)
         else andThen (bc_map_write IdxMap (64 * pos) (idx_bytes x) s3) (\<lambda>(err, s4).
            if err \<noteq> 0 then Ret (err, s4)
            else andThen (bc_table_reset (ix_hash x) s4) (\<lambda>(_, s5). Ret (0, s5))))"
      using g(5) False by (simp add: s_bc_idx_set_def o(1) g(1) h u Let_def)
    also have "wp \<dots> (\<lambda>(e, s'). e = 0 \<and> idx_set_post pos x s s')"
      by (rule rec_put_calm [OF g(2,4) _ r2(2) assms(3)])
        (use assms(4) r2(1) in \<open>auto intro!: wp_mono [OF idx_put_reset [OF k2]]\<close>)
    finally have "wp (s_bc_idx_set pos x s) (\<lambda>(e, s'). e = 0 \<and> idx_set_post pos x s s')" .
    then show ?thesis
      using False by simp
  qed
qed

lemma idx_set_post_lock:
  "idx_set_post pos x (s\<lparr>bc_lk := Suc (bc_lk s)\<rparr>) s2 \<Longrightarrow> idx_set_post pos x s (bc_unlock s2)"
  by (simp add: idx_set_post_def keep_lock)

lemma bc_idx_set_calm:
  assumes "store_ok s" "cap IdxMap 64 s" "idx_wf x" "pos \<le> nrec s IdxMap"
  shows "wp (bc_idx_set pos x s) (\<lambda>(e, s'). if live s IdxMap pos then e = ERR_EXIST \<and> store_ok s' \<and> keep {} s s'
      else e = 0 \<and> idx_set_post pos x s s')"
  unfolding bc_idx_set_def
  by (rule locked_lift [where f = "s_bc_idx_set pos x", OF s_bc_idx_set_calm])
    (use assms in \<open>auto simp: store_ok_calm keep_lock idx_set_post_lock split: if_splits\<close>)

interpretation idx: record_store IdxMap bc_idx_get bc_idx_set bc_idx_next
proof
  show "store_ok s \<Longrightarrow> wp (bc_idx_get w pos s) (\<lambda>((e, x), s'). store_ok s' \<and> keep {} s s' \<and>
        (if live s IdxMap pos then e = 0 \<and> (w \<longrightarrow> x = rec_at s IdxMap pos) else e = ERR_NOENT))" for s w pos
    using bc_idx_get_calm [of s w pos] by (auto elim!: wp_mono)
  show "store_ok s \<Longrightarrow> wp (bc_idx_next s) (\<lambda>((e, n), s'). store_ok s' \<and> keep {} s s' \<and>
        e = 0 \<and> n = nrec s IdxMap)" for s
    using bc_idx_next_calm [of s] by (auto elim!: wp_mono)
  show "store_ok s \<Longrightarrow> cap IdxMap 64 s \<Longrightarrow> idx_wf x \<Longrightarrow> pos \<le> nrec s IdxMap \<Longrightarrow>
        wp (bc_idx_set pos x s) (\<lambda>(e, s'). store_ok s' \<and>
          (if live s IdxMap pos then e = ERR_EXIST \<and> keep {} s s'
           else e = 0 \<and> keep {IdxMap, TabMap} s s' \<and> rec_at s' IdxMap = (rec_at s IdxMap)(pos := x)
              \<and> nrec s' IdxMap = max (nrec s IdxMap) (Suc pos)))" for s x pos
    using bc_idx_set_calm [of s x pos] by (auto simp: idx_set_post_def elim!: wp_mono split: if_splits)
qed

lemma s_bc_idx_reset_calm:
  assumes "store_ok s" "cap IdxMap 64 s" "idx_wf x"
  shows "wp (s_bc_idx_reset pos x s) (\<lambda>(e, s').
     if live s IdxMap pos then e = 0 \<and> put_post IdxMap pos x s s'
     else e = ERR_NOENT \<and> store_ok s' \<and> keep {} s s')"
proof -
  obtain s1 where o: "bc_idx_open s = Ret (0, s1)" "store_ok s1" "keep {} s s1"
    using bc_idx_open_calm [OF assms(1)] by (auto simp: wp_iff)
  have k1: "live s1 IdxMap = live s IdxMap"
    using keep_rec [OF o(3), of IdxMap] by simp
  obtain e y s2 where g: "bc_idx_get True pos s1 = Ret ((e, y), s2)" "store_ok s2" "keep {} s1 s2"
    "mapped IdxMap s2" "if live s IdxMap pos then e = 0 else e = ERR_NOENT"
    using bc_idx_get_calm [OF o(2), of True pos] k1 by (auto simp: wp_iff split: if_splits)
  have k2: "keep {} s s2"
    by (rule keep_trans [OF o(3) g(3)]) simp_all
  show ?thesis
  proof (cases "live s IdxMap pos")
    case True
    have r2: "nrec s2 IdxMap = nrec s IdxMap" "rec_at s2 IdxMap = rec_at s IdxMap" "cap IdxMap 64 s2"
      "vof s2 IdxMap = vof s IdxMap" "pos < nrec s2 IdxMap"
      using keep_rec [OF k2, of IdxMap] cap_keep [OF k2] keepD [OF k2, of IdxMap] assms(2) True
      by (simp_all add: live_def)
    have h: "hdr_of s2 IdxMap = Ret (vof s2 IdxMap)"
      using g(4) by (intro hdr_of_calm) simp_all
    have u: "u32 (pos * 64) = 64 * pos"
      by (rule pos_u32 [OF r2(3)]) (use r2(5) in simp)
    have "64 * pos + 64 \<le> vof s2 IdxMap"
      using r2(5) unfolding nrec_def by linarith
    then have "\<not> 64 * pos + 64 > m_size (idx_map s2)" "\<not> pos \<ge> vof s2 IdxMap div 64"
      using vof_le_vsize [OF readyD(1), of IdxMap s2 IdxMap] mapped_m_size [OF g(4)] g(4) r2(5)
      by (auto simp: nrec_def)
    moreover obtain s3 where w: "bc_map_write IdxMap (64 * pos) (idx_bytes x) s2 = Ret (0, s3)"
      "put_post IdxMap pos x s2 s3"
      using rec_write_calm [OF g(2,4) _ r2(3) assms(3), of pos] r2(5) by (auto simp: wp_iff put_post_def)
    moreover have "keep {IdxMap} s s3"
      using w(2) by (intro keep_trans [OF k2, of "{IdxMap}"]) (auto simp: put_post_def)
    ultimately show ?thesis
      using o(1) g True h u r2 by (simp add: s_bc_idx_reset_def Let_def put_post_def)
  next
    case False
    then show ?thesis
      using o(1) g k2 by (simp add: s_bc_idx_reset_def)
  qed
qed

lemma bc_idx_reset_calm:
  assumes "store_ok s" "cap IdxMap 64 s" "idx_wf x"
  shows "wp (bc_idx_reset pos x s) (\<lambda>(e, s').
     if live s IdxMap pos then e = 0 \<and> put_post IdxMap pos x s s'
     else e = ERR_NOENT \<and> store_ok s' \<and> keep {} s s')"
  unfolding bc_idx_reset_def
  by (rule locked_lift [where f = "s_bc_idx_reset pos x", OF s_bc_idx_reset_calm])
    (use assms in \<open>auto simp: store_ok_calm keep_lock put_post_lock split: if_splits\<close>)

lemma bc_idx_clear_calm:
  assumes "store_ok s" "cap IdxMap 64 s" "pos < nrec s IdxMap"
  shows "wp (bc_idx_clear pos s) (\<lambda>(e, s'). e = 0 \<and> put_post IdxMap pos idx_zero s s')"
proof -
  let ?s = "s\<lparr>bc_lk := Suc (bc_lk s)\<rparr>"
  obtain s1 where o: "bc_idx_open ?s = Ret (0, s1)" "store_ok s1" "keep {} ?s s1" "mapped IdxMap s1"
    using bc_idx_open_calm [of ?s] assms(1) by (auto simp: wp_iff)
  have r: "nrec s1 IdxMap = nrec s IdxMap" "rec_at s1 IdxMap = rec_at s IdxMap" "cap IdxMap 64 s1"
    "vof s1 IdxMap = vof s IdxMap"
    using keep_rec [OF o(3), of IdxMap] cap_keep [OF o(3)] keepD [OF o(3), of IdxMap] assms(2) by simp_all
  have h: "hdr_of s1 IdxMap = Ret (vof s1 IdxMap)"
    using o(4) by (intro hdr_of_calm) simp_all
  have u: "u32 (pos * 64) = 64 * pos"
    by (rule pos_u32 [OF assms(2)]) (use assms(3) in simp)
  have n: "\<not> pos \<ge> vof s1 IdxMap div 64"
    using assms(3) r(1) by (simp add: nrec_def)
  obtain s2 where w: "bc_map_write IdxMap (64 * pos) (idx_bytes idx_zero) s1 = Ret (0, s2)"
    "put_post IdxMap pos idx_zero s1 s2"
    using rec_write_calm [OF o(2,4) _ r(3) idx_wf_zero, of pos] r(1) assms(3)
    by (auto simp: wp_iff put_post_def)
  have "keep {IdxMap} ?s s2"
    using w(2) by (intro keep_trans [OF o(3), of "{IdxMap}"]) (auto simp: put_post_def)
  then show ?thesis
    using o(1) h u n w r store_ok_calm [OF assms(1)]
    by (simp add: bc_idx_clear_def locked_calm s_bc_idx_clear_def Let_def put_post_def keep_lock)
qed

section \<open>The index by hash\<close>

abbreviation slot_live :: "bc_state \<Rightarrow> nat \<Rightarrow> nat \<Rightarrow> bool" where
  "slot_live s h i \<equiv> live s IdxMap i \<and> bc_table_hash (ix_hash (rec_at s IdxMap i)) = h"

text \<open>
  \<open>tab_ok\<close>: every table entry is truthful. It asks for a search, or there is no record with
  such a hash, or it bounds the positions of the records with such a hash.
\<close>

definition entry_ok :: "bc_state \<Rightarrow> nat \<Rightarrow> nat \<Rightarrow> bool" where
  "entry_ok s h t \<longleftrightarrow> t = BC_TABLE_SEARCH_POS \<or> (t = BC_TABLE_NULL_POS \<and> (\<forall>i. \<not> slot_live s h i))
     \<or> (0 < nrec s IdxMap \<and> 0 < t \<and> t < 2147483648 \<and> (\<forall>i. slot_live s h i \<longrightarrow> i \<le> t))"

definition tab_ok :: "bc_state \<Rightarrow> bool" where
  "tab_ok s \<longleftrightarrow> (\<forall>h < BC_TABLE_SIZE. entry_ok s h (tab_entry s h))"

lemma entry_ok_keep: "keep M s s' \<Longrightarrow> IdxMap \<notin> M \<Longrightarrow> entry_ok s' h t = entry_ok s h t"
  using keep_rec [of M s s' IdxMap] by (simp add: entry_ok_def)

lemma tab_ok_upd:
  "tab_ok s \<Longrightarrow> keep {TabMap} s s' \<Longrightarrow> tab_entry s' = (tab_entry s)(h := t) \<Longrightarrow> entry_ok s h t \<Longrightarrow> tab_ok s'"
  by (simp add: tab_ok_def entry_ok_keep)

lemma match_slot_live:
  "length hash = 32 \<Longrightarrow> j < nrec s IdxMap \<Longrightarrow> ix_size (rec_at s IdxMap j) \<noteq> 0 \<Longrightarrow>
     bc_hash_cmp hash (ix_hash (rec_at s IdxMap j)) \<Longrightarrow> slot_live s (bc_table_hash hash) j"
  using idx_wf_rec_at [of s IdxMap j] by (simp add: bc_hash_cmp_def idx_wf_def live_def)

lemma last_match_bounded:
  assumes "length hash = 32" "\<forall>i. slot_live s (bc_table_hash hash) i \<longrightarrow> i < n" "n \<le> nrec s IdxMap"
  shows "last_match s IdxMap hash (nrec s IdxMap) = last_match s IdxMap hash n"
  using assms match_slot_live [OF assms(1), of _ s]
  by (intro last_match_cut) (auto dest: leD)

lemma idx_scan_calm:
  assumes "mapped IdxMap s" "n \<le> nrec s IdxMap" "- 1 \<le> ph" "length hash = 32"
  shows "\<exists>i high. idx_scan s hash (bc_table_hash hash) n ph = Ret (i, high)
     \<and> i = (case last_match s IdxMap hash n of None \<Rightarrow> - 1 | Some p \<Rightarrow> int p)
     \<and> ph \<le> high \<and> (high = ph \<or> (\<exists>k < n. high = int k))
     \<and> (\<forall>j < n. slot_live s (bc_table_hash hash) j \<longrightarrow> int j \<le> high)"
  using assms(2,3)
proof (induction n arbitrary: ph)
  case (Suc n)
  let ?th = "bc_table_hash hash" and ?r = "rec_at s IdxMap n"
  have n: "n < nrec s IdxMap"
    using Suc.prems(1) by simp
  note rd = rec_read_calm [OF assms(1) n]
  show ?case
  proof (cases "ix_size ?r = 0")
    case True
    then have "\<not> live s IdxMap n"
      by (simp add: live_def)
    with True Suc.IH [of ph] Suc.prems show ?thesis
      by (auto simp: rd less_Suc_eq)
  next
    case False
    define h where "h = (if int n > ph \<and> bc_table_hash (ix_hash ?r) = ?th then int n else ph)"
    have h: "ph \<le> h" "h = ph \<or> h = int n" "slot_live s ?th n \<Longrightarrow> int n \<le> h"
      by (auto simp: h_def)
    have run: "idx_scan s hash ?th (Suc n) ph =
        (if bc_hash_cmp hash (ix_hash ?r) then Ret (int n, h) else idx_scan s hash ?th n h)"
      using False by (simp add: rd h_def Let_def)
    show ?thesis
    proof (cases "bc_hash_cmp hash (ix_hash ?r)")
      case True
      then have "hash = ix_hash ?r"
        using assms(4) idx_wf_rec_at [of s IdxMap n] by (simp add: bc_hash_cmp_def idx_wf_def)
      then have "int n \<le> h"
        using h(3) False n by (simp add: live_def)
      then show ?thesis
        using True False h by (auto simp: run simp del: idx_scan.simps)
    next
      case no: False
      then show ?thesis
        using Suc.IH [of h] Suc.prems h False
        by (auto simp: run less_Suc_eq simp del: idx_scan.simps intro: order_trans)
    qed
  qed
qed simp

text \<open>The part of \<open>_bc_idx_find\<close> after the loop.\<close>

lemma find_record_calm:
  assumes "store_ok s" "tab_ok s" "mapped IdxMap s" "high < 2147483648" "- 1 \<le> high" "i \<le> high"
    "0 \<le> high \<Longrightarrow> 0 < nrec s IdxMap"
    "\<forall>j. slot_live s (bc_table_hash hash) j \<longrightarrow> int j \<le> high"
  shows "wp (if high \<noteq> - 1
                then (if int pos \<noteq> high then bc_table_set hash (u32_of_int high) s else Ret (0, s))
                else if i < 0 then bc_table_unset hash s else Ret (0, s))
     (\<lambda>(e, s'). store_ok s' \<and> tab_ok s' \<and> keep {TabMap} s s' \<and> mapped IdxMap s')"
proof (cases "high = - 1")
  case True
  have "\<not> slot_live s (bc_table_hash hash) j" for j
    using assms(8) True by auto
  then have e: "entry_ok s (bc_table_hash hash) BC_TABLE_NULL_POS"
    by (simp add: entry_ok_def)
  show ?thesis
    using bc_table_unset_calm [OF assms(1), of hash] True assms(6) tab_ok_upd [OF assms(2) _ _ e]
      keep_mapped [OF _ _ assms(3)]
    by (auto elim!: wp_mono)
next
  case False
  then have u: "u32_of_int high = nat high" and m: "nat high < BC_TABLE_POS_MASK"
    using assms(4,5) by (simp_all add: u32_of_int_def)
  have "slot_live s (bc_table_hash hash) j \<Longrightarrow> j \<le> nat high" for j
    using assms(8) by (metis nat_int nat_mono)
  then have "entry_ok s (bc_table_hash hash) (nat high)"
    using False assms(4,5,7) by (auto simp: entry_ok_def)
  moreover have "entry_ok s (bc_table_hash hash) (tab_entry s (bc_table_hash hash))"
    using assms(2) bc_table_hash_lt by (simp add: tab_ok_def)
  ultimately have e: "entry_ok s (bc_table_hash hash) (entry_raise (tab_entry s (bc_table_hash hash)) (nat high))"
    by (simp add: entry_raise_def)
  have "wp (bc_table_set hash (nat high) s)
     (\<lambda>(e, s'). store_ok s' \<and> tab_ok s' \<and> keep {TabMap} s s' \<and> mapped IdxMap s')"
    using bc_table_set_calm [OF assms(1) m, of hash] tab_ok_upd [OF assms(2) _ _ e]
      keep_mapped [OF _ _ assms(3)]
    by (auto elim!: wp_mono)
  then show ?thesis
    using False assms(1-3) u by simp
qed

text \<open>Where the loop starts: at the cached position if it is inside the index, else at the end.\<close>

lemma find_start:
  assumes "entry_ok s h t" "t \<noteq> BC_TABLE_NULL_POS" "entry_lookup t = (terr, pos)"
    "ph0 = (if terr = 0 then s32 pos else - 1)" "len0 = u32_of_int (int (nrec s IdxMap) - 1)"
    "ph = (if u32_of_int ph0 > len0 then - 1 else ph0)"
    "len = (if ph \<noteq> - 1 then u32_of_int ph else len0)"
  shows "terr \<noteq> ERR_NOENT"
    "(ph = - 1 \<and> nat (s32 len + 1) = nrec s IdxMap) \<or>
     (\<exists>t < nrec s IdxMap. ph = int t \<and> nat (s32 len + 1) = Suc t \<and> (\<forall>i. slot_live s h i \<longrightarrow> i \<le> t))"
proof -
  let ?n = "nrec s IdxMap"
  have m1: "u32_of_int (- 1) = 4294967295" "s32 4294967295 = - 1"
    by (simp_all add: u32_of_int_def s32_def)
  have n: "?n < 67108864"
    by (rule nrec_lt)
  have l0: "len0 = (if ?n = 0 then 4294967295 else ?n - 1)"
    using n unfolding assms(5) u32_of_int_def by (cases "nrec s IdxMap") auto
  have t: "t = 0 \<or> (0 < ?n \<and> 0 < t \<and> t < 2147483648 \<and> (\<forall>i. slot_live s h i \<longrightarrow> i \<le> t))"
    using assms(1,2) by (auto simp: entry_ok_def)
  show "terr \<noteq> ERR_NOENT"
    using assms(2,3) by (auto simp: entry_lookup_def split: if_splits)
  show "(ph = - 1 \<and> nat (s32 len + 1) = ?n) \<or>
     (\<exists>t < ?n. ph = int t \<and> nat (s32 len + 1) = Suc t \<and> (\<forall>i. slot_live s h i \<longrightarrow> i \<le> t))"
  proof (cases "t = 0 \<or> ?n \<le> t")
    case True
    then have "ph = - 1"
      using t assms(3,4) unfolding assms(6) l0
      by (auto simp: entry_lookup_def m1 u32_of_int_def split: if_splits)
    then show ?thesis
      using n m1 unfolding assms(7) l0 by auto
  next
    case False
    then have "ph = int t"
      using t n assms(3,4) unfolding assms(6) l0
      by (auto simp: entry_lookup_def u32_of_int_def split: if_splits)
    then show ?thesis
      using False t unfolding assms(7) by (intro disjI2 exI [of _ t]) (auto simp: u32_of_int_def)
  qed
qed

definition find_post :: "bool \<Rightarrow> bc_hash \<Rightarrow> bc_state \<Rightarrow> (int \<times> bc_idx \<times> int) \<times> bc_state \<Rightarrow> bool" where
  "find_post w hash s = (\<lambda>((e, x, i), s'). store_ok s' \<and> tab_ok s' \<and> keep {TabMap} s s' \<and>
     (case last_match s IdxMap hash (nrec s IdxMap) of
        None \<Rightarrow> e = ERR_NOENT \<and> i = - 1
      | Some p \<Rightarrow> e = 0 \<and> i = int p \<and> (w \<longrightarrow> x = rec_at s IdxMap p)))"

lemma find_post_keep:
  assumes "keep {TabMap} s s2" "find_post w hash s2 r"
  shows "find_post w hash s r"
proof -
  have r2: "rec_at s2 IdxMap = rec_at s IdxMap" "nrec s2 IdxMap = nrec s IdxMap"
    using keep_rec [OF assms(1), of IdxMap] by simp_all
  have lm: "last_match s2 IdxMap hash m = last_match s IdxMap hash m" for m
    by (induction m) (simp_all add: r2)
  have "keep {TabMap} s2 s' \<Longrightarrow> keep {TabMap} s s'" for s'
    by (rule keep_trans [OF assms(1)]) auto
  then show ?thesis
    using assms(2) by (auto simp: find_post_def r2 lm split: prod.splits option.splits)
qed

lemma find_scan:
  assumes "mapped IdxMap s" "length hash = 32" "h = bc_table_hash hash"
    "(ph = - 1 \<and> n = nrec s IdxMap) \<or>
     (\<exists>t < nrec s IdxMap. ph = int t \<and> n = Suc t \<and> (\<forall>i. slot_live s h i \<longrightarrow> i \<le> t))"
  shows "\<exists>high. idx_scan s hash h n ph = Ret
       (case last_match s IdxMap hash (nrec s IdxMap) of None \<Rightarrow> - 1 | Some p \<Rightarrow> int p, high)
     \<and> - 1 \<le> high \<and> high < int (nrec s IdxMap)
     \<and> (\<forall>j. slot_live s h j \<longrightarrow> int j \<le> high)"
proof -
  have n: "n \<le> nrec s IdxMap" "- 1 \<le> ph" "ph < int (nrec s IdxMap)" "\<forall>i. slot_live s h i \<longrightarrow> i < n"
    using assms(4) by (auto simp: live_def le_imp_less_Suc)
  obtain high where "idx_scan s hash h n ph =
      Ret (case last_match s IdxMap hash n of None \<Rightarrow> - 1 | Some p \<Rightarrow> int p, high)"
    "ph \<le> high" "high = ph \<or> (\<exists>k < n. high = int k)" "\<forall>j < n. slot_live s h j \<longrightarrow> int j \<le> high"
    using idx_scan_calm [OF assms(1) n(1,2) assms(2)] unfolding assms(3) by blast
  moreover have "last_match s IdxMap hash (nrec s IdxMap) = last_match s IdxMap hash n"
    using n by (intro last_match_bounded [OF assms(2)]) (simp_all add: assms(3))
  ultimately show ?thesis
    using n by (intro exI [of _ high]) auto
qed

lemma idx_find_opened_calm:
  assumes "store_ok s" "tab_ok s" "length hash = 32" "mapped IdxMap s"
    "tab_entry s (bc_table_hash hash) \<noteq> BC_TABLE_NULL_POS"
    "entry_lookup (tab_entry s (bc_table_hash hash)) = (terr, pos)"
  shows "wp (idx_find_opened w hash terr pos s) (find_post w hash s)"
proof -
  let ?h = "bc_table_hash hash" and ?n = "nrec s IdxMap"
  define m where "m = last_match s IdxMap hash ?n"
  define ph0 where "ph0 = (if terr = 0 then s32 pos else - 1)"
  define len0 where "len0 = u32_of_int (int ?n - 1)"
  define ph where "ph = (if u32_of_int ph0 > len0 then - 1 else ph0)"
  define len where "len = (if ph \<noteq> - 1 then u32_of_int ph else len0)"
  have ent: "entry_ok s ?h (tab_entry s ?h)"
    using assms(2) bc_table_hash_lt by (simp add: tab_ok_def)
  have h: "hdr_of s IdxMap = Ret (vof s IdxMap)" "vof s IdxMap div 64 = ?n"
    using assms(4) by (auto intro!: hdr_of_calm simp: nrec_def)
  obtain high where sc: "idx_scan s hash ?h (nat (s32 len + 1)) ph =
        Ret (case m of None \<Rightarrow> - 1 | Some p \<Rightarrow> int p, high)"
    "- 1 \<le> high" "high < int ?n" "\<forall>j. slot_live s ?h j \<longrightarrow> int j \<le> high"
    using find_scan [OF assms(4,3) refl find_start(2) [OF ent assms(5,6) ph0_def len0_def ph_def len_def]]
    unfolding m_def by blast
  define i where "i = (case m of None \<Rightarrow> - 1 | Some p \<Rightarrow> int p)"
  have mS: "p < ?n \<and> slot_live s ?h p" if "m = Some p" for p
    using last_match_SomeD [OF that [unfolded m_def]] match_slot_live [OF assms(3)] by blast
  then have i: "i \<le> high"
    using sc(2,4) by (auto simp: i_def split: option.splits)
  have "wp (if high \<noteq> - 1
              then (if int pos \<noteq> high then bc_table_set hash (u32_of_int high) s else Ret (0, s))
              else if i < 0 then bc_table_unset hash s else Ret (0, s))
     (\<lambda>(e, s'). store_ok s' \<and> tab_ok s' \<and> keep {TabMap} s s' \<and> mapped IdxMap s')"
    using sc i nrec_lt [of s IdxMap] by (intro find_record_calm [OF assms(1,2,4)]) auto
  then obtain e s1 where s1: "(if high \<noteq> - 1
              then (if int pos \<noteq> high then bc_table_set hash (u32_of_int high) s else Ret (0, s))
              else if i < 0 then bc_table_unset hash s else Ret (0, s)) = Ret (e, s1)"
    "store_ok s1" "tab_ok s1" "keep {TabMap} s s1" "mapped IdxMap s1"
    by (auto simp: wp_iff)
  have run: "idx_find_opened w hash terr pos s =
     (if i < 0 then Ret ((ERR_NOENT, idx_zero, - 1), s1)
      else andThen (if w then idx_at s1 IdxMap (nat i) else Ret idx_zero) (\<lambda>x. Ret ((0, x, i), s1)))"
    unfolding idx_find_opened_def h(1) andThen.simps h(2) Let_def
    unfolding ph0_def [symmetric] len0_def [symmetric]
    unfolding ph_def [symmetric] unfolding len_def [symmetric]
    unfolding sc(1) i_def [symmetric] andThen.simps prod.case s1(1) ..
  have r1: "rec_at s1 IdxMap = rec_at s IdxMap" "nrec s1 IdxMap = ?n"
    using keep_rec [OF s1(4), of IdxMap] by simp_all
  show ?thesis
  proof (cases m)
    case None
    then show ?thesis
      using s1 by (simp add: run i_def find_post_def m_def)
  next
    case (Some p)
    then show ?thesis
      using s1 mS [OF Some] r1 rec_read_calm(3) [OF s1(5), of p] by (simp add: run i_def find_post_def m_def)
  qed
qed

lemma s_bc_idx_find_calm:
  assumes "store_ok s" "tab_ok s" "length hash = 32"
  shows "wp (s_bc_idx_find w hash s) (find_post w hash s)"
proof -
  let ?h = "bc_table_hash hash" and ?n = "nrec s IdxMap"
  obtain terr pos s1 where g: "bc_table_get hash 0 s = Ret ((terr, pos), s1)" "store_ok s1"
    "keep {TabMap} s s1" "tab_entry s1 = tab_entry s" "(terr, pos) = entry_lookup (tab_entry s ?h)"
    using bc_table_get_calm [OF assms(1), of hash 0] by (auto simp: wp_iff)
  obtain s2 where o: "bc_idx_open s1 = Ret (0, s2)" "store_ok s2" "keep {} s1 s2" "mapped IdxMap s2"
    using bc_idx_open_calm [OF g(2)] by (auto simp: wp_iff)
  have k2: "keep {TabMap} s s2"
    by (rule keep_trans [OF g(3) o(3)]) auto
  have t1: "tab_ok s1"
    using assms(2) g(3,4) by (simp add: tab_ok_def entry_ok_keep)
  have e2: "tab_entry s2 = tab_entry s1"
    using keepD [OF o(3), of TabMap] by (intro tab_entry_cong) simp
  then have t2: "tab_ok s2"
    using t1 entry_ok_keep [OF o(3)] by (simp add: tab_ok_def)
  have ent: "entry_ok s ?h (tab_entry s ?h)"
    using assms(2) bc_table_hash_lt by (simp add: tab_ok_def)
  show ?thesis
  proof (cases "tab_entry s ?h = BC_TABLE_NULL_POS")
    case True
    then have "\<forall>i. \<not> slot_live s ?h i"
      using ent by (simp add: entry_ok_def)
    then have "last_match s IdxMap hash ?n = None"
      using last_match_SomeD [of s IdxMap hash ?n] match_slot_live [OF assms(3), of _ s]
      by (cases "last_match s IdxMap hash ?n") blast+
    then show ?thesis
      using True g t1 by (simp add: s_bc_idx_find_def entry_lookup_def find_post_def)
  next
    case False
    then have "terr \<noteq> ERR_NOENT"
      using g(5) by (auto simp: entry_lookup_def split: if_splits)
    moreover have "wp (idx_find_opened w hash terr pos s2) (find_post w hash s2)"
      using False g(4,5) e2 by (intro idx_find_opened_calm [OF o(2) t2 assms(3) o(4)]) simp_all
    moreover have "find_post w hash s2 r \<Longrightarrow> find_post w hash s r" for r
      using find_post_keep [OF k2] .
    ultimately show ?thesis
      using g(1) o(1) by (auto simp: s_bc_idx_find_def elim!: wp_mono)
  qed
qed

lemma bc_idx_find_calm:
  assumes "store_ok s" "tab_ok s" "length hash = 32"
  shows "wp (bc_idx_find w hash s) (find_post w hash s)"
proof -
  let ?s = "s\<lparr>bc_lk := Suc (bc_lk s)\<rparr>"
  have l: "last_match ?s IdxMap hash m = last_match s IdxMap hash m" for m
    by (induction m) simp_all
  have "tab_ok ?s" "\<And>s2. tab_ok (bc_unlock s2) = tab_ok s2"
    using assms(2) by (simp_all add: tab_ok_def entry_ok_def)
  then show ?thesis
    unfolding bc_idx_find_def
    by (intro locked_lift [where f = "s_bc_idx_find w hash", OF s_bc_idx_find_calm])
      (use assms in \<open>auto simp: store_ok_calm find_post_def keep_lock l split: option.splits\<close>)
qed

section \<open>The table stays truthful\<close>

lemma entry_ok_mono:
  assumes "entry_ok s h t" "nrec s IdxMap \<le> nrec s' IdxMap" "\<And>i. slot_live s' h i \<Longrightarrow> slot_live s h i"
  shows "entry_ok s' h t"
  using assms(1) unfolding entry_ok_def
proof (elim disjE conjE)
  assume a: "0 < nrec s IdxMap" "0 < t" "t < 2147483648" "\<forall>i. slot_live s h i \<longrightarrow> i \<le> t"
  then have "0 < nrec s' IdxMap" "\<forall>i. slot_live s' h i \<longrightarrow> i \<le> t"
    using assms(2,3) by (linarith, blast)
  with a(2,3) show "t = BC_TABLE_SEARCH_POS \<or> (t = BC_TABLE_NULL_POS \<and> (\<forall>i. \<not> slot_live s' h i))
     \<or> (0 < nrec s' IdxMap \<and> 0 < t \<and> t < 2147483648 \<and> (\<forall>i. slot_live s' h i \<longrightarrow> i \<le> t))"
    by blast
qed (use assms(3) in blast)+

lemma tab_ok_shrink:
  assumes "tab_ok s" "tab_entry s' = tab_entry s" "nrec s IdxMap \<le> nrec s' IdxMap"
    "\<And>h i. slot_live s' h i \<Longrightarrow> slot_live s h i"
  shows "tab_ok s'"
  using assms(1,2) entry_ok_mono [OF _ assms(3,4)] unfolding tab_ok_def by simp

lemma put_post_tab_ok:
  assumes "tab_ok s" "put_post IdxMap pos x s s'"
    and "ix_size x = 0 \<or> (live s IdxMap pos \<and> ix_hash x = ix_hash (rec_at s IdxMap pos))"
    and "pos < nrec s IdxMap"
  shows "tab_ok s'"
proof (rule tab_ok_shrink [OF assms(1)])
  show "tab_entry s' = tab_entry s"
    using assms(2) by (intro tab_entry_cong) (simp add: put_post_def keep_def)
  show "nrec s IdxMap \<le> nrec s' IdxMap"
    using assms(2) by (simp add: put_post_def)
  show "slot_live s h i" if "slot_live s' h i" for h i
    using that assms(2-4) by (cases "i = pos") (auto simp: put_post_def live_def)
qed

lemma idx_set_tab_ok:
  assumes "tab_ok s" "idx_set_post pos x s s'" "pos \<le> nrec s IdxMap" "\<not> live s IdxMap pos"
  shows "tab_ok s'"
  unfolding tab_ok_def
proof (intro allI impI)
  fix h assume "h < BC_TABLE_SIZE"
  with assms(1) have e: "entry_ok s h (tab_entry s h)"
    by (simp add: tab_ok_def)
  have r: "rec_at s' IdxMap = (rec_at s IdxMap)(pos := x)" "nrec s' IdxMap = max (nrec s IdxMap) (Suc pos)"
    "tab_entry s' = (tab_entry s)(bc_table_hash (ix_hash x) := BC_TABLE_SEARCH_POS)"
    using assms(2) by (simp_all add: idx_set_post_def)
  show "entry_ok s' h (tab_entry s' h)"
  proof (cases "h = bc_table_hash (ix_hash x)")
    case False
    then have "slot_live s' h i \<Longrightarrow> slot_live s h i" for i
      using r assms(3) by (cases "i = pos") (auto simp: live_def)
    moreover have "nrec s IdxMap \<le> nrec s' IdxMap"
      using r by simp
    ultimately show ?thesis
      using entry_ok_mono [OF e] False r(3) by simp
  qed (simp add: r(3) entry_ok_def)
qed

end
