(* ===== verification/Bc_Arch.thy ===== *)
theory Bc_Arch
  imports Bc_Store Shcrc
begin

text \<open>
  The archive of a store (blockchain/bc_arch.c): the index records of blocks that have been
  taken out of the main index. It has no hash table; a search walks the records downwards.
\<close>

section \<open>The operations of bc\_arch.c\<close>

definition s_bc_arch_open :: "bc_state \<Rightarrow> (int \<times> bc_state) res" where
  "s_bc_arch_open = slot_open ArchMap ''arch'' 0"

definition bc_arch_open :: "bc_state \<Rightarrow> (int \<times> bc_state) res" where
  "bc_arch_open = locked ERR_NOLCK s_bc_arch_open"

definition bc_arch_close :: "bc_state \<Rightarrow> bc_state res" where
  "bc_arch_close = slot_close ArchMap"

definition bc_arch_crc :: "bc_hash \<Rightarrow> nat" where
  "bc_arch_crc hash = shcrc32 (take 32 hash)"

text \<open>The loop of \<open>bc_arch_find\<close> from position \<open>n - 1\<close> down.\<close>

fun arch_scan :: "bc_state \<Rightarrow> bc_hash \<Rightarrow> nat \<Rightarrow> (nat \<times> bc_idx) option res" where
  "arch_scan s hash 0 = Ret None"
| "arch_scan s hash (Suc i) =
     andThen (idx_size_at s ArchMap i) (\<lambda>sz.
     if sz = 0 then arch_scan s hash i
     else andThen (idx_hash_at s ArchMap i) (\<lambda>h.
       if bc_hash_cmp hash h then andThen (idx_at s ArchMap i) (\<lambda>x. Ret (Some (i, x)))
       else arch_scan s hash i))"

definition bc_arch_find :: "bc_hash \<Rightarrow> bc_state \<Rightarrow> ((int \<times> bc_idx \<times> nat) \<times> bc_state) res" where
  "bc_arch_find hash s =
     andThen (bc_arch_open s) (\<lambda>(err, s1).
     if err \<noteq> 0 then Ret ((err, idx_zero, 4294967295), s1)
     else andThen (hdr_of s1 ArchMap) (\<lambda>of'.
       andThen (arch_scan s1 hash (of' div 64)) (\<lambda>r.
         (case r of
            None \<Rightarrow> Ret ((ERR_NOENT, idx_zero, 4294967295), s1)
          | Some (i, x) \<Rightarrow> Ret ((0, x, i), s1)))))"

definition s_bc_arch_get :: "bool \<Rightarrow> nat \<Rightarrow> bc_state \<Rightarrow> ((int \<times> bc_idx) \<times> bc_state) res" where
  "s_bc_arch_get want pos s =
     andThen (bc_arch_open s) (\<lambda>(err, s1).
     if err \<noteq> 0 then Ret ((err, idx_zero), s1)
     else andThen (hdr_of s1 ArchMap) (\<lambda>of'.
       if pos \<ge> of' div 64 then Ret ((ERR_NOENT, idx_zero), s1)
       else andThen (idx_size_at s1 ArchMap pos) (\<lambda>sz.
         if sz = 0 then Ret ((ERR_NOENT, idx_zero), s1)
         else andThen (if want then idx_at s1 ArchMap pos else Ret idx_zero)
                (\<lambda>x. Ret ((0, x), s1)))))"

definition bc_arch_get :: "bool \<Rightarrow> nat \<Rightarrow> bc_state \<Rightarrow> ((int \<times> bc_idx) \<times> bc_state) res" where
  "bc_arch_get want pos = locked (ERR_NOLCK, idx_zero) (s_bc_arch_get want pos)"

definition bc_arch_next :: "bc_state \<Rightarrow> ((int \<times> nat) \<times> bc_state) res" where
  "bc_arch_next s =
     andThen (bc_arch_open s) (\<lambda>(err, s1).
     if err \<noteq> 0 then Ret ((err, 0), s1)
     else andThen (hdr_of s1 ArchMap) (\<lambda>of'. Ret ((0, of' div 64), s1)))"

definition s_bc_arch_set :: "nat \<Rightarrow> bc_idx \<Rightarrow> bc_state \<Rightarrow> (int \<times> bc_state) res" where
  "s_bc_arch_set pos arch s =
     andThen (bc_arch_open s) (\<lambda>(err, s1).
     if err \<noteq> 0 then Ret (err, s1)
     else andThen (bc_arch_get False pos s1) (\<lambda>((err, _), s2).
       if err \<noteq> ERR_NOENT then Ret (ERR_EXIST, s2)
       else andThen (hdr_of s2 ArchMap) (\<lambda>hof.
         (let of' = u32 (pos * 64) in
          andThen
            (if pos \<ge> hof div 64 \<and> of' + 64 > m_size (arch_map s2)
             then bc_map_alloc ArchMap (u32_of_int (int (of' + 64) - int (m_size (arch_map s2)))) s2
             else Ret (0, s2))
            (\<lambda>(err, s3).
              if err \<noteq> 0 then Ret (err, s3)
              else andThen (bc_map_write ArchMap of' (idx_bytes arch) s3) (\<lambda>(err, s4).
                if err \<noteq> 0 then Ret (err, s4) else Ret (0, s4)))))))"

definition bc_arch_set :: "nat \<Rightarrow> bc_idx \<Rightarrow> bc_state \<Rightarrow> (int \<times> bc_state) res" where
  "bc_arch_set pos arch = locked ERR_NOLCK (s_bc_arch_set pos arch)"

definition bc_arch_add :: "bc_idx \<Rightarrow> bc_state \<Rightarrow> (int \<times> bc_state) res" where
  "bc_arch_add arch s =
     andThen (bc_arch_next s) (\<lambda>((err, pos), s1).
     if err \<noteq> 0 then Ret (err, s1) else bc_arch_set pos arch s1)"

section \<open>The archive in a store that is in order\<close>

lemma bc_arch_open_calm:
  assumes "store_ok s"
  shows "wp (bc_arch_open s) (\<lambda>(e, s'). e = 0 \<and> store_ok s' \<and> keep {} s s' \<and> mapped ArchMap s')"
proof -
  have eq: "s_bc_arch_open = slot_open ArchMap (cext ArchMap) 0"
    by (simp add: s_bc_arch_open_def)
  show ?thesis
    unfolding bc_arch_open_def eq
    by (rule locked_lift [where f = "slot_open ArchMap (cext ArchMap) 0", OF record_map_open])
      (use assms in \<open>auto simp: store_ok_calm keep_lock\<close>)
qed

lemma arch_opened:
  assumes "store_ok s"
  obtains s1 where "bc_arch_open s = Ret (0, s1)" "store_ok s1" "keep {} s s1" "mapped ArchMap s1"
    "hdr_of s1 ArchMap = Ret (vof s1 ArchMap)" "vof s1 ArchMap div 64 = nrec s ArchMap"
    "rec_at s1 ArchMap = rec_at s ArchMap" "nrec s1 ArchMap = nrec s ArchMap"
proof -
  obtain s1 where o: "bc_arch_open s = Ret (0, s1)" "store_ok s1" "keep {} s s1" "mapped ArchMap s1"
    using bc_arch_open_calm [OF assms] by (auto simp: wp_iff)
  have "rec_at s1 ArchMap = rec_at s ArchMap" "nrec s1 ArchMap = nrec s ArchMap"
    using keep_rec [OF o(3), of ArchMap] by simp_all
  moreover have "hdr_of s1 ArchMap = Ret (vof s1 ArchMap)"
    using o(4) by (intro hdr_of_calm) simp_all
  ultimately show thesis
    using that o by (simp add: nrec_def)
qed

lemma s_bc_arch_get_calm:
  assumes "store_ok s"
  shows "wp (s_bc_arch_get w pos s) (\<lambda>((e, x), s'). store_ok s' \<and> keep {} s s' \<and> mapped ArchMap s' \<and>
     (if live s ArchMap pos then e = 0 \<and> (w \<longrightarrow> x = rec_at s ArchMap pos) else e = ERR_NOENT))"
proof -
  obtain s1 where o: "bc_arch_open s = Ret (0, s1)" "store_ok s1" "keep {} s s1" "mapped ArchMap s1"
    "hdr_of s1 ArchMap = Ret (vof s1 ArchMap)" "vof s1 ArchMap div 64 = nrec s ArchMap"
    "rec_at s1 ArchMap = rec_at s ArchMap" "nrec s1 ArchMap = nrec s ArchMap"
    by (rule arch_opened [OF assms])
  then show ?thesis
    using rec_read_calm [OF o(4), of pos]
    by (cases "pos < nrec s ArchMap") (simp_all add: s_bc_arch_get_def live_def)
qed

lemma bc_arch_get_calm:
  assumes "store_ok s"
  shows "wp (bc_arch_get w pos s) (\<lambda>((e, x), s'). store_ok s' \<and> keep {} s s' \<and> mapped ArchMap s' \<and>
     (if live s ArchMap pos then e = 0 \<and> (w \<longrightarrow> x = rec_at s ArchMap pos) else e = ERR_NOENT))"
  unfolding bc_arch_get_def
  by (rule locked_lift [where f = "s_bc_arch_get w pos", OF s_bc_arch_get_calm])
    (use assms in \<open>auto simp: store_ok_calm keep_lock\<close>)

lemma bc_arch_next_calm:
  assumes "store_ok s"
  shows "wp (bc_arch_next s) (\<lambda>((e, n), s'). store_ok s' \<and> keep {} s s' \<and>
     e = 0 \<and> n = nrec s ArchMap)"
  by (rule arch_opened [OF assms]) (simp add: bc_arch_next_def)

lemma s_bc_arch_set_calm:
  assumes "store_ok s" "cap ArchMap 64 s" "idx_wf x" "pos \<le> nrec s ArchMap"
  shows "wp (s_bc_arch_set pos x s) (\<lambda>(e, s'). if live s ArchMap pos then e = ERR_EXIST \<and> store_ok s' \<and> keep {} s s'
      else e = 0 \<and> put_post ArchMap pos x s s')"
proof -
  obtain s1 where o: "bc_arch_open s = Ret (0, s1)" "store_ok s1" "keep {} s s1"
    using bc_arch_open_calm [OF assms(1)] by (auto simp: wp_iff)
  have k1: "live s1 ArchMap = live s ArchMap"
    using keep_rec [OF o(3), of ArchMap] by simp
  obtain e y s2 where g: "bc_arch_get False pos s1 = Ret ((e, y), s2)" "store_ok s2" "keep {} s1 s2"
    "mapped ArchMap s2" "if live s ArchMap pos then e = 0 else e = ERR_NOENT"
    using bc_arch_get_calm [OF o(2), of False pos] k1 by (auto simp: wp_iff split: if_splits)
  have k2: "keep {} s s2"
    by (rule keep_trans [OF o(3) g(3)]) simp_all
  show ?thesis
  proof (cases "live s ArchMap pos")
    case True
    then show ?thesis
      using o(1) g k2 by (simp add: s_bc_arch_set_def)
  next
    case False
    have r2: "nrec s2 ArchMap = nrec s ArchMap" "cap ArchMap 64 s2"
      using keep_rec [OF k2, of ArchMap] cap_keep [OF k2] assms(2) by simp_all
    have h: "hdr_of s2 ArchMap = Ret (vof s2 ArchMap)"
      using g(4) by (intro hdr_of_calm) simp_all
    have "s_bc_arch_set pos x s =
      andThen (if pos \<ge> vof s2 ArchMap div 64 \<and> 64 * pos + 64 > m_size (get_map s2 ArchMap)
             then bc_map_alloc ArchMap (u32_of_int (int (64 * pos + 64) - int (m_size (get_map s2 ArchMap)))) s2
             else Ret (0, s2))
      (\<lambda>(err, s3). if err \<noteq> 0 then Ret (err, s3)
         else andThen (bc_map_write ArchMap (64 * pos) (idx_bytes x) s3) (\<lambda>(err, s4).
            if err \<noteq> 0 then Ret (err, s4) else Ret (0, s4)))"
      using g(5) False by (simp add: s_bc_arch_set_def o(1) g(1) h pos_u32 [OF assms(2,4)] Let_def)
    also have "wp \<dots> (\<lambda>(e, s'). e = 0 \<and> put_post ArchMap pos x s s')"
      by (rule rec_put_calm [OF g(2,4) _ r2(2) assms(3)])
        (use assms(4) r2(1) put_post_keep [OF k2] in simp_all)
    finally show ?thesis
      using False by simp
  qed
qed

lemma bc_arch_set_calm:
  assumes "store_ok s" "cap ArchMap 64 s" "idx_wf x" "pos \<le> nrec s ArchMap"
  shows "wp (bc_arch_set pos x s) (\<lambda>(e, s'). if live s ArchMap pos then e = ERR_EXIST \<and> store_ok s' \<and> keep {} s s'
      else e = 0 \<and> put_post ArchMap pos x s s')"
  unfolding bc_arch_set_def
  by (rule locked_lift [where f = "s_bc_arch_set pos x", OF s_bc_arch_set_calm])
    (use assms in \<open>auto simp: store_ok_calm keep_lock put_post_lock split: if_splits\<close>)

interpretation arch: record_store ArchMap bc_arch_get bc_arch_set bc_arch_next
proof
  show "store_ok s \<Longrightarrow> wp (bc_arch_get w pos s) (\<lambda>((e, x), s'). store_ok s' \<and> keep {} s s' \<and>
        (if live s ArchMap pos then e = 0 \<and> (w \<longrightarrow> x = rec_at s ArchMap pos) else e = ERR_NOENT))" for s w pos
    using bc_arch_get_calm [of s w pos] by (auto elim!: wp_mono)
  show "store_ok s \<Longrightarrow> wp (bc_arch_next s) (\<lambda>((e, n), s'). store_ok s' \<and> keep {} s s' \<and>
        e = 0 \<and> n = nrec s ArchMap)" for s
    by (rule bc_arch_next_calm)
  show "store_ok s \<Longrightarrow> cap ArchMap 64 s \<Longrightarrow> idx_wf x \<Longrightarrow> pos \<le> nrec s ArchMap \<Longrightarrow>
        wp (bc_arch_set pos x s) (\<lambda>(e, s'). store_ok s' \<and>
          (if live s ArchMap pos then e = ERR_EXIST \<and> keep {} s s'
           else e = 0 \<and> keep {ArchMap, TabMap} s s' \<and> rec_at s' ArchMap = (rec_at s ArchMap)(pos := x)
              \<and> nrec s' ArchMap = max (nrec s ArchMap) (Suc pos)))" for s x pos
    using bc_arch_set_calm [of s x pos]
    by (auto simp: put_post_def elim!: wp_mono intro: keep_mono split: if_splits)
qed

lemma bc_arch_add_calm:
  assumes "store_ok s" "cap ArchMap 64 s" "idx_wf x"
  shows "wp (bc_arch_add x s) (\<lambda>(e, s'). e = 0 \<and> put_post ArchMap (nrec s ArchMap) x s s')"
proof -
  obtain s1 where s1: "bc_arch_next s = Ret ((0, nrec s ArchMap), s1)" "store_ok s1" "keep {} s s1"
    using bc_arch_next_calm [OF assms(1)] by (auto simp: wp_iff)
  have "cap ArchMap 64 s1" "nrec s1 ArchMap = nrec s ArchMap" "\<not> live s1 ArchMap (nrec s ArchMap)"
    using assms(2) cap_keep [OF s1(3)] keep_rec [OF s1(3), of ArchMap] by (simp_all add: live_def)
  then show ?thesis
    using bc_arch_set_calm [OF s1(2) _ assms(3), of "nrec s ArchMap"] put_post_keep [OF s1(3)]
    by (auto simp: bc_arch_add_def s1(1) elim!: wp_mono)
qed

lemma arch_scan_calm:
  assumes "mapped ArchMap s" "n \<le> nrec s ArchMap"
  shows "arch_scan s hash n = Ret (map_option (\<lambda>i. (i, rec_at s ArchMap i)) (last_match s ArchMap hash n))"
  using assms(2)
proof (induction n)
  case (Suc n)
  then show ?case
    using rec_read_calm [OF assms(1), of n] by (simp del: option.map_sel)
qed simp

lemma bc_arch_find_calm:
  assumes "store_ok s"
  shows "wp (bc_arch_find hash s) (\<lambda>((e, x, i), s'). store_ok s' \<and> keep {} s s' \<and>
     (case last_match s ArchMap hash (nrec s ArchMap) of
        None \<Rightarrow> e = ERR_NOENT
      | Some p \<Rightarrow> e = 0 \<and> i = p \<and> x = rec_at s ArchMap p))"
proof -
  obtain s1 where o: "bc_arch_open s = Ret (0, s1)" "store_ok s1" "keep {} s s1" "mapped ArchMap s1"
    "hdr_of s1 ArchMap = Ret (vof s1 ArchMap)" "vof s1 ArchMap div 64 = nrec s ArchMap"
    "rec_at s1 ArchMap = rec_at s ArchMap" "nrec s1 ArchMap = nrec s ArchMap"
    by (rule arch_opened [OF assms])
  have "last_match s1 ArchMap hash m = last_match s ArchMap hash m" for m
    by (induction m) (simp_all add: o(7))
  then show ?thesis
    using o arch_scan_calm [OF o(4), of "nrec s ArchMap" hash]
    by (simp add: bc_arch_find_def split: option.splits)
qed

end
