(* ===== verification/Bc_Block.thy ===== *)
theory Bc_Block
  imports Bc_Index Bc_Arch
begin

text \<open>
  The record store itself (blockchain/bc_block.c): records of bytes addressed by position and
  by hash. A record's bytes live in a journal (one map per 65536 positions), its index record
  in the index, and its index record moves to the archive when the record is cleared.

  \<open>raw_data\<close> and \<open>data_len\<close> are one byte list. Lengths are meant to be below 2 GB, the range
  of the \<open>int\<close> the code passes them in.
\<close>

section \<open>Opening and closing a store\<close>

abbreviation BC_BLOCKS_PER_JOURNAL :: int where "BC_BLOCKS_PER_JOURNAL \<equiv> 65536"
abbreviation BCMAP_IDLE_TIME :: nat where "BCMAP_IDLE_TIME \<equiv> 240"
abbreviation BC_MAX_NAME_LENGTH :: nat where "BC_MAX_NAME_LENGTH \<equiv> 136"

text \<open>
  \<open>bc_open\<close>: the store is a fresh \<open>bc_t\<close> (all maps zero, the mutex initialised) over the
  operating system state of \<open>s\<close>.
\<close>

definition bc_open :: "string \<Rightarrow> bc_state \<Rightarrow> (int \<times> bc_state) res" where
  "bc_open name s =
     (case sys s of (e, s1) \<Rightarrow>
        if e \<noteq> 0 then Ret (ERR_NOMEM, s1)
        else andThen
          (bc_idx_open (s1\<lparr>bc_name := take (BC_MAX_NAME_LENGTH - 1) name, idx_map := bc_map_zero,
             tab_map := bc_map_zero, arch_map := bc_map_zero, data_map := [], bc_lk := 0\<rparr>))
          (\<lambda>(err, s2). if err \<noteq> 0 then Ret (err, s2) else Ret (0, s2)))"

text \<open>The loop of \<open>_bc_close\<close> over the data maps from \<open>i\<close> on.\<close>

fun close_data :: "nat \<Rightarrow> nat \<Rightarrow> bc_state \<Rightarrow> bc_state res" where
  "close_data i 0 s = Ret s"
| "close_data i (Suc n) s = andThen (bc_map_close (DataMap i) s) (close_data (Suc i) n)"

definition bc_close :: "bc_state \<Rightarrow> bc_state res" where
  "bc_close s =
     (case bc_lock s of (_, s1) \<Rightarrow>
        andThen (bc_idx_close s1) (\<lambda>s2.
        andThen (bc_table_close s2) (\<lambda>s3.
        andThen (close_data 0 (length (data_map s3)) s3) (\<lambda>s4.
          Ret (bc_unlock (s4\<lparr>data_map := []\<rparr>))))))"

section \<open>Journals\<close>

definition bc_journal :: "int \<Rightarrow> nat" where
  "bc_journal pos =
     u32_of_int ((if pos \<ge> 0 then pos div BC_BLOCKS_PER_JOURNAL
                  else - ((- pos) div BC_BLOCKS_PER_JOURNAL)) + 1)"

text \<open>\<open>bc_alloc\<close> does not look at the result of its calloc: a refused one is a null pointer.\<close>

definition grow_data_map :: "nat \<Rightarrow> bc_state \<Rightarrow> bc_state res" where
  "grow_data_map jrnl s =
     (if jrnl \<ge> length (data_map s)
      then (case sys s of (e, s1) \<Rightarrow>
        if e \<noteq> 0 \<or> u32 (jrnl + 1) \<le> jrnl then Segv
        else Ret (s1\<lparr>data_map := data_map s1
               @ replicate (jrnl + 1 - length (data_map s1)) bc_map_zero\<rparr>))
      else Ret s)"

definition bc_alloc :: "nat \<Rightarrow> bc_state \<Rightarrow> (int \<times> bc_state) res" where
  "bc_alloc jrnl s =
     andThen (grow_data_map jrnl s) (\<lambda>s1.
       (let s2 = (if m_ext (get_map s1 (DataMap jrnl)) = []
                  then set_ext (DataMap jrnl) (udec jrnl) s1 else s1)
        in andThen (bc_map_alloc (DataMap jrnl) 0 s2) (\<lambda>(err, s3).
          if err \<noteq> 0 then Ret (err, s3) else Ret (0, s3))))"

section \<open>Writing records\<close>

text \<open>
  \<open>map = bc->data_map + jrnl\<close> with an \<open>int jrnl\<close>: a negative one points outside the array.
  The code after \<open>bc_alloc\<close> that fills in an empty \<open>map->ext\<close> never runs, as \<open>bc_alloc\<close> has
  set it.
\<close>

definition s_bc_rewrite :: "nat \<Rightarrow> bc_hash \<Rightarrow> byte list \<Rightarrow> bc_state \<Rightarrow> (int \<times> bc_state) res" where
  "s_bc_rewrite pos hash data s =
     (let jrnl = s32 (bc_journal (s32 pos)) in
      andThen (bc_alloc (u32_of_int jrnl) s) (\<lambda>(err, s1).
      if err \<noteq> 0 then Ret (err, s1)
      else if jrnl < 0 then Segv
      else andThen (bc_idx_get True pos s1) (\<lambda>((err, idx), s2).
        if err \<noteq> 0 then Ret (err, s2)
        else if ix_size idx < u32 (length data) then Ret (ERR_EXIST, s2)
        else andThen (bc_idx_reset pos (idx\<lparr>ix_size := u32 (length data), ix_crc := shcrc32 data\<rparr>) s2)
          (\<lambda>(err, s3).
            if err \<noteq> 0 then Ret (err, s3)
            else andThen (bc_map_write (DataMap (nat jrnl)) (ix_of idx) data s3) (\<lambda>(err, s4).
              if err \<noteq> 0
              then andThen (bc_idx_clear pos s4) (\<lambda>(_, s5).
                   andThen (bc_table_reset hash s5) (\<lambda>(_, s6). Ret (err, s6)))
              else Ret (0, s4))))))"

definition bc_rewrite :: "nat \<Rightarrow> bc_hash \<Rightarrow> byte list \<Rightarrow> bc_state \<Rightarrow> (int \<times> bc_state) res" where
  "bc_rewrite pos hash data = locked ERR_NOLCK (s_bc_rewrite pos hash data)"

text \<open>The index record of fresh data at the end of a journal.\<close>

definition fresh_idx :: "nat \<Rightarrow> nat \<Rightarrow> bc_hash \<Rightarrow> byte list \<Rightarrow> bc_idx" where
  "fresh_idx jrnl of' hash data =
     idx_zero\<lparr>ix_jrnl := jrnl, ix_size := u32 (length data), ix_of := of', ix_crc := shcrc32 data,
              ix_hash := take 32 hash\<rparr>"

definition s_bc_write :: "nat \<Rightarrow> bc_hash \<Rightarrow> byte list \<Rightarrow> bc_state \<Rightarrow> (int \<times> bc_state) res" where
  "s_bc_write pos hash data s =
     (let jrnl = s32 (bc_journal (s32 pos)) in
      andThen (bc_alloc (u32_of_int jrnl) s) (\<lambda>(err, s1).
      if err \<noteq> 0 then Ret (err, s1)
      else if jrnl < 0 then Segv
      else andThen (hdr_of s1 (DataMap (nat jrnl))) (\<lambda>of'.
        andThen (bc_idx_set pos (fresh_idx (u32_of_int jrnl) of' hash data) s1) (\<lambda>(err, s2).
          if err \<noteq> 0
          then (if err \<noteq> ERR_EXIST then Ret (err, s2)
                else andThen (s_bc_rewrite pos hash data s2) (\<lambda>(err, s3).
                  if err \<noteq> 0 then Ret (err, s3) else Ret (0, s3)))
          else andThen (bc_map_append (DataMap (nat jrnl)) data s2) (\<lambda>(err, s3).
            if err \<noteq> 0
            then andThen (bc_idx_clear pos s3) (\<lambda>(_, s4).
                 andThen (bc_table_reset hash s4) (\<lambda>(_, s5). Ret (err, s5)))
            else Ret (0, s3))))))"

definition bc_write :: "nat \<Rightarrow> bc_hash \<Rightarrow> byte list \<Rightarrow> bc_state \<Rightarrow> (int \<times> bc_state) res" where
  "bc_write pos hash data = locked ERR_NOLCK (s_bc_write pos hash data)"

definition s_bc_append :: "bc_hash \<Rightarrow> byte list \<Rightarrow> bc_state \<Rightarrow> (int \<times> bc_state) res" where
  "s_bc_append hash data s =
     andThen (bc_idx_open s) (\<lambda>(err, s1).
     if err \<noteq> 0 then Ret (err, s1)
     else andThen (bc_idx_next s1) (\<lambda>((err, pos), s2).
       if err \<noteq> 0 then Ret (err, s2)
       else andThen (bc_write pos hash data s2) (\<lambda>(err, s3).
         if err \<noteq> 0 then Ret (err, s3) else Ret (0, s3))))"

definition bc_append :: "bc_hash \<Rightarrow> byte list \<Rightarrow> bc_state \<Rightarrow> (int \<times> bc_state) res" where
  "bc_append hash data = locked ERR_NOLCK (s_bc_append hash data)"

definition s_bc_arch_write :: "bc_hash \<Rightarrow> byte list \<Rightarrow> bc_state \<Rightarrow> (int \<times> bc_state) res" where
  "s_bc_arch_write hash data s =
     andThen (bc_idx_next s) (\<lambda>((err, pos), s1).
     if err \<noteq> 0 then Ret (err, s1)
     else (let jrnl = s32 (bc_journal (s32 pos)) in
       andThen (bc_alloc (u32_of_int jrnl) s1) (\<lambda>(err, s2).
       if err \<noteq> 0 then Ret (err, s2)
       else if jrnl < 0 then Segv
       else andThen (hdr_of s2 (DataMap (nat jrnl))) (\<lambda>of'.
         andThen (bc_map_append (DataMap (nat jrnl)) data s2) (\<lambda>(err, s3).
           if err < 0 then Ret (err, s3)
           else andThen (bc_arch_add (fresh_idx (u32_of_int jrnl) of' hash data) s3) (\<lambda>(err, s4).
             if err < 0 then Ret (err, s4) else Ret (0, s4)))))))"

definition bc_arch_write :: "bc_hash \<Rightarrow> byte list \<Rightarrow> bc_state \<Rightarrow> (int \<times> bc_state) res" where
  "bc_arch_write hash data = locked ERR_NOLCK (s_bc_arch_write hash data)"

section \<open>Reading records\<close>

text \<open>\<open>buf\<close> is the caller's buffer before the call, the returned list the buffer after it.\<close>

definition s_bc_read :: "nat \<Rightarrow> byte list \<Rightarrow> bc_state \<Rightarrow> ((int \<times> byte list) \<times> bc_state) res" where
  "s_bc_read pos buf s =
     andThen (bc_idx_get True pos s) (\<lambda>((err, idx), s1).
     if err \<noteq> 0 then Ret ((err, buf), s1)
     else andThen (bc_alloc (ix_jrnl idx) s1) (\<lambda>(err, s2).
       if err \<noteq> 0 then Ret ((err, buf), s2)
       else
         (let sl = DataMap (ix_jrnl idx); zero = replicate (length buf) 0;
              n = min (length buf) (ix_size idx) in
          if ix_of idx \<ge> m_size (get_map s2 sl) then Ret ((ERR_IO, zero), s2)
          else andThen (raw_read s2 sl (ix_of idx) (ix_size idx)) (\<lambda>bs.
            if shcrc32 bs \<noteq> ix_crc idx then Ret ((ERR_ILSEQ, zero), s2)
            else Ret ((0, take n bs @ drop n zero), s2)))))"

definition bc_read :: "nat \<Rightarrow> byte list \<Rightarrow> bc_state \<Rightarrow> ((int \<times> byte list) \<times> bc_state) res" where
  "bc_read pos buf = locked (ERR_NOLCK, buf) (s_bc_read pos buf)"

definition s_bc_get :: "nat \<Rightarrow> bc_state \<Rightarrow> ((int \<times> byte list) \<times> bc_state) res" where
  "s_bc_get pos s =
     andThen (bc_idx_get True pos s) (\<lambda>((err, idx), s1).
     if err \<noteq> 0 then Ret ((err, []), s1)
     else (case sys s1 of (e, s2) \<Rightarrow>
       if e \<noteq> 0 then Ret ((ERR_NOMEM, []), s2)
       else andThen (bc_read pos (replicate (ix_size idx) 0) s2) (\<lambda>((err, data), s3).
         if err \<noteq> 0 then Ret ((err, []), s3) else Ret ((0, data), s3))))"

definition bc_get :: "nat \<Rightarrow> bc_state \<Rightarrow> ((int \<times> byte list) \<times> bc_state) res" where
  "bc_get pos = locked (ERR_NOLCK, []) (s_bc_get pos)"

definition s_bc_arch :: "nat \<Rightarrow> bc_state \<Rightarrow> ((int \<times> byte list) \<times> bc_state) res" where
  "s_bc_arch pos s =
     andThen (bc_arch_get True pos s) (\<lambda>((err, idx), s1).
     if err \<noteq> 0 then Ret ((err, []), s1)
     else (case sys s1 of (e, s2) \<Rightarrow>
       if e \<noteq> 0 then Ret ((ERR_NOMEM, []), s2)
       else andThen (bc_alloc (ix_jrnl idx) s2) (\<lambda>(err, s3).
         if err \<noteq> 0 then Ret ((err, []), s3)
         else andThen (raw_read s3 (DataMap (ix_jrnl idx)) (ix_of idx) (ix_size idx)) (\<lambda>bs.
           if shcrc32 bs \<noteq> ix_crc idx then Ret ((ERR_ILSEQ, []), s3)
           else Ret ((0, bs), s3)))))"

definition bc_arch :: "nat \<Rightarrow> bc_state \<Rightarrow> ((int \<times> byte list) \<times> bc_state) res" where
  "bc_arch pos = locked (ERR_NOLCK, []) (s_bc_arch pos)"

definition bc_get_hash :: "nat \<Rightarrow> bc_state \<Rightarrow> ((int \<times> bc_hash) \<times> bc_state) res" where
  "bc_get_hash pos s =
     andThen (bc_idx_get True pos s) (\<lambda>((err, idx), s1).
     if err \<noteq> 0 then Ret ((err, []), s1) else Ret ((0, ix_hash idx), s1))"

definition bc_find :: "bc_hash \<Rightarrow> bc_state \<Rightarrow> ((int \<times> int) \<times> bc_state) res" where
  "bc_find hash s =
     andThen (bc_idx_find False hash s) (\<lambda>((err, _, pos), s1).
     if err \<noteq> 0 then Ret ((err, pos), s1) else Ret ((0, pos), s1))"

section \<open>Clearing and purging\<close>

definition bc_clear :: "nat \<Rightarrow> bc_state \<Rightarrow> (int \<times> bc_state) res" where
  "bc_clear pos s =
     andThen (bc_idx_get True pos s) (\<lambda>((err, idx), s1).
     if err \<noteq> 0 then Ret (err, s1)
     else andThen (bc_arch_add idx s1) (\<lambda>(err, s2).
       if err \<noteq> 0 then Ret (err, s2)
       else andThen (bc_idx_clear pos s2) (\<lambda>(err, s3).
         if err \<noteq> 0 then Ret (err, s3) else Ret (0, s3))))"

text \<open>
  The loop of \<open>_bc_purge\<close> counts an unsigned \<open>t_pos\<close> down while it is at least \<open>pos\<close>;
  \<open>fuel\<close> bounds the number of rounds and running out of it is \<open>Hang\<close>.
\<close>

fun purge_loop :: "nat \<Rightarrow> nat \<Rightarrow> nat \<Rightarrow> bc_state \<Rightarrow> bc_state res" where
  "purge_loop 0 t_pos pos s = Hang"
| "purge_loop (Suc fuel) t_pos pos s =
     (if t_pos < pos then Ret s
      else andThen (bc_clear t_pos s) (\<lambda>(_, s1).
        andThen (bc_idx_get True t_pos s1) (\<lambda>((err, t_idx), s2).
          andThen (if err = 0 then bc_table_reset (ix_hash t_idx) s2 else Ret (0, s2)) (\<lambda>(_, s3).
            purge_loop fuel (u32_of_int (int t_pos - 1)) pos s3))))"

definition s_bc_purge :: "nat \<Rightarrow> nat \<Rightarrow> bc_state \<Rightarrow> (int \<times> bc_state) res" where
  "s_bc_purge fuel pos s =
     andThen (bc_idx_get True pos s) (\<lambda>((err, idx), s1).
     if err \<noteq> 0 then Ret (err, s1)
     else andThen (bc_alloc (ix_jrnl idx) s1) (\<lambda>(err, s2).
       if err \<noteq> 0 then Ret (err, s2)
       else andThen (raw_read s2 (DataMap (ix_jrnl idx)) (ix_of idx) (ix_size idx)) (\<lambda>bs.
         if shcrc32 bs \<noteq> ix_crc idx then Ret (ERR_ILSEQ, s2)
         else andThen (bc_idx_next s2) (\<lambda>((_, max_rec), s3).
           if max_rec = 0 then Ret (0, s3)
           else andThen (purge_loop fuel (max_rec - 1) pos s3) (\<lambda>s4. Ret (0, s4))))))"

definition bc_purge :: "nat \<Rightarrow> nat \<Rightarrow> bc_state \<Rightarrow> (int \<times> bc_state) res" where
  "bc_purge fuel pos = locked ERR_NOLCK (s_bc_purge fuel pos)"

section \<open>Idle maps\<close>

text \<open>The first open data map from position \<open>i\<close> on that has not been used for 240 seconds.\<close>

fun idle_map :: "nat \<Rightarrow> nat \<Rightarrow> bc_map list \<Rightarrow> nat option" where
  "idle_map now i [] = None"
| "idle_map now i (m # ms) =
     (if m_fd m \<noteq> 0 \<and> m_stamp m + BCMAP_IDLE_TIME \<le> now then Some i else idle_map now (Suc i) ms)"

definition bc_idle :: "bc_state \<Rightarrow> bc_state res" where
  "bc_idle s =
     (case bc_trylock s of (ok, s1) \<Rightarrow>
        if \<not> ok then Ret s1
        else (let s2 = bc_unlock s1 in
          case idle_map (ds_now (os_desc s1)) 0 (data_map s1) of
            None \<Rightarrow> Ret s2
          | Some i \<Rightarrow>
            (case bc_trylock s2 of (ok2, s3) \<Rightarrow>
               if ok2 then andThen (bc_map_close (DataMap i) s3) (\<lambda>s4. Ret (bc_unlock s4))
               else Ret s3)))"

end
