(* ===== verification/Bc_Block_Props.thy ===== *)
theory Bc_Block_Props
  imports Bc_Block
begin

text \<open>
  What the record store promises. \<open>idx_abs\<close> and \<open>arch_abs\<close> read a store as two sequences of
  records (hash and bytes); \<open>chain_ok\<close> is the invariant of a whole store, and the lemmas say
  what each public operation does to the two sequences.
\<close>

section \<open>Journals of a store in order\<close>

lemma keep_intro_data:
  assumes "bc_name s' = bc_name s" "os_base s' = os_base s" "bc_lk s' = bc_lk s"
    "os_desc s' = os_desc s" "length (data_map s) \<le> length (data_map s')"
    "\<And>sl. open_at sl s \<Longrightarrow> open_at sl s'" "vfile s' = vfile s"
  shows "keep {} s s'"
  using assms vfile_view [OF assms(7)] by (simp add: keep_def)

lemma grow_data_map_calm:
  assumes "store_ok s" "jrnl < 4294967295"
  shows "wp (grow_data_map jrnl s) (\<lambda>s1. store_ok s1 \<and> keep {} s s1 \<and> valid_slot s1 (DataMap jrnl)
     \<and> vfile s1 = vfile s)"
proof (cases "jrnl < length (data_map s)")
  case True
  then show ?thesis
    using assms by (simp add: grow_data_map_def)
next
  case False
  let ?dm = "data_map s @ replicate (jrnl + 1 - length (data_map s)) bc_map_zero"
  let ?s = "s\<lparr>data_map := ?dm\<rparr>"
  have run: "grow_data_map jrnl s = Ret ?s"
    using False assms store_ok_calm [OF assms(1)] by (simp add: grow_data_map_def)
  have vf: "vfile ?s = vfile s"
    by (simp add: vfile_def bc_path_def fun_eq_iff)
  have gm: "get_map ?s t = (if valid_slot s t then get_map s t else bc_map_zero)" if "valid_slot ?s t" for t
    using that by (cases t) (auto simp: nth_append)
  have ok: "map_ok ?s t" if "valid_slot ?s t" for t
  proof (cases "valid_slot s t")
    case True
    then have "map_ok s t"
      using assms(1) by (simp add: store_ok_def bc_inv_def)
    then show ?thesis
      using True gm [OF that] vf by (simp add: map_ok_def)
  next
    case False
    then show ?thesis
      using gm [OF that] by (simp add: map_ok_def bc_map_zero_def)
  qed
  have inv: "bc_inv ?s"
    using assms(1) ok vf by (simp add: store_ok_def bc_inv_def) (simp add: bc_path_def)
  have "store_ok ?s"
    using assms(1) inv vfile_view [OF vf] by (simp add: store_ok_def)
  moreover have "keep {} s ?s"
  proof (rule keep_intro_data)
    show "open_at sl ?s" if "open_at sl s" for sl
    proof -
      have "valid_slot s sl" "valid_slot ?s sl"
        using that by (cases sl; auto simp: open_at_def)+
      then show ?thesis
        using that gm [of sl] by (simp add: open_at_def)
    qed
  qed (use vf in simp_all)
  ultimately show ?thesis
    using run vf by simp
qed

lemma bc_alloc_calm:
  assumes "store_ok s" "jrnl < 4294967295" "room (DataMap jrnl) 0 s"
  shows "wp (bc_alloc jrnl s) (\<lambda>(e, s'). e = 0 \<and> store_ok s' \<and> mapped (DataMap jrnl) s'
     \<and> keep {DataMap jrnl} s s' \<and> vbytes s' (DataMap jrnl) = vbytes s (DataMap jrnl)
     \<and> vof s' (DataMap jrnl) = vof s (DataMap jrnl)
     \<and> vsize s' (DataMap jrnl) = alloc_size s (DataMap jrnl) 0)"
proof -
  let ?sl = "DataMap jrnl"
  obtain s1 where g: "grow_data_map jrnl s = Ret s1" "store_ok s1" "keep {} s s1" "valid_slot s1 ?sl"
    "vfile s1 = vfile s"
    using grow_data_map_calm [OF assms(1,2)] by (auto simp: wp_iff)
  have b: "bc_inv s1" "os_faults s1 = []" "map_ok s1 ?sl"
    using g(2,4) by (simp_all add: store_ok_def bc_inv_def)
  define s2 where "s2 = (if m_ext (get_map s1 ?sl) = [] then set_ext ?sl (udec jrnl) s1 else s1)"
  have s2: "ready ?sl s2 \<and> keep {} s1 s2 \<and> vfile s2 = vfile s1 \<and> (\<forall>t. t \<noteq> ?sl \<longrightarrow> get_map s2 t = get_map s1 t)"
  proof (cases "m_ext (get_map s1 ?sl) = []")
    case True
    then have fd: "m_fd (get_map s1 ?sl) = 0"
      using b(3) udec_nonempty [symmetric, of jrnl] by (auto simp: map_ok_def Let_def)
    note e = set_ext_ready [OF b(1,2) g(4) fd]
    have "keep {} s1 (set_ext ?sl (cext ?sl) s1)"
    proof (rule keep_intro_data [OF _ _ _ _ _ _ e(2)])
      show "open_at t (set_ext ?sl (cext ?sl) s1)" if "open_at t s1" for t
        using that fd by (cases "t = ?sl") (auto simp: open_at_def set_ext_def simp del: set_map.simps get_map.simps)
    qed (simp_all add: set_ext_def)
    then show ?thesis
      using e True by (simp add: s2_def)
  next
    case False
    then show ?thesis
      using b g(4) by (simp add: s2_def ready_def map_ok_def Let_def)
  qed
  have "room ?sl 0 s2"
    using assms(3) s2 g(5) vfile_view(5) [of s2 s] by simp
  then obtain s3 where a: "bc_map_alloc ?sl 0 s2 = Ret (0, s3)" "alloc_post ?sl 0 s2 s3"
    using bc_map_alloc_calm s2 by (fastforce simp: wp_iff)
  have r3: "ready ?sl s3"
    using alloc_post_ready [OF _ a(2)] s2 by simp
  have "store_ok s3"
    by (rule store_ok_frame [OF g(2), of ?sl])
      (use a(2) s2 readyD(1,2) [OF r3] in \<open>auto simp: alloc_post_def frame_def\<close>)
  moreover have "keep {?sl} s s3"
    using s2 by (intro keep_trans [OF keep_trans [OF g(3), of "{}" s2 "{}"] alloc_post_keep [OF _ a(2)]]) auto
  moreover have "bc_alloc jrnl s = Ret (0, s3)"
    unfolding bc_alloc_def g(1) andThen.simps Let_def s2_def [symmetric] a(1) by simp
  ultimately show ?thesis
    using a(2) r3 s2 g(5) vfile_view [of s2 s] by (simp add: alloc_post_def)
qed

section \<open>The invariant and the abstract view\<close>

definition rec_data :: "bc_state \<Rightarrow> bc_idx \<Rightarrow> byte list" where
  "rec_data s x = view_bytes s (DataMap (ix_jrnl x)) (ix_of x) (ix_size x)"

definition rec_sound :: "bc_state \<Rightarrow> bc_idx \<Rightarrow> bool" where
  "rec_sound s x \<longleftrightarrow> ix_jrnl x < 4294967295
     \<and> ix_of x + ix_size x \<le> vof s (DataMap (ix_jrnl x)) \<and> shcrc32 (rec_data s x) = ix_crc x"

text \<open>The bytes of two records do not overlap.\<close>

definition apart :: "bc_idx \<Rightarrow> bc_idx \<Rightarrow> bool" where
  "apart x y \<longleftrightarrow> ix_jrnl x \<noteq> ix_jrnl y \<or> ix_of x + ix_size x \<le> ix_of y \<or> ix_of y + ix_size y \<le> ix_of x"

text \<open>The records of a store, each with the place that owns it.\<close>

definition owns :: "bc_state \<Rightarrow> bc_slot \<times> nat \<Rightarrow> bc_idx \<Rightarrow> bool" where
  "owns s p x \<longleftrightarrow> (fst p = IdxMap \<or> fst p = ArchMap) \<and> live s (fst p) (snd p) \<and> x = rec_at s (fst p) (snd p)"

definition recs_ok :: "bc_state \<Rightarrow> bool" where
  "recs_ok s \<longleftrightarrow> (\<forall>p x. owns s p x \<longrightarrow> rec_sound s x)
     \<and> (\<forall>p q x y. owns s p x \<longrightarrow> owns s q y \<longrightarrow> p \<noteq> q \<longrightarrow> apart x y)"

definition chain_ok :: "bc_state \<Rightarrow> bool" where
  "chain_ok s \<longleftrightarrow> store_ok s \<and> tab_ok s \<and> recs_ok s"

definition abs_of :: "bc_state \<Rightarrow> bc_slot \<Rightarrow> (bc_hash \<times> byte list) option list" where
  "abs_of s sl = map (\<lambda>i. if live s sl i then Some (ix_hash (rec_at s sl i), rec_data s (rec_at s sl i))
                          else None) [0..<nrec s sl]"

abbreviation idx_abs :: "bc_state \<Rightarrow> (bc_hash \<times> byte list) option list" where
  "idx_abs s \<equiv> abs_of s IdxMap"

abbreviation arch_abs :: "bc_state \<Rightarrow> (bc_hash \<times> byte list) option list" where
  "arch_abs s \<equiv> abs_of s ArchMap"

text \<open>Every map but the table can take \<open>n\<close> more bytes.\<close>

definition roomy :: "nat \<Rightarrow> bc_state \<Rightarrow> bool" where
  "roomy n s \<longleftrightarrow> (\<forall>sl. sl \<noteq> TabMap \<longrightarrow> cap sl n s)"

lemma roomy_mono: "roomy n s \<Longrightarrow> m \<le> n \<Longrightarrow> roomy m s"
  unfolding roomy_def using cap_mono by blast

lemma roomy_cap: "roomy n s \<Longrightarrow> sl \<noteq> TabMap \<Longrightarrow> m \<le> n \<Longrightarrow> cap sl m s"
  unfolding roomy_def using cap_mono by blast

text \<open>
  \<open>same s s'\<close>: the contents of all maps are the same, only their sizes may differ, and no map
  grows beyond the bound of \<open>cap\<close>.
\<close>

definition same :: "bc_state \<Rightarrow> bc_state \<Rightarrow> bool" where
  "same s s' \<longleftrightarrow> bc_lk s' = bc_lk s \<and> (\<forall>sl. vbytes s' sl = vbytes s sl \<and> vof s' sl = vof s sl
     \<and> (vsize s sl \<le> 3000000000 \<longrightarrow> vsize s' sl \<le> 3000000000))"

lemma same_views:
  assumes "same s s'"
  shows "view_bytes s' = view_bytes s" "rec_at s' = rec_at s" "nrec s' = nrec s" "live s' = live s"
    "rec_data s' = rec_data s" "tab_entry s' = tab_entry s" "abs_of s' = abs_of s" "vof s' = vof s"
    "owns s' = owns s" "rec_sound s' = rec_sound s" "recs_ok s' = recs_ok s" "tab_ok s' = tab_ok s"
proof -
  show v: "view_bytes s' = view_bytes s" "vof s' = vof s"
    using assms by (simp_all add: same_def view_bytes_def fun_eq_iff)
  show r: "rec_at s' = rec_at s" "nrec s' = nrec s" "rec_data s' = rec_data s" "tab_entry s' = tab_entry s"
    by (simp_all add: rec_at_def nrec_def rec_data_def tab_entry_def v fun_eq_iff)
  show l: "live s' = live s"
    by (simp add: live_def r fun_eq_iff)
  show "abs_of s' = abs_of s"
    by (simp add: abs_of_def l r fun_eq_iff)
  show o: "owns s' = owns s" "rec_sound s' = rec_sound s"
    by (simp_all add: owns_def rec_sound_def l r v fun_eq_iff)
  show "recs_ok s' = recs_ok s" "tab_ok s' = tab_ok s"
    by (simp_all add: recs_ok_def tab_ok_def entry_ok_def l r o)
qed

lemma keep_same: "keep {} s s' \<Longrightarrow> same s s'"
  by (simp add: keep_def same_def)

lemma same_trans: "same a b \<Longrightarrow> same b c \<Longrightarrow> same a c"
  by (simp add: same_def)

lemma same_roomy: "same s s' \<Longrightarrow> roomy n s \<Longrightarrow> roomy n s'"
  by (simp add: same_def roomy_def cap_def)

lemma same_refl [simp]: "same s s"
  by (simp add: same_def)

lemma same_lock: "same (s\<lparr>bc_lk := Suc (bc_lk s)\<rparr>) s2 \<Longrightarrow> same s (bc_unlock s2)"
  by (simp add: same_def) (simp add: bc_unlock_def)

lemma same_unlock [simp]:
  "tab_ok (s\<lparr>bc_lk := n\<rparr>) = tab_ok s" "tab_ok (bc_unlock s) = tab_ok s"
  "recs_ok (s\<lparr>bc_lk := n\<rparr>) = recs_ok s" "recs_ok (bc_unlock s) = recs_ok s"
  "abs_of (s\<lparr>bc_lk := n\<rparr>) = abs_of s" "abs_of (bc_unlock s) = abs_of s"
  "rec_data (s\<lparr>bc_lk := n\<rparr>) = rec_data s" "rec_data (bc_unlock s) = rec_data s"
  "roomy k (s\<lparr>bc_lk := n\<rparr>) = roomy k s" "roomy k (bc_unlock s) = roomy k s"
  by (simp_all add: tab_ok_def entry_ok_def recs_ok_def owns_def rec_sound_def rec_data_def abs_of_def
      roomy_def fun_eq_iff)

lemma chain_ok_lock [simp]: "chain_ok (s\<lparr>bc_lk := n\<rparr>) = chain_ok s" "chain_ok (bc_unlock s) = chain_ok s"
  by (simp_all add: chain_ok_def)

lemma chain_ok_same: "chain_ok s \<Longrightarrow> same s s' \<Longrightarrow> store_ok s' \<Longrightarrow> chain_ok s'"
  by (simp add: chain_ok_def same_views)

lemma keep_same1:
  assumes "keep {sl} s s'" "vbytes s' sl = vbytes s sl" "vof s' sl = vof s sl" "vsize s' sl \<le> 3000000000"
  shows "same s s'"
proof -
  have "vbytes s' t = vbytes s t \<and> vof s' t = vof s t \<and> (vsize s t \<le> 3000000000 \<longrightarrow> vsize s' t \<le> 3000000000)" for t
    using assms keepD [OF assms(1), of t] by (cases "t = sl") auto
  then show ?thesis
    using assms(1) by (simp add: same_def keep_def)
qed

lemma alloc_same:
  assumes "store_ok s" "jrnl < 4294967295" "cap (DataMap jrnl) n s"
  shows "wp (bc_alloc jrnl s) (\<lambda>(e, s'). e = 0 \<and> store_ok s' \<and> mapped (DataMap jrnl) s' \<and> same s s'
     \<and> keep {DataMap jrnl} s s' \<and> vsize s' (DataMap jrnl) \<le> 3000000000)"
proof -
  have inv: "bc_inv s"
    using assms(1) by (simp add: store_ok_def)
  note c = cap_alloc [OF inv cap_mono [OF assms(3), of 0]]
  show ?thesis
    using bc_alloc_calm [OF assms(1,2) c(1)] c(2) keep_same1 by (auto elim!: wp_mono)
qed

section \<open>Reading\<close>

lemma rec_sound_read:
  assumes "store_ok s" "mapped (DataMap (ix_jrnl x)) s" "rec_sound s x"
  shows "raw_read s (DataMap (ix_jrnl x)) (ix_of x) (ix_size x) = Ret (rec_data s x)"
    "ix_of x < m_size (get_map s (DataMap (ix_jrnl x)))"
proof -
  have v: "16 + vof s (DataMap (ix_jrnl x)) \<le> vsize s (DataMap (ix_jrnl x))"
    using vof_le_vsize assms(1) by (simp add: store_ok_def)
  show "raw_read s (DataMap (ix_jrnl x)) (ix_of x) (ix_size x) = Ret (rec_data s x)"
    unfolding rec_data_def using assms v by (intro raw_read_calm) (auto simp: rec_sound_def)
  show "ix_of x < m_size (get_map s (DataMap (ix_jrnl x)))"
    using assms(3) v mapped_m_size [OF assms(2)] by (simp add: rec_sound_def)
qed

lemma live_sound:
  "recs_ok s \<Longrightarrow> live s sl i \<Longrightarrow> sl = IdxMap \<or> sl = ArchMap \<Longrightarrow> rec_sound s (rec_at s sl i)"
  unfolding recs_ok_def owns_def by (metis fst_conv snd_conv)

text \<open>The steps all readers share: look the record up, make its journal available.\<close>

lemma idx_get_alloc:
  assumes "store_ok s" "recs_ok s" "roomy 0 s" "live s IdxMap pos"
  obtains s1 s2 where "bc_idx_get True pos s = Ret ((0, rec_at s IdxMap pos), s1)"
    "store_ok s1" "keep {} s s1" "bc_alloc (ix_jrnl (rec_at s IdxMap pos)) s1 = Ret (0, s2)"
    "store_ok s2" "same s s2" "mapped (DataMap (ix_jrnl (rec_at s IdxMap pos))) s2"
    "rec_sound s2 (rec_at s IdxMap pos)" "keep {DataMap (ix_jrnl (rec_at s IdxMap pos))} s s2"
    "vsize s2 (DataMap (ix_jrnl (rec_at s IdxMap pos))) \<le> 3000000000"
proof -
  let ?x = "rec_at s IdxMap pos"
  obtain s1 where g: "bc_idx_get True pos s = Ret ((0, ?x), s1)" "store_ok s1" "keep {} s s1"
    using bc_idx_get_calm [OF assms(1), of True pos] assms(4) by (auto simp: wp_iff)
  have sd: "rec_sound s ?x"
    using live_sound [OF assms(2,4)] by simp
  then have j: "ix_jrnl ?x < 4294967295"
    by (simp add: rec_sound_def)
  have "cap (DataMap (ix_jrnl ?x)) 0 s1"
    using roomy_cap [OF assms(3)] cap_keep [OF g(3)] by simp
  from alloc_same [OF g(2) j this] obtain s2 where a: "bc_alloc (ix_jrnl ?x) s1 = Ret (0, s2)"
    "store_ok s2" "mapped (DataMap (ix_jrnl ?x)) s2" "same s1 s2" "keep {DataMap (ix_jrnl ?x)} s1 s2"
    "vsize s2 (DataMap (ix_jrnl ?x)) \<le> 3000000000"
    by (auto simp: wp_iff)
  have sm: "same s s2"
    using same_trans [OF keep_same [OF g(3)] a(4)] .
  have "keep {DataMap (ix_jrnl ?x)} s s2"
    by (rule keep_trans [OF g(3) a(5)]) auto
  then show thesis
    using that g a sm sd same_views(10) [OF sm] by simp
qed

definition read_post :: "nat \<Rightarrow> byte list \<Rightarrow> bc_state \<Rightarrow> (int \<times> byte list) \<times> bc_state \<Rightarrow> bool" where
  "read_post pos buf s = (\<lambda>((e, d), s'). store_ok s' \<and> same s s' \<and>
     (if live s IdxMap pos
      then e = 0 \<and> d = take (length buf) (rec_data s (rec_at s IdxMap pos))
             @ replicate (length buf - ix_size (rec_at s IdxMap pos)) 0
      else e = ERR_NOENT \<and> d = buf))"

lemma s_bc_read_calm:
  assumes "store_ok s" "recs_ok s" "roomy 0 s"
  shows "wp (s_bc_read pos buf s) (read_post pos buf s)"
proof (cases "live s IdxMap pos")
  case True
  let ?x = "rec_at s IdxMap pos"
  obtain s1 s2 where r: "bc_idx_get True pos s = Ret ((0, ?x), s1)" "store_ok s1" "keep {} s s1"
    "bc_alloc (ix_jrnl ?x) s1 = Ret (0, s2)" "store_ok s2" "same s s2"
    "mapped (DataMap (ix_jrnl ?x)) s2" "rec_sound s2 ?x" "keep {DataMap (ix_jrnl ?x)} s s2"
    "vsize s2 (DataMap (ix_jrnl ?x)) \<le> 3000000000"
    by (rule idx_get_alloc [OF assms True])
  have d: "rec_data s2 ?x = rec_data s ?x"
    using same_views(5) [OF r(6)] by simp
  have "length (rec_data s ?x) = ix_size ?x"
    by (simp add: rec_data_def)
  then have t: "take (min (length buf) (ix_size ?x)) (rec_data s ?x) = take (length buf) (rec_data s ?x)"
    by (simp add: min_def)
  show ?thesis
    using True r(1,4-6,8) rec_sound_read [OF r(5,7,8)] d t
    by (simp add: s_bc_read_def read_post_def Let_def rec_sound_def)
next
  case False
  then show ?thesis
    using idx.get_law [OF assms(1), of True pos]
    by (auto simp: s_bc_read_def wp_iff read_post_def intro: keep_same)
qed

lemma bc_read_calm:
  assumes "store_ok s" "recs_ok s" "roomy 0 s"
  shows "wp (bc_read pos buf s) (read_post pos buf s)"
  unfolding bc_read_def
  by (rule locked_lift [where f = "s_bc_read pos buf", OF s_bc_read_calm])
    (use assms in \<open>auto simp: store_ok_calm read_post_def same_lock\<close>)

definition get_post :: "nat \<Rightarrow> bc_state \<Rightarrow> (int \<times> byte list) \<times> bc_state \<Rightarrow> bool" where
  "get_post pos s = (\<lambda>((e, d), s'). store_ok s' \<and> same s s' \<and>
     (if live s IdxMap pos then e = 0 \<and> d = rec_data s (rec_at s IdxMap pos) else e = ERR_NOENT))"

lemma s_bc_get_calm:
  assumes "store_ok s" "recs_ok s" "roomy 0 s"
  shows "wp (s_bc_get pos s) (get_post pos s)"
proof -
  let ?x = "rec_at s IdxMap pos"
  obtain e y s1 where g: "bc_idx_get True pos s = Ret ((e, y), s1)" "store_ok s1" "keep {} s s1"
    "if live s IdxMap pos then e = 0 \<and> y = ?x else e = ERR_NOENT"
    using idx.get_law [OF assms(1), of True pos] by (auto simp: wp_iff split: if_splits)
  have k: "recs_ok s1" "roomy 0 s1" "live s1 = live s" "rec_at s1 = rec_at s" "rec_data s1 = rec_data s"
    using same_views [OF keep_same [OF g(3)]] assms cap_keep [OF g(3)] by (simp_all add: roomy_def)
  have len: "length (rec_data s ?x) = ix_size ?x"
    by (simp add: rec_data_def)
  show ?thesis
  proof (cases "live s IdxMap pos")
    case True
    obtain e d s2 where r: "bc_read pos (replicate (ix_size ?x) 0) s1 = Ret ((e, d), s2)"
      "read_post pos (replicate (ix_size ?x) 0) s1 ((e, d), s2)"
      using bc_read_calm [OF g(2) k(1,2), of pos "replicate (ix_size ?x) 0"] by (auto simp: wp_iff)
    then have "e = 0" "d = rec_data s ?x" "store_ok s2" "same s s2"
      using True k len same_trans [OF keep_same [OF g(3)]] by (simp_all add: read_post_def)
    then show ?thesis
      using True g r(1) store_ok_calm [OF g(2)] by (simp add: s_bc_get_def get_post_def)
  next
    case False
    then show ?thesis
      using g by (auto simp: s_bc_get_def get_post_def intro: keep_same)
  qed
qed

lemma bc_get_calm:
  assumes "store_ok s" "recs_ok s" "roomy 0 s"
  shows "wp (bc_get pos s) (get_post pos s)"
  unfolding bc_get_def
  by (rule locked_lift [where f = "s_bc_get pos", OF s_bc_get_calm])
    (use assms in \<open>auto simp: store_ok_calm get_post_def same_lock\<close>)

section \<open>Appending data to a journal\<close>

definition jappend :: "nat \<Rightarrow> byte list \<Rightarrow> bc_state \<Rightarrow> bc_state \<Rightarrow> bool" where
  "jappend j data s s' \<longleftrightarrow>
     vbytes s' (DataMap j) = put_bytes (vbytes s (DataMap j)) (vof s (DataMap j)) data
     \<and> vof s' (DataMap j) = vof s (DataMap j) + length data
     \<and> (\<forall>k. k \<noteq> j \<longrightarrow> vbytes s' (DataMap k) = vbytes s (DataMap k) \<and> vof s' (DataMap k) = vof s (DataMap k))"

lemma jappend_old:
  assumes "jappend j data s s'" "rec_sound s x"
  shows "rec_data s' x = rec_data s x" "rec_sound s' x"
proof -
  have "vbytes s' (DataMap (ix_jrnl x)) (ix_of x + i) = vbytes s (DataMap (ix_jrnl x)) (ix_of x + i)"
    if "i < ix_size x" for i
    using assms that by (cases "ix_jrnl x = j") (auto simp: jappend_def rec_sound_def put_bytes_def)
  then show d: "rec_data s' x = rec_data s x"
    by (simp add: rec_data_def view_bytes_def)
  have "vof s (DataMap (ix_jrnl x)) \<le> vof s' (DataMap (ix_jrnl x))"
    using assms(1) by (cases "ix_jrnl x = j") (auto simp: jappend_def)
  then show "rec_sound s' x"
    using assms(2) d by (auto simp: rec_sound_def)
qed

lemma jappend_new:
  assumes "jappend j data s s'" "x = fresh_idx j (vof s (DataMap j)) hash data"
    "length data < 4294967296" "j < 4294967295"
  shows "rec_data s' x = data" "rec_sound s' x" "ix_hash x = take 32 hash" "ix_size x = length data"
proof -
  have f: "ix_jrnl x = j" "ix_of x = vof s (DataMap j)" "ix_size x = length data" "ix_crc x = shcrc32 data"
    using assms(2,3) by (simp_all add: fresh_idx_def)
  show d: "rec_data s' x = data"
    using assms(1) by (intro nth_equalityI) (simp_all add: rec_data_def f view_bytes_def jappend_def put_bytes_def)
  show "rec_sound s' x"
    using assms(1,4) d f by (simp add: rec_sound_def jappend_def)
  show "ix_hash x = take 32 hash" "ix_size x = length data"
    using assms(2) f by (simp_all add: fresh_idx_def)
qed

lemma jappend_apart:
  "x = fresh_idx j (vof s (DataMap j)) hash data \<Longrightarrow> rec_sound s y \<Longrightarrow> apart x y \<and> apart y x"
  by (auto simp: fresh_idx_def apart_def rec_sound_def)

text \<open>A new record joins the store: at a free place \<open>p\<close>, its bytes at the end of a journal.\<close>

lemma recs_ok_new:
  assumes "recs_ok s" "jappend j data s s'" "x = fresh_idx j (vof s (DataMap j)) hash data"
    "length data < 4294967296" "j < 4294967295"
    and own: "\<And>q y. owns s' q y \<Longrightarrow> (q = p \<and> y = x) \<or> (q \<noteq> p \<and> owns s q y)"
  shows "recs_ok s'"
proof -
  have old: "owns s q y \<Longrightarrow> rec_sound s y" for q y
    using assms(1) unfolding recs_ok_def by blast
  have "rec_sound s' y" if "owns s' q y" for q y
    using own [OF that] jappend_new(2) [OF assms(2-5)] jappend_old(2) [OF assms(2)] old by blast
  moreover have "apart y z" if "owns s' q y" "owns s' r z" "q \<noteq> r" for q r y z
    using own [OF that(1)] own [OF that(2)] that(3)
  proof (elim disjE conjE)
    assume "q = p" "y = x" "r \<noteq> p" "owns s r z"
    then show ?thesis
      using jappend_apart [OF assms(3)] old by blast
  next
    assume "q \<noteq> p" "owns s q y" "r = p" "z = x"
    then show ?thesis
      using jappend_apart [OF assms(3)] old by blast
  next
    assume "owns s q y" "owns s r z"
    then show ?thesis
      using assms(1) that(3) unfolding recs_ok_def by blast
  qed auto
  ultimately show ?thesis
    unfolding recs_ok_def by blast
qed

lemma write_post_data_ok:
  assumes "store_ok s" "write_post (DataMap j) off bs s s'"
  shows "store_ok s'"
  by (rule store_ok_frame [OF assms(1), of "DataMap j"])
    (use assms(2) readyD(1,2) in \<open>auto simp: write_post_def frame_def\<close>)

lemma jrnl_append_calm:
  assumes "store_ok s" "mapped (DataMap j) s" "cap (DataMap j) (length data) s"
  shows "wp (bc_map_append (DataMap j) data s) (\<lambda>(e, s'). e = 0 \<and> store_ok s' \<and> mapped (DataMap j) s'
     \<and> keep {DataMap j} s s' \<and> jappend j data s s' \<and> vsize s' (DataMap j) \<le> 3000000000)"
proof -
  have "bc_inv s"
    using assms(1) by (simp add: store_ok_def)
  note c = cap_alloc [OF this assms(3)]
  obtain s' where w: "bc_map_append (DataMap j) data s = Ret (0, s')"
    "write_post (DataMap j) (vof s (DataMap j)) data s s'"
    using bc_map_append_calm [of "DataMap j" s data] assms(2) c(1) by (auto simp: wp_iff)
  have k: "keep {DataMap j} s s'"
    using write_post_keep [OF w(2)] .
  have "jappend j data s s'"
    using w(2) keepD [OF k] by (auto simp: jappend_def write_post_def)
  then show ?thesis
    using w c(2) k write_post_data_ok [OF assms(1) w(2)] by (auto simp: write_post_def)
qed

section \<open>Writing at a free position\<close>

lemma journal_pos:
  assumes "pos \<le> 67108864"
  shows "s32 (bc_journal (s32 pos)) = int (pos div 65536 + 1)"
    "u32_of_int (int (pos div 65536 + 1)) = pos div 65536 + 1" "pos div 65536 + 1 < 4294967295"
proof -
  have l: "pos div 65536 \<le> 1024"
    using div_le_mono [OF assms, of 65536] by simp
  have "bc_journal (s32 pos) = pos div 65536 + 1"
    using assms l by (simp add: bc_journal_def u32_of_int_def nat_add_distrib nat_div_distrib)
  then show "s32 (bc_journal (s32 pos)) = int (pos div 65536 + 1)"
    using l by simp
  show "u32_of_int (int (pos div 65536 + 1)) = pos div 65536 + 1" "pos div 65536 + 1 < 4294967295"
    using l by (simp_all add: u32_of_int_def)
qed

definition wrote :: "nat \<Rightarrow> bc_hash \<Rightarrow> byte list \<Rightarrow> bc_state \<Rightarrow> bc_state \<Rightarrow> bool" where
  "wrote pos hash data s s' \<longleftrightarrow>
     (let j = pos div 65536 + 1; x = fresh_idx j (vof s (DataMap j)) hash data in
      store_ok s' \<and> bc_lk s' = bc_lk s \<and> jappend j data s s' \<and> rec_at s' IdxMap = (rec_at s IdxMap)(pos := x)
      \<and> nrec s' IdxMap = max (nrec s IdxMap) (Suc pos)
      \<and> rec_at s' ArchMap = rec_at s ArchMap \<and> nrec s' ArchMap = nrec s ArchMap
      \<and> tab_ok s' \<and> (\<forall>sl. sl \<noteq> TabMap \<longrightarrow> vsize s' sl \<le> 3000000000)
      \<and> vof s' IdxMap = max (vof s IdxMap) (64 * pos + 64) \<and> vof s' ArchMap = vof s ArchMap)"

lemma tab_ok_keep: "keep M s s' \<Longrightarrow> IdxMap \<notin> M \<Longrightarrow> TabMap \<notin> M \<Longrightarrow> tab_ok s' = tab_ok s"
  using tab_entry_cong [of s' s] by (simp add: tab_ok_def entry_ok_keep keepD)

lemma wrote_intro:
  assumes "tab_ok s" "roomy n s" "pos \<le> nrec s IdxMap" "\<not> live s IdxMap pos"
    and a: "same s s1" "keep {DataMap j} s s1" "vsize s1 (DataMap j) \<le> 3000000000"
    and i: "idx_set_post pos x s1 s2"
    and w: "store_ok s3" "keep {DataMap j} s2 s3" "jappend j data s2 s3" "vsize s3 (DataMap j) \<le> 3000000000"
    and x: "j = pos div 65536 + 1" "x = fresh_idx j (vof s (DataMap j)) hash data"
  shows "wrote pos hash data s s3"
proof -
  note v1 = same_views [OF a(1)]
  have k2: "keep {IdxMap, TabMap} s1 s2"
    using i by (simp add: idx_set_post_def)
  have d2: "vbytes s2 (DataMap k) = vbytes s (DataMap k)" "vof s2 (DataMap k) = vof s (DataMap k)"
    "vsize s2 (DataMap k) = vsize s1 (DataMap k)" for k
    using keepD [OF k2, of "DataMap k"] a(1) by (simp_all add: same_def)
  have "jappend j data s s3"
    using w(3) d2 by (simp add: jappend_def)
  moreover have r: "rec_at s3 IdxMap = (rec_at s IdxMap)(pos := x)"
    "nrec s3 IdxMap = max (nrec s IdxMap) (Suc pos)" "vof s3 IdxMap = max (vof s IdxMap) (64 * pos + 64)"
    using keep_rec [OF w(2), of IdxMap] keepD [OF w(2), of IdxMap] i v1 by (simp_all add: idx_set_post_def)
  moreover have "rec_at s3 ArchMap = rec_at s ArchMap" "nrec s3 ArchMap = nrec s ArchMap"
    "vof s3 ArchMap = vof s ArchMap"
    using keep_rec [OF w(2), of ArchMap] keep_rec [OF k2, of ArchMap] keepD [OF w(2), of ArchMap]
      keepD [OF k2, of ArchMap] v1 by simp_all
  moreover have "tab_ok s2"
    using idx_set_tab_ok [OF _ i] assms(1,3,4) v1 by simp
  then have "tab_ok s3"
    using tab_ok_keep [OF w(2)] by simp
  moreover have "bc_lk s3 = bc_lk s"
    using a(2) k2 w(2) by (simp add: keep_def)
  moreover have "vsize s3 sl \<le> 3000000000" if "sl \<noteq> TabMap" for sl
  proof -
    consider "sl = DataMap j" | "sl = IdxMap" | "sl \<noteq> DataMap j" "sl \<noteq> IdxMap"
      by blast
    then show ?thesis
    proof cases
      case 1
      then show ?thesis using w(4) by simp
    next
      case 2
      then show ?thesis using keepD [OF w(2), of IdxMap] i by (simp add: idx_set_post_def)
    next
      case 3
      then show ?thesis
        using that assms(2) keepD [OF w(2), of sl] keepD [OF k2, of sl] keepD [OF a(2), of sl]
        by (simp add: roomy_def cap_def)
    qed
  qed
  ultimately show ?thesis
    using w(1) by (simp add: wrote_def Let_def x)
qed

lemma fresh_idx_wf:
  "length hash = 32 \<Longrightarrow> j < 4294967296 \<Longrightarrow> idx_wf (fresh_idx j (vof s sl) hash data)"
  by (simp add: fresh_idx_def idx_wf_def idx_zero_def vof_def split: option.splits)

lemma s_bc_write_calm:
  assumes "store_ok s" "tab_ok s" "roomy (64 + length data) s" "length hash = 32"
    "pos \<le> nrec s IdxMap" "\<not> live s IdxMap pos"
  shows "wp (s_bc_write pos hash data s) (\<lambda>(e, s'). e = 0 \<and> wrote pos hash data s s')"
proof -
  define j where "j = pos div 65536 + 1"
  define x where "x = fresh_idx j (vof s (DataMap j)) hash data"
  have p: "pos \<le> 67108864"
    using assms(5) nrec_lt [of s IdxMap] by simp
  note jr = journal_pos [OF p, folded j_def]
  have "cap (DataMap j) (64 + length data) s"
    using roomy_cap [OF assms(3)] by simp
  from alloc_same [OF assms(1) jr(3) this] obtain s1 where a: "bc_alloc j s = Ret (0, s1)" "store_ok s1"
    "mapped (DataMap j) s1" "same s s1" "keep {DataMap j} s s1" "vsize s1 (DataMap j) \<le> 3000000000"
    by (auto simp: wp_iff)
  note v1 = same_views [OF a(4)]
  have h: "hdr_of s1 (DataMap j) = Ret (vof s (DataMap j))"
    using hdr_of_calm [of "DataMap j" s1] a(3) v1(8) by simp
  have c1: "cap IdxMap 64 s1" "idx_wf x"
    using roomy_cap [OF assms(3), of IdxMap 64] cap_keep [OF a(5)] fresh_idx_wf [OF assms(4)] jr(3)
    by (simp_all add: x_def)
  obtain s2 where i: "bc_idx_set pos x s1 = Ret (0, s2)" "idx_set_post pos x s1 s2"
    using bc_idx_set_calm [OF a(2) c1, of pos] assms(5,6) v1 by (auto simp: wp_iff)
  have k2: "store_ok s2" "keep {IdxMap, TabMap} s1 s2"
    using i(2) by (simp_all add: idx_set_post_def)
  have d2: "vbytes s2 (DataMap k) = vbytes s (DataMap k)" "vof s2 (DataMap k) = vof s (DataMap k)"
     "vsize s2 (DataMap k) = vsize s1 (DataMap k)" for k
    using keepD [OF k2(2), of "DataMap k"] a(4) by (simp_all add: same_def)
  have m2: "mapped (DataMap j) s2" "cap (DataMap j) (length data) s2"
    using keep_mapped [OF k2(2,1) a(3)] roomy_cap [OF assms(3), of "DataMap j" "length data"] d2 a(6)
    by (simp_all add: cap_def)
  obtain s3 where w: "bc_map_append (DataMap j) data s2 = Ret (0, s3)" "store_ok s3"
    "keep {DataMap j} s2 s3" "jappend j data s2 s3" "vsize s3 (DataMap j) \<le> 3000000000"
    using jrnl_append_calm [OF k2(1) m2] by (auto simp: wp_iff)
  have "wrote pos hash data s s3"
    by (rule wrote_intro [OF assms(2,3,5,6) a(4-6) i(2) w(2-5) j_def x_def])
  then show ?thesis
    using a(1) h i(1) w(1) by (simp add: s_bc_write_def Let_def jr x_def)
qed

text \<open>Put a value at position \<open>i\<close>, at most one past the end.\<close>

definition list_put :: "'a list \<Rightarrow> nat \<Rightarrow> 'a \<Rightarrow> 'a list" where
  "list_put xs i v = (if i < length xs then xs[i := v] else xs @ [v])"

lemma length_abs_of [simp]: "length (abs_of s sl) = nrec s sl"
  by (simp add: abs_of_def)

lemma nth_abs_of: "i < nrec s sl \<Longrightarrow> abs_of s sl ! i =
    (if live s sl i then Some (ix_hash (rec_at s sl i), rec_data s (rec_at s sl i)) else None)"
  by (simp add: abs_of_def)

lemma abs_of_SomeD:
  "i < length (abs_of s sl) \<Longrightarrow> abs_of s sl ! i = Some r \<Longrightarrow>
     live s sl i \<and> r = (ix_hash (rec_at s sl i), rec_data s (rec_at s sl i))"
  by (auto simp: nth_abs_of split: if_splits)

lemma abs_of_cong:
  assumes "nrec s' sl = nrec s sl" "\<And>i. i < nrec s sl \<Longrightarrow> live s' sl i = live s sl i"
    "\<And>i. live s sl i \<Longrightarrow> rec_at s' sl i = rec_at s sl i \<and> rec_data s' (rec_at s sl i) = rec_data s (rec_at s sl i)"
  shows "abs_of s' sl = abs_of s sl"
  using assms by (intro nth_equalityI) (auto simp: nth_abs_of)

lemma abs_of_put:
  assumes "pos \<le> nrec s sl" "nrec s' sl = max (nrec s sl) (Suc pos)" "rec_at s' sl = (rec_at s sl)(pos := x)"
    "\<And>i. i \<noteq> pos \<Longrightarrow> live s sl i \<Longrightarrow> rec_data s' (rec_at s sl i) = rec_data s (rec_at s sl i)"
    "v = (if ix_size x \<noteq> 0 then Some (ix_hash x, rec_data s' x) else None)"
  shows "abs_of s' sl = list_put (abs_of s sl) pos v"
proof (rule nth_equalityI)
  show "length (abs_of s' sl) = length (list_put (abs_of s sl) pos v)"
    using assms(1,2) by (simp add: list_put_def)
  fix i assume "i < length (abs_of s' sl)"
  then have i: "i < nrec s' sl"
    by simp
  show "abs_of s' sl ! i = list_put (abs_of s sl) pos v ! i"
  proof (cases "i = pos")
    case True
    then show ?thesis
      using i assms by (auto simp: nth_abs_of list_put_def live_def nth_append)
  next
    case False
    then have "i < nrec s sl" "live s' sl i = live s sl i"
      using i assms(1-3) by (auto simp: live_def)
    then show ?thesis
      using False i assms by (auto simp: nth_abs_of list_put_def nth_append)
  qed
qed

lemma wrote_owns:
  assumes "wrote pos hash data s s'" "j = pos div 65536 + 1" "pos \<le> nrec s IdxMap" "\<not> live s IdxMap pos"
    "owns s' q y"
  shows "(q = (IdxMap, pos) \<and> y = fresh_idx j (vof s (DataMap j)) hash data)
     \<or> (q \<noteq> (IdxMap, pos) \<and> owns s q y)"
proof -
  define x where "x = fresh_idx j (vof s (DataMap j)) hash data"
  have "rec_at s' IdxMap = (rec_at s IdxMap)(pos := x)" "nrec s' IdxMap = max (nrec s IdxMap) (Suc pos)"
    "rec_at s' ArchMap = rec_at s ArchMap" "nrec s' ArchMap = nrec s ArchMap"
    using assms(1,2) by (simp_all add: wrote_def Let_def x_def)
  then show ?thesis
    using assms(3,5) unfolding owns_def x_def [symmetric] by (cases q) (auto simp: live_def split: if_splits)
qed

lemma wrote_chain:
  assumes "chain_ok s" "wrote pos hash data s s'" "length data < 4294967296" "data \<noteq> []"
    "length hash = 32" "pos \<le> nrec s IdxMap" "\<not> live s IdxMap pos"
  shows "chain_ok s'" "idx_abs s' = list_put (idx_abs s) pos (Some (hash, data))" "arch_abs s' = arch_abs s"
proof -
  define j where "j = pos div 65536 + 1"
  define x where "x = fresh_idx j (vof s (DataMap j)) hash data"
  have w: "store_ok s'" "jappend j data s s'" "rec_at s' IdxMap = (rec_at s IdxMap)(pos := x)"
    "nrec s' IdxMap = max (nrec s IdxMap) (Suc pos)" "rec_at s' ArchMap = rec_at s ArchMap"
    "nrec s' ArchMap = nrec s ArchMap" "tab_ok s'"
    using assms(2) by (simp_all add: wrote_def Let_def x_def j_def)
  have "pos \<le> 67108864"
    using assms(6) nrec_lt [of s IdxMap] by simp
  then have j: "j < 4294967295"
    using journal_pos(3) by (simp add: j_def)
  note n = jappend_new [OF w(2) x_def assms(3) j]
  have ok: "recs_ok s"
    using assms(1) by (simp add: chain_ok_def)
  have old: "rec_data s' (rec_at s sl i) = rec_data s (rec_at s sl i)"
    if "live s sl i" "sl = IdxMap \<or> sl = ArchMap" for sl i
    using jappend_old(1) [OF w(2)] live_sound [OF ok that] by blast
  have "recs_ok s'"
    by (rule recs_ok_new [OF ok w(2) x_def assms(3) j, of "(IdxMap, pos)"])
      (use wrote_owns [OF assms(2) j_def assms(6,7)] in \<open>auto simp: x_def\<close>)
  then show "chain_ok s'"
    using w by (simp add: chain_ok_def)
  show "idx_abs s' = list_put (idx_abs s) pos (Some (hash, data))"
    using n assms(4,5) old by (intro abs_of_put [OF assms(6) w(4,3)]) auto
  show "arch_abs s' = arch_abs s"
    using w(5,6) old by (intro abs_of_cong) (auto simp: live_def)
qed

lemma wrote_roomy:
  assumes "roomy (n + 64 + length data) s" "wrote pos hash data s s'" "pos \<le> nrec s IdxMap"
  shows "roomy n s'"
proof -
  define j where "j = pos div 65536 + 1"
  have w: "jappend j data s s'" "\<And>sl. sl \<noteq> TabMap \<Longrightarrow> vsize s' sl \<le> 3000000000"
    "vof s' IdxMap = max (vof s IdxMap) (64 * pos + 64)" "vof s' ArchMap = vof s ArchMap"
    using assms(2) by (simp_all add: wrote_def Let_def j_def)
  have "64 * pos \<le> vof s IdxMap"
    using assms(3) unfolding nrec_def by linarith
  then have "vof s' sl \<le> vof s sl + 64 + length data" if "sl \<noteq> TabMap" for sl
    using w that by (cases sl; cases "sl = DataMap j") (auto simp: jappend_def)
  then show ?thesis
    using assms(1) w(2) by (fastforce simp: roomy_def cap_def)
qed

text \<open>The records of the index lie in the journal of their position.\<close>

definition jrnl_ok :: "bc_state \<Rightarrow> bool" where
  "jrnl_ok s \<longleftrightarrow> (\<forall>i. live s IdxMap i \<longrightarrow> ix_jrnl (rec_at s IdxMap i) = i div 65536 + 1)"

text \<open>
  \<open>put_rec pos hash data s s'\<close>: the store \<open>s'\<close> is \<open>s\<close> with one more record, at \<open>pos\<close>.
\<close>

definition put_rec :: "nat \<Rightarrow> bc_hash \<Rightarrow> byte list \<Rightarrow> bc_state \<Rightarrow> bc_state \<Rightarrow> bool" where
  "put_rec pos hash data s s' \<longleftrightarrow> chain_ok s' \<and> bc_lk s' = bc_lk s
     \<and> idx_abs s' = list_put (idx_abs s) pos (Some (hash, data)) \<and> arch_abs s' = arch_abs s
     \<and> (\<forall>n. roomy (n + 64 + length data) s \<longrightarrow> roomy n s') \<and> (jrnl_ok s \<longrightarrow> jrnl_ok s')"

lemma wrote_jrnl_ok:
  assumes "wrote pos hash data s s'" "pos \<le> nrec s IdxMap" "jrnl_ok s"
  shows "jrnl_ok s'"
  using assms by (auto simp: jrnl_ok_def wrote_def Let_def live_def fresh_idx_def less_max_iff_disj less_Suc_eq)

lemma wrote_put_rec:
  assumes "chain_ok s" "wrote pos hash data s s'" "length data < 4294967296" "data \<noteq> []"
    "length hash = 32" "pos \<le> nrec s IdxMap" "\<not> live s IdxMap pos"
  shows "put_rec pos hash data s s'"
  using wrote_chain [OF assms] wrote_roomy [OF _ assms(2,6)] wrote_jrnl_ok [OF assms(2,6)] assms(2)
  by (simp add: put_rec_def wrote_def Let_def)

lemma put_rec_lock:
  "put_rec pos hash data (s\<lparr>bc_lk := Suc (bc_lk s)\<rparr>) s2 \<Longrightarrow> put_rec pos hash data s (bc_unlock s2)"
  by (simp add: put_rec_def jrnl_ok_def) (simp add: bc_unlock_def)

lemma put_rec_same:
  assumes "same s s1" "\<And>sl. vsize s1 sl = vsize s sl" "put_rec pos hash data s1 s'"
  shows "put_rec pos hash data s s'"
proof -
  have "roomy n s1 = roomy n s" for n
    using assms(2) same_views(8) [OF assms(1)] by (simp add: roomy_def cap_def)
  then show ?thesis
    using assms(1,3) same_views [OF assms(1)] by (simp add: put_rec_def same_def jrnl_ok_def)
qed

abbreviation free_at :: "bc_state \<Rightarrow> nat \<Rightarrow> bool" where
  "free_at s pos \<equiv> pos \<le> nrec s IdxMap \<and> \<not> live s IdxMap pos"

lemma bc_write_calm:
  assumes "chain_ok s" "roomy (64 + length data) s" "length hash = 32" "data \<noteq> []" "free_at s pos"
  shows "wp (bc_write pos hash data s) (\<lambda>(e, s'). e = 0 \<and> put_rec pos hash data s s')"
proof -
  have len: "length data < 4294967296"
    using roomy_cap [OF assms(2), of IdxMap "64 + length data"] by (simp add: cap_def)
  have w: "wp (s_bc_write pos hash data s) (\<lambda>(e, s'). e = 0 \<and> put_rec pos hash data s s')"
    if "chain_ok s" "roomy (64 + length data) s" "free_at s pos" for s
    using s_bc_write_calm [of s data hash pos] wrote_put_rec [OF that(1) _ len assms(4,3)] that assms(3)
    by (auto simp: chain_ok_def elim!: wp_mono)
  show ?thesis
    unfolding bc_write_def
    by (rule locked_lift [where f = "s_bc_write pos hash data", OF w])
      (use assms in \<open>auto simp: chain_ok_def store_ok_calm put_rec_lock\<close>)
qed

lemma s_bc_append_calm:
  assumes "chain_ok s" "roomy (64 + length data) s" "length hash = 32" "data \<noteq> []"
  shows "wp (s_bc_append hash data s) (\<lambda>(e, s'). e = 0 \<and> put_rec (nrec s IdxMap) hash data s s')"
proof -
  obtain s1 where o: "bc_idx_open s = Ret (0, s1)" "store_ok s1" "keep {} s s1"
    using bc_idx_open_calm assms(1) by (fastforce simp: wp_iff chain_ok_def)
  obtain s2 where n: "bc_idx_next s1 = Ret ((0, nrec s1 IdxMap), s2)" "store_ok s2" "keep {} s1 s2"
    using idx.next_law [OF o(2)] by (auto simp: wp_iff)
  have k: "keep {} s s2"
    by (rule keep_trans [OF o(3) n(3)]) auto
  note v = same_views [OF keep_same [OF k]]
  have n2: "nrec s1 IdxMap = nrec s IdxMap"
    using keep_rec [OF o(3), of IdxMap] by simp
  have s2: "chain_ok s2" "roomy (64 + length data) s2" "free_at s2 (nrec s IdxMap)"
    using chain_ok_same [OF assms(1) keep_same [OF k] n(2)] assms(2) cap_keep [OF k] v
    by (simp_all add: roomy_def live_def)
  have "put_rec (nrec s IdxMap) hash data s2 s' \<Longrightarrow> put_rec (nrec s IdxMap) hash data s s'" for s'
    using keepD [OF k] by (intro put_rec_same [OF keep_same [OF k]]) auto
  then show ?thesis
    using bc_write_calm [OF s2(1,2) assms(3,4) s2(3)] o(1) n(1) n2
    by (auto simp: s_bc_append_def elim!: wp_mono)
qed

lemma bc_append_calm:
  assumes "chain_ok s" "roomy (64 + length data) s" "length hash = 32" "data \<noteq> []"
  shows "wp (bc_append hash data s) (\<lambda>(e, s'). e = 0 \<and> put_rec (nrec s IdxMap) hash data s s')"
  unfolding bc_append_def
  by (rule locked_lift [where f = "s_bc_append hash data", OF s_bc_append_calm])
    (use assms in \<open>auto simp: chain_ok_def store_ok_calm put_rec_lock\<close>)

section \<open>Searching\<close>

text \<open>The highest position of a record with the hash.\<close>

definition find_hash :: "bc_hash \<Rightarrow> (bc_hash \<times> byte list) option list \<Rightarrow> nat option" where
  "find_hash hash xs =
     (let is = filter (\<lambda>i. case xs ! i of None \<Rightarrow> False | Some (h, _) \<Rightarrow> h = hash) [0..<length xs]
      in if is = [] then None else Some (last is))"

lemma last_match_filter:
  "last_match s sl hash n =
     (let is = filter (\<lambda>i. ix_size (rec_at s sl i) \<noteq> 0 \<and> bc_hash_cmp hash (ix_hash (rec_at s sl i))) [0..<n]
      in if is = [] then None else Some (last is))"
  by (induction n) (simp_all add: Let_def)

lemma last_match_abs:
  assumes "length hash = 32"
  shows "last_match s sl hash (nrec s sl) = find_hash hash (abs_of s sl)"
proof -
  have "(case abs_of s sl ! i of None \<Rightarrow> False | Some (h, _) \<Rightarrow> h = hash) \<longleftrightarrow>
      ix_size (rec_at s sl i) \<noteq> 0 \<and> bc_hash_cmp hash (ix_hash (rec_at s sl i))" if "i < nrec s sl" for i
    using that assms idx_wf_rec_at [of s sl i]
    by (auto simp: nth_abs_of live_def bc_hash_cmp_def idx_wf_def)
  then have "filter (\<lambda>i. case abs_of s sl ! i of None \<Rightarrow> False | Some (h, _) \<Rightarrow> h = hash) [0..<nrec s sl]
      = filter (\<lambda>i. ix_size (rec_at s sl i) \<noteq> 0 \<and> bc_hash_cmp hash (ix_hash (rec_at s sl i))) [0..<nrec s sl]"
    by (intro filter_cong) auto
  then show ?thesis
    by (simp add: find_hash_def last_match_filter)
qed

lemma keep_tab_abs:
  assumes "keep {TabMap} s s'"
  shows "abs_of s' sl = abs_of s sl \<or> sl = TabMap" "recs_ok s' = recs_ok s" "roomy n s' = roomy n s"
proof -
  have r: "rec_at s' sl = rec_at s sl" "nrec s' sl = nrec s sl" "live s' sl = live s sl" if "sl \<noteq> TabMap" for sl
    using keep_rec [OF assms, of sl] that by simp_all
  have d: "rec_data s' = rec_data s" "vof s' (DataMap k) = vof s (DataMap k)" for k
    using keepD [OF assms] by (simp_all add: rec_data_def view_bytes_def fun_eq_iff)
  show "abs_of s' sl = abs_of s sl \<or> sl = TabMap"
    using r [of sl] d by (auto simp: abs_of_def)
  have "owns s' = owns s" "rec_sound s' = rec_sound s"
    using r [of IdxMap] r [of ArchMap] d by (auto simp: owns_def rec_sound_def fun_eq_iff)
  then show "recs_ok s' = recs_ok s"
    by (simp add: recs_ok_def)
  show "roomy n s' = roomy n s"
    using keepD [OF assms] by (simp add: roomy_def cap_def)
qed

lemma bc_find_calm:
  assumes "chain_ok s" "length hash = 32"
  shows "wp (bc_find hash s) (\<lambda>((e, p), s'). chain_ok s' \<and> idx_abs s' = idx_abs s \<and> arch_abs s' = arch_abs s \<and>
     (\<forall>n. roomy n s \<longrightarrow> roomy n s') \<and>
     (case find_hash hash (idx_abs s) of None \<Rightarrow> e = ERR_NOENT \<and> p = - 1 | Some q \<Rightarrow> e = 0 \<and> p = int q))"
proof -
  obtain e x i s1 where f: "bc_idx_find False hash s = Ret ((e, x, i), s1)"
    "find_post False hash s ((e, x, i), s1)"
    using bc_idx_find_calm [of s hash False] assms by (auto simp: wp_iff chain_ok_def)
  then have k: "keep {TabMap} s s1"
    by (simp add: find_post_def)
  have r: "roomy n s1 = roomy n s" for n
    using cap_keep [OF k] by (auto simp: roomy_def)
  show ?thesis
    using f assms r keep_tab_abs(2) [OF k] keep_tab_abs(1) [OF k, of IdxMap] keep_tab_abs(1) [OF k, of ArchMap]
    by (auto simp: bc_find_def find_post_def chain_ok_def last_match_abs split: option.splits)
qed

section \<open>Clearing\<close>

definition cleared :: "nat \<Rightarrow> bc_state \<Rightarrow> bc_state \<Rightarrow> bool" where
  "cleared pos s s' \<longleftrightarrow> chain_ok s' \<and> bc_lk s' = bc_lk s \<and> idx_abs s' = (idx_abs s)[pos := None]
     \<and> arch_abs s' = arch_abs s @ [idx_abs s ! pos] \<and> (\<forall>n. roomy (n + 64) s \<longrightarrow> roomy n s')"

lemma recs_ok_move:
  assumes "recs_ok s" "\<And>x. rec_sound s' x = rec_sound s x"
    and "\<And>q y. owns s' q y \<Longrightarrow> owns s (f q) y" "\<And>q r y z. owns s' q y \<Longrightarrow> owns s' r z \<Longrightarrow> f q = f r \<Longrightarrow> q = r"
  shows "recs_ok s'"
  using assms unfolding recs_ok_def by metis

lemma cleared_views:
  assumes "put_post ArchMap (nrec s ArchMap) (rec_at s IdxMap pos) s s2" "put_post IdxMap pos idx_zero s2 s3"
    "pos < nrec s IdxMap"
  shows "rec_at s3 IdxMap = (rec_at s IdxMap)(pos := idx_zero)" "nrec s3 IdxMap = nrec s IdxMap"
    "rec_at s3 ArchMap = (rec_at s ArchMap)(nrec s ArchMap := rec_at s IdxMap pos)"
    "nrec s3 ArchMap = Suc (nrec s ArchMap)" "rec_data s3 = rec_data s" "rec_sound s3 = rec_sound s"
    "store_ok s3" "bc_lk s3 = bc_lk s"
    "roomy (n + 64) s \<Longrightarrow> roomy n s3"
proof -
  have k: "keep {ArchMap} s s2" "keep {IdxMap} s2 s3"
    using assms by (simp_all add: put_post_def)
  have ks: "keep {ArchMap, IdxMap} s s3"
    by (rule keep_trans [OF k]) auto
  note ra = keep_rec [OF k(1), of IdxMap] and ri = keep_rec [OF k(2), of ArchMap]
  show "rec_at s3 IdxMap = (rec_at s IdxMap)(pos := idx_zero)" "nrec s3 IdxMap = nrec s IdxMap"
    "rec_at s3 ArchMap = (rec_at s ArchMap)(nrec s ArchMap := rec_at s IdxMap pos)"
    "nrec s3 ArchMap = Suc (nrec s ArchMap)" "store_ok s3" "bc_lk s3 = bc_lk s"
    using assms ra ri ks by (auto simp: put_post_def keep_def)
  show d: "rec_data s3 = rec_data s"
    using keepD [OF ks] by (simp add: rec_data_def view_bytes_def fun_eq_iff)
  show "rec_sound s3 = rec_sound s"
    using keepD [OF ks] d by (simp add: rec_sound_def fun_eq_iff)
  have "64 * nrec s ArchMap \<le> vof s ArchMap" "64 * pos + 64 \<le> vof s IdxMap"
    using assms(3) unfolding nrec_def by linarith+
  then have "vsize s3 IdxMap \<le> 3000000000" "vsize s3 ArchMap \<le> 3000000000"
    "vof s3 IdxMap = vof s IdxMap" "vof s3 ArchMap \<le> vof s ArchMap + 64"
    using assms keepD [OF k(1), of IdxMap] keepD [OF k(2), of ArchMap] by (auto simp: put_post_def)
  then have "cap sl n s3" if "sl \<noteq> TabMap" "cap sl (n + 64) s" for sl
    using that keepD [OF ks, of sl] by (cases "sl = IdxMap \<or> sl = ArchMap") (auto simp: cap_def)
  then show "roomy (n + 64) s \<Longrightarrow> roomy n s3"
    by (simp add: roomy_def)
qed

lemma cleared_intro:
  assumes "chain_ok s" "live s IdxMap pos"
    "put_post ArchMap (nrec s ArchMap) (rec_at s IdxMap pos) s s2" "put_post IdxMap pos idx_zero s2 s3"
  shows "cleared pos s s3"
proof -
  let ?n = "nrec s ArchMap"
  have ok: "store_ok s" "tab_ok s" "recs_ok s" and pos: "pos < nrec s IdxMap"
    using assms by (simp_all add: chain_ok_def live_def)
  note v = cleared_views [OF assms(3,4) pos]
  have k: "keep {ArchMap} s s2"
    using assms(3) by (simp add: put_post_def)
  have "tab_ok s2" "pos < nrec s2 IdxMap"
    using tab_ok_keep [OF k] ok(2) keep_rec [OF k, of IdxMap] pos by simp_all
  then have "tab_ok s3"
    using put_post_tab_ok [OF _ assms(4)] by simp
  moreover have "recs_ok s3"
  proof (rule recs_ok_move [OF ok(3), where f = "\<lambda>q. if q = (ArchMap, ?n) then (IdxMap, pos) else q"])
    show "rec_sound s3 x = rec_sound s x" for x
      by (simp add: v(6))
    have l: "live s3 IdxMap i = (live s IdxMap i \<and> i \<noteq> pos)" "live s3 ArchMap i = (live s ArchMap i \<or> i = ?n)" for i
      using v(1-4) assms(2) by (auto simp: live_def)
    show "owns s (if q = (ArchMap, ?n) then (IdxMap, pos) else q) y" if "owns s3 q y" for q y
      using that assms(2) v(1,3) l by (cases q) (auto simp: owns_def)
    show "q = r" if "owns s3 q y" "owns s3 r z"
      "(if q = (ArchMap, ?n) then (IdxMap, pos) else q) = (if r = (ArchMap, ?n) then (IdxMap, pos) else r)"
      for q r y z
      using that l(1) [of pos] by (auto simp: owns_def split: if_splits)
  qed
  moreover have "idx_abs s3 = list_put (idx_abs s) pos None"
    using pos v by (intro abs_of_put [where x = idx_zero]) auto
  then have "idx_abs s3 = (idx_abs s)[pos := None]"
    using pos by (simp add: list_put_def)
  moreover have "arch_abs s3 = list_put (arch_abs s) ?n (idx_abs s ! pos)"
    using v pos assms(2) by (intro abs_of_put [where x = "rec_at s IdxMap pos"]) (auto simp: nth_abs_of live_def)
  then have "arch_abs s3 = arch_abs s @ [idx_abs s ! pos]"
    by (simp add: list_put_def)
  ultimately show ?thesis
    using v by (simp add: cleared_def chain_ok_def)
qed

lemma bc_clear_calm:
  assumes "chain_ok s" "roomy 64 s" "live s IdxMap pos"
  shows "wp (bc_clear pos s) (\<lambda>(e, s'). e = 0 \<and> cleared pos s s')"
proof -
  let ?x = "rec_at s IdxMap pos" and ?n = "nrec s ArchMap"
  have ok: "store_ok s" "tab_ok s" "recs_ok s" and pos: "pos < nrec s IdxMap"
    using assms by (simp_all add: chain_ok_def live_def)
  obtain s1 where g: "bc_idx_get True pos s = Ret ((0, ?x), s1)" "store_ok s1" "keep {} s s1"
    using idx.get_law [OF ok(1), of True pos] assms(3) by (auto simp: wp_iff)
  have "cap ArchMap 64 s1"
    using cap_keep [OF g(3)] roomy_cap [OF assms(2)] by simp
  then obtain s2 where a: "bc_arch_add ?x s1 = Ret (0, s2)" "put_post ArchMap ?n ?x s s2"
    using bc_arch_add_calm [OF g(2), of ?x] put_post_keep [OF g(3)] keep_rec [OF g(3), of ArchMap]
    by (auto simp: wp_iff)
  have k2: "store_ok s2" "keep {ArchMap} s s2"
    using a(2) by (simp_all add: put_post_def)
  have "cap IdxMap 64 s2" "pos < nrec s2 IdxMap"
    using cap_keep [OF k2(2)] roomy_cap [OF assms(2)] keep_rec [OF k2(2), of IdxMap] pos by simp_all
  then obtain s3 where c: "bc_idx_clear pos s2 = Ret (0, s3)" "put_post IdxMap pos idx_zero s2 s3"
    using bc_idx_clear_calm [OF k2(1)] by (fastforce simp: wp_iff)
  have "cleared pos s s3"
    by (rule cleared_intro [OF assms(1,3) a(2) c(2)])
  then show ?thesis
    using g(1) a(1) c(1) by (simp add: bc_clear_def)
qed

section \<open>Purging\<close>

definition stepped :: "nat \<Rightarrow> bc_state \<Rightarrow> bc_state \<Rightarrow> bool" where
  "stepped t s s' \<longleftrightarrow> chain_ok s' \<and> bc_lk s' = bc_lk s \<and> idx_abs s' = (idx_abs s)[t := None]
     \<and> arch_abs s' = arch_abs s @ filter (\<lambda>r. r \<noteq> None) [idx_abs s ! t]
     \<and> (\<forall>n. roomy (n + 64) s \<longrightarrow> roomy n s')"

lemma keep_chain:
  assumes "keep {} s s'" "store_ok s'" "chain_ok s"
  shows "chain_ok s'" "abs_of s' = abs_of s" "roomy n s' = roomy n s" "bc_lk s' = bc_lk s"
    "live s' = live s" "nrec s' = nrec s"
  using chain_ok_same [OF assms(3) keep_same [OF assms(1)] assms(2)] same_views [OF keep_same [OF assms(1)]]
    cap_keep [OF assms(1)] assms(1)
  by (simp_all add: roomy_def) (simp add: keep_def)

lemma live_abs: "live s sl i \<longleftrightarrow> i < length (abs_of s sl) \<and> abs_of s sl ! i \<noteq> None"
  by (cases "i < nrec s sl") (simp_all add: nth_abs_of, simp add: live_def)

lemma clear_stepped:
  assumes "chain_ok s" "roomy 64 s" "t < nrec s IdxMap"
  shows "wp (bc_clear t s) (\<lambda>(_, s'). stepped t s s')"
proof (cases "live s IdxMap t")
  case True
  then have "idx_abs s ! t \<noteq> None"
    by (simp add: live_abs)
  then have "cleared t s s' \<Longrightarrow> stepped t s s'" for s'
    by (simp add: cleared_def stepped_def)
  then show ?thesis
    using bc_clear_calm [OF assms(1,2) True] by (auto elim!: wp_mono)
next
  case False
  have ok: "store_ok s"
    using assms(1) by (simp add: chain_ok_def)
  obtain x s1 where g: "bc_idx_get True t s = Ret ((ERR_NOENT, x), s1)" "store_ok s1" "keep {} s s1"
    using idx.get_law [OF ok, of True t] False by (auto simp: wp_iff)
  note k = keep_chain [OF g(3,2) assms(1)]
  have n: "idx_abs s ! t = None"
    using False assms(3) by (simp add: nth_abs_of)
  then have "(idx_abs s)[t := None] = idx_abs s"
    by (metis list_update_id)
  then show ?thesis
    using g k n roomy_mono by (auto simp: bc_clear_def stepped_def)
qed

lemma purge_step:
  assumes "chain_ok s" "roomy 64 s" "t < nrec s IdxMap" "pos \<le> t" "0 < pos"
    and "\<And>s'. stepped t s s' \<Longrightarrow> wp (purge_loop fuel (t - 1) pos s') Q"
  shows "wp (purge_loop (Suc fuel) t pos s) Q"
proof -
  obtain e s1 where c: "bc_clear t s = Ret (e, s1)" "stepped t s s1"
    using clear_stepped [OF assms(1-3)] by (auto simp: wp_iff)
  have ok: "chain_ok s1" "store_ok s1"
    using c(2) by (simp_all add: stepped_def chain_ok_def)
  have "idx_abs s1 = (idx_abs s)[t := None]"
    using c(2) by (simp add: stepped_def)
  then have "\<not> live s1 IdxMap t"
    by (simp add: live_abs)
  then obtain x s2 where g: "bc_idx_get True t s1 = Ret ((ERR_NOENT, x), s2)" "store_ok s2" "keep {} s1 s2"
    using idx.get_law [OF ok(2), of True t] by (auto simp: wp_iff)
  have "stepped t s s2"
    using c(2) keep_chain [OF g(3,2) ok(1)] by (simp add: stepped_def)
  moreover have "u32_of_int (int t - 1) = t - 1"
    using assms(3-5) nrec_lt [of s IdxMap] by (simp add: u32_of_int_def nat_diff_distrib)
  ultimately show ?thesis
    using assms(4) c(1) g(1) assms(6) by simp
qed

definition purged :: "nat \<Rightarrow> nat \<Rightarrow> bc_state \<Rightarrow> bc_state \<Rightarrow> bool" where
  "purged pos k s s' \<longleftrightarrow> chain_ok s' \<and> bc_lk s' = bc_lk s
     \<and> idx_abs s' = take pos (idx_abs s) @ replicate k None @ drop (pos + k) (idx_abs s)
     \<and> arch_abs s' = arch_abs s @ rev (filter (\<lambda>r. r \<noteq> None) (take k (drop pos (idx_abs s))))"

lemma purged_step:
  assumes "stepped (pos + k) s s1" "purged pos k s1 s'" "pos + k < nrec s IdxMap"
  shows "purged pos (Suc k) s s'"
proof -
  let ?xs = "idx_abs s"
  have u: "drop (pos + k) (?xs[pos + k := None]) = None # drop (Suc (pos + k)) ?xs"
    using assms(3) by (simp add: upd_conv_take_nth_drop)
  have v: "take k (drop pos (?xs[pos + k := None])) = take k (drop pos ?xs)"
    by (simp add: drop_update_swap)
  have w: "take (Suc k) (drop pos ?xs) = take k (drop pos ?xs) @ [?xs ! (pos + k)]"
    using assms(3) by (simp add: take_Suc_conv_app_nth)
  have "replicate k None @ None # zs = replicate (Suc k) None @ zs" for zs :: "(bc_hash \<times> byte list) option list"
    by (simp add: replicate_app_Cons_same)
  then show ?thesis
    using assms(1,2) u v w by (simp add: purged_def stepped_def del: take_Suc)
qed

lemma purge_loop_calm:
  assumes "chain_ok s" "roomy (64 * k) s" "pos + k \<le> nrec s IdxMap" "0 < pos" "k < fuel"
  shows "wp (purge_loop fuel (pos + k - 1) pos s) (purged pos k s)"
  using assms
proof (induction k arbitrary: s fuel)
  case 0
  then show ?case
    by (cases fuel) (simp_all add: purged_def)
next
  case (Suc k)
  obtain f where f: "fuel = Suc f" "k < f"
    using Suc.prems(5) by (cases fuel) auto
  have "wp (purge_loop (Suc f) (pos + k) pos s) (purged pos (Suc k) s)"
  proof (rule purge_step)
    fix s1 assume st: "stepped (pos + k) s s1"
    have "nrec s1 IdxMap = nrec s IdxMap"
      using st by (metis length_abs_of length_list_update stepped_def)
    moreover have "roomy (64 * k) s1" "chain_ok s1"
      using st Suc.prems(2) by (simp_all add: stepped_def add.commute)
    ultimately have "wp (purge_loop f (pos + k - 1) pos s1) (purged pos k s1)"
      using Suc.prems f(2) by (intro Suc.IH) auto
    then show "wp (purge_loop f (pos + k - 1) pos s1) (purged pos (Suc k) s)"
      by (rule wp_mono) (use purged_step [OF st] Suc.prems(3) in auto)
  qed (use Suc.prems roomy_mono [OF Suc.prems(2)] in auto)
  then show ?case
    by (simp add: f(1))
qed

lemma roomy_alloc:
  assumes "roomy n s" "keep {DataMap j} s s'" "same s s'" "vsize s' (DataMap j) \<le> 3000000000"
  shows "roomy n s'"
proof -
  have "cap sl n s'" if "sl \<noteq> TabMap" for sl
    using that assms keepD [OF assms(2), of sl]
    by (cases "sl = DataMap j") (auto simp: roomy_def cap_def same_def)
  then show ?thesis
    by (simp add: roomy_def)
qed

text \<open>The checks \<open>_bc_purge\<close> makes before its loop.\<close>

lemma purge_checks:
  assumes "chain_ok s" "roomy n s" "live s IdxMap pos"
  obtains s3 where "\<And>fuel. s_bc_purge fuel pos s =
      andThen (purge_loop fuel (nrec s IdxMap - 1) pos s3) (\<lambda>s4. Ret (0, s4))"
    "chain_ok s3" "abs_of s3 = abs_of s" "roomy n s3" "bc_lk s3 = bc_lk s" "nrec s3 = nrec s"
proof -
  let ?x = "rec_at s IdxMap pos"
  have ok: "store_ok s" "recs_ok s" "roomy 0 s"
    using assms(1) roomy_mono [OF assms(2), of 0] by (simp_all add: chain_ok_def)
  obtain s1 s2 where r: "bc_idx_get True pos s = Ret ((0, ?x), s1)" "store_ok s1" "keep {} s s1"
    "bc_alloc (ix_jrnl ?x) s1 = Ret (0, s2)" "store_ok s2" "same s s2"
    "mapped (DataMap (ix_jrnl ?x)) s2" "rec_sound s2 ?x" "keep {DataMap (ix_jrnl ?x)} s s2"
    "vsize s2 (DataMap (ix_jrnl ?x)) \<le> 3000000000"
    by (rule idx_get_alloc [OF ok assms(3)])
  note v = same_views [OF r(6)]
  have c2: "chain_ok s2" "roomy n s2" "bc_lk s2 = bc_lk s"
    using chain_ok_same [OF assms(1) r(6,5)] roomy_alloc [OF assms(2) r(9,6,10)] r(6)
    by (simp_all add: same_def)
  obtain s3 where n: "bc_idx_next s2 = Ret ((0, nrec s IdxMap), s3)" "store_ok s3" "keep {} s2 s3"
    using idx.next_law [OF r(5)] v(3) by (auto simp: wp_iff)
  note k = keep_chain [OF n(3,2) c2(1)]
  have "nrec s IdxMap \<noteq> 0"
    using assms(3) by (simp add: live_def)
  then have "s_bc_purge fuel pos s =
      andThen (purge_loop fuel (nrec s IdxMap - 1) pos s3) (\<lambda>s4. Ret (0, s4))" for fuel
    using r(1,4,8) n(1) rec_sound_read(1) [OF r(5,7,8)] by (simp add: s_bc_purge_def rec_sound_def)
  then show thesis
    using that k c2 v by simp
qed

lemma bc_purge_calm:
  assumes "chain_ok s" "roomy (64 * (nrec s IdxMap - pos)) s" "live s IdxMap pos" "0 < pos"
    "nrec s IdxMap - pos < fuel"
  shows "wp (bc_purge fuel pos s) (\<lambda>(e, s'). e = 0 \<and> purged pos (nrec s IdxMap - pos) s s')"
proof -
  let ?k = "nrec s IdxMap - pos" and ?s = "s\<lparr>bc_lk := Suc (bc_lk s)\<rparr>"
  have p: "pos + ?k = nrec s IdxMap"
    using assms(3) by (simp add: live_def)
  obtain s3 where c: "\<And>fuel. s_bc_purge fuel pos ?s =
      andThen (purge_loop fuel (nrec ?s IdxMap - 1) pos s3) (\<lambda>s4. Ret (0, s4))"
    "chain_ok s3" "abs_of s3 = abs_of ?s" "roomy (64 * ?k) s3" "bc_lk s3 = bc_lk ?s" "nrec s3 = nrec ?s"
    by (rule purge_checks [of ?s "64 * ?k" pos]) (use assms in auto)
  have "wp (purge_loop fuel (pos + ?k - 1) pos s3) (purged pos ?k s3)"
    using p c(6) assms(4,5) by (intro purge_loop_calm [OF c(2,4)]) auto
  then obtain s4 where s4: "purge_loop fuel (nrec s IdxMap - 1) pos s3 = Ret s4" "purged pos ?k s3 s4"
    unfolding p by (auto simp: wp_iff)
  have "purged pos ?k s (bc_unlock s4)"
    using s4(2) c(3,5) by (simp add: purged_def) (simp add: bc_unlock_def)
  then show ?thesis
    using c(1) s4(1) assms(1) by (simp add: bc_purge_def locked_calm chain_ok_def store_ok_calm)
qed

definition live_count :: "bc_state \<Rightarrow> nat" where
  "live_count s = length (filter (\<lambda>r. r \<noteq> None) (idx_abs s))"

lemma filter_drop_one:
  assumes "i < length xs" "P (xs ! i)" "\<not> P v"
  shows "length (filter P xs) = Suc (length (filter P (xs[i := v])))"
proof -
  have "filter P xs = filter P (take i xs @ xs ! i # drop (Suc i) xs)"
    using id_take_nth_drop [OF assms(1)] by simp
  then show ?thesis
    using assms by (simp add: upd_conv_take_nth_drop)
qed

lemma clear_any:
  assumes "chain_ok s" "roomy (64 * live_count s) s"
  obtains e s1 where "bc_clear t s = Ret (e, s1)" "chain_ok s1" "roomy (64 * live_count s1) s1"
    "\<not> live s1 IdxMap t"
proof (cases "live s IdxMap t")
  case True
  then have t: "t < length (idx_abs s)" "idx_abs s ! t \<noteq> None"
    by (simp_all add: live_abs)
  then have n: "live_count s = Suc (length (filter (\<lambda>r. r \<noteq> None) ((idx_abs s)[t := None])))"
    unfolding live_count_def by (intro filter_drop_one) auto
  then have "roomy 64 s"
    using roomy_mono [OF assms(2), of 64] by simp
  then obtain s1 where c: "bc_clear t s = Ret (0, s1)" "cleared t s s1"
    using bc_clear_calm [OF assms(1) _ True] by (auto simp: wp_iff)
  have "64 * live_count s = 64 * live_count s1 + 64"
    using n c(2) by (simp add: cleared_def live_count_def)
  then have "roomy (64 * live_count s1) s1"
    using assms(2) c(2) by (simp add: cleared_def)
  moreover have "\<not> live s1 IdxMap t"
    using c(2) t(1) by (auto simp: live_abs cleared_def)
  ultimately show thesis
    using that c by (simp add: cleared_def)
next
  case False
  have ok: "store_ok s"
    using assms(1) by (simp add: chain_ok_def)
  obtain x s1 where g: "bc_idx_get True t s = Ret ((ERR_NOENT, x), s1)" "store_ok s1" "keep {} s s1"
    using idx.get_law [OF ok, of True t] False by (auto simp: wp_iff)
  show thesis
    using that g False keep_chain [OF g(3,2) assms(1)] assms(2) by (simp add: bc_clear_def live_count_def)
qed

lemma purge_loop_zero:
  assumes "chain_ok s" "roomy (64 * live_count s) s"
  shows "purge_loop fuel t 0 s = Hang"
  using assms
proof (induction fuel arbitrary: s t)
  case (Suc fuel)
  obtain e s1 where c: "bc_clear t s = Ret (e, s1)" "chain_ok s1" "roomy (64 * live_count s1) s1"
    "\<not> live s1 IdxMap t"
    by (rule clear_any [OF Suc.prems])
  have ok: "store_ok s1"
    using c(2) by (simp add: chain_ok_def)
  obtain x s2 where g: "bc_idx_get True t s1 = Ret ((ERR_NOENT, x), s2)" "store_ok s2" "keep {} s1 s2"
    using idx.get_law [OF ok, of True t] c(4) by (auto simp: wp_iff)
  note k = keep_chain [OF g(3,2) c(2)]
  have "purge_loop fuel (u32_of_int (int t - 1)) 0 s2 = Hang"
    using k c(3) by (intro Suc.IH) (simp_all add: live_count_def)
  then show ?case
    using c(1) g(1) by simp
qed simp

lemma bc_purge_zero:
  assumes "chain_ok s" "roomy (64 * live_count s) s" "live s IdxMap 0"
  shows "bc_purge fuel 0 s = Hang"
proof -
  let ?s = "s\<lparr>bc_lk := Suc (bc_lk s)\<rparr>"
  obtain s3 where c: "\<And>fuel. s_bc_purge fuel 0 ?s =
      andThen (purge_loop fuel (nrec ?s IdxMap - 1) 0 s3) (\<lambda>s4. Ret (0, s4))"
    "chain_ok s3" "abs_of s3 = abs_of ?s" "roomy (64 * live_count s) s3" "bc_lk s3 = bc_lk ?s" "nrec s3 = nrec ?s"
    by (rule purge_checks [of ?s "64 * live_count s" 0]) (use assms in auto)
  have "purge_loop fuel t 0 s3 = Hang" for t
    using c(3,4) by (intro purge_loop_zero [OF c(2)]) (simp add: live_count_def)
  then show ?thesis
    using c(1) assms(1) by (simp add: bc_purge_def locked_calm chain_ok_def store_ok_calm)
qed

section \<open>Rewriting a record\<close>

definition jpatch :: "bc_idx \<Rightarrow> byte list \<Rightarrow> bc_state \<Rightarrow> bc_state \<Rightarrow> bool" where
  "jpatch x data s s' \<longleftrightarrow>
     vbytes s' (DataMap (ix_jrnl x)) = put_bytes (vbytes s (DataMap (ix_jrnl x))) (ix_of x) data
     \<and> vof s' (DataMap (ix_jrnl x)) = vof s (DataMap (ix_jrnl x))
     \<and> (\<forall>k. k \<noteq> ix_jrnl x \<longrightarrow> vbytes s' (DataMap k) = vbytes s (DataMap k) \<and> vof s' (DataMap k) = vof s (DataMap k))"

lemma jpatch_other:
  assumes "jpatch x data s s'" "length data \<le> ix_size x" "apart x y" "rec_sound s y"
  shows "rec_data s' y = rec_data s y" "rec_sound s' y"
proof -
  have "vbytes s' (DataMap (ix_jrnl y)) (ix_of y + i) = vbytes s (DataMap (ix_jrnl y)) (ix_of y + i)"
    if "i < ix_size y" for i
    using assms that by (cases "ix_jrnl y = ix_jrnl x") (auto simp: jpatch_def apart_def put_bytes_def)
  then show d: "rec_data s' y = rec_data s y"
    by (simp add: rec_data_def view_bytes_def)
  have "vof s' (DataMap (ix_jrnl y)) = vof s (DataMap (ix_jrnl y))"
    using assms(1) by (cases "ix_jrnl y = ix_jrnl x") (auto simp: jpatch_def)
  then show "rec_sound s' y"
    using assms(4) d by (simp add: rec_sound_def)
qed

lemma jpatch_new:
  assumes "jpatch x data s s'" "length data \<le> ix_size x" "rec_sound s x"
    "x' = x\<lparr>ix_size := length data, ix_crc := shcrc32 data\<rparr>"
  shows "rec_data s' x' = data" "rec_sound s' x'"
proof -
  show d: "rec_data s' x' = data"
    using assms(1) by (intro nth_equalityI) (simp_all add: rec_data_def assms(4) view_bytes_def jpatch_def put_bytes_def)
  show "rec_sound s' x'"
    using assms d by (simp add: rec_sound_def jpatch_def)
qed

lemma recs_ok_patch:
  assumes "recs_ok s" "jpatch x data s s'" "length data \<le> ix_size x" "owns s p x"
    "x' = x\<lparr>ix_size := length data, ix_crc := shcrc32 data\<rparr>"
    and own: "\<And>q y. owns s' q y \<Longrightarrow> (q = p \<and> y = x') \<or> (q \<noteq> p \<and> owns s q y)"
  shows "recs_ok s'"
proof -
  have old: "owns s q y \<Longrightarrow> rec_sound s y" for q y
    using assms(1) unfolding recs_ok_def by blast
  have ap: "owns s q y \<Longrightarrow> q \<noteq> p \<Longrightarrow> apart x y" for q y
    using assms(1,4) unfolding recs_ok_def by blast
  have ap': "owns s q y \<Longrightarrow> q \<noteq> p \<Longrightarrow> apart x' y \<and> apart y x'" for q y
    using ap [of q y] assms(3,5) by (auto simp: apart_def)
  have "rec_sound s' y" if "owns s' q y" for q y
    using own [OF that] jpatch_new(2) [OF assms(2,3) old [OF assms(4)] assms(5)]
      jpatch_other(2) [OF assms(2,3)] ap old by blast
  moreover have "apart y z" if "owns s' q y" "owns s' r z" "q \<noteq> r" for q r y z
    using own [OF that(1)] own [OF that(2)] that(3) ap' assms(1) unfolding recs_ok_def by blast
  ultimately show ?thesis
    unfolding recs_ok_def by blast
qed

definition rewrote :: "nat \<Rightarrow> byte list \<Rightarrow> bc_state \<Rightarrow> bc_state \<Rightarrow> bool" where
  "rewrote pos data s s' \<longleftrightarrow>
     (let x = rec_at s IdxMap pos; x' = x\<lparr>ix_size := length data, ix_crc := shcrc32 data\<rparr> in
      store_ok s' \<and> tab_ok s' \<and> bc_lk s' = bc_lk s \<and> jpatch x data s s'
      \<and> rec_at s' IdxMap = (rec_at s IdxMap)(pos := x') \<and> nrec s' IdxMap = nrec s IdxMap
      \<and> rec_at s' ArchMap = rec_at s ArchMap \<and> nrec s' ArchMap = nrec s ArchMap)"

lemma rewrote_chain:
  assumes "chain_ok s" "live s IdxMap pos" "length data \<le> ix_size (rec_at s IdxMap pos)"
    "rewrote pos data s s'" "data \<noteq> []"
  shows "chain_ok s'" "idx_abs s' = (idx_abs s)[pos := Some (ix_hash (rec_at s IdxMap pos), data)]"
    "arch_abs s' = arch_abs s"
proof -
  let ?x = "rec_at s IdxMap pos"
  define x' where "x' = ?x\<lparr>ix_size := length data, ix_crc := shcrc32 data\<rparr>"
  have w: "store_ok s'" "tab_ok s'" "jpatch ?x data s s'" "rec_at s' IdxMap = (rec_at s IdxMap)(pos := x')"
    "nrec s' IdxMap = nrec s IdxMap" "rec_at s' ArchMap = rec_at s ArchMap" "nrec s' ArchMap = nrec s ArchMap"
    using assms(4) by (simp_all add: rewrote_def Let_def x'_def)
  have ok: "recs_ok s" and pos: "pos < nrec s IdxMap"
    using assms(1,2) by (simp_all add: chain_ok_def live_def)
  have own: "owns s (IdxMap, pos) ?x"
    using assms(2) by (simp add: owns_def)
  have "(q = (IdxMap, pos) \<and> y = x') \<or> (q \<noteq> (IdxMap, pos) \<and> owns s q y)" if "owns s' q y" for q y
    using that w(4-7) by (cases q) (auto simp: owns_def live_def split: if_splits)
  then have rk: "recs_ok s'"
    by (rule recs_ok_patch [OF ok w(3) assms(3) own x'_def])
  then show "chain_ok s'"
    using w by (simp add: chain_ok_def)
  have sd: "rec_sound s ?x"
    using live_sound [OF ok assms(2)] by simp
  have ap: "apart ?x (rec_at s sl i)" if "live s sl i" "(sl, i) \<noteq> (IdxMap, pos)" "sl = IdxMap \<or> sl = ArchMap" for sl i
  proof -
    have "owns s (sl, i) (rec_at s sl i)"
      using that by (simp add: owns_def)
    then show ?thesis
      using ok own that(2) unfolding recs_ok_def by metis
  qed
  have other: "rec_data s' (rec_at s sl i) = rec_data s (rec_at s sl i)"
    if "live s sl i" "(sl, i) \<noteq> (IdxMap, pos)" "sl = IdxMap \<or> sl = ArchMap" for sl i
    using jpatch_other(1) [OF w(3) assms(3) ap [OF that] live_sound [OF ok that(1,3)]] .
  have "idx_abs s' = list_put (idx_abs s) pos (Some (ix_hash ?x, data))"
    using pos other jpatch_new(1) [OF w(3) assms(3) sd x'_def] assms(5) w(4,5)
    by (intro abs_of_put [where x = x']) (auto simp: x'_def)
  then show "idx_abs s' = (idx_abs s)[pos := Some (ix_hash ?x, data)]"
    using pos by (simp add: list_put_def)
  show "arch_abs s' = arch_abs s"
    using w(6,7) other by (intro abs_of_cong) (auto simp: live_def)
qed

lemma rewrote_intro:
  assumes "tab_ok s" "live s IdxMap pos" "same s s2" "x = rec_at s IdxMap pos"
    "x' = x\<lparr>ix_size := length data, ix_crc := shcrc32 data\<rparr>" "put_post IdxMap pos x' s2 s3"
    "write_post (DataMap (ix_jrnl x)) (ix_of x) data s3 s4" "store_ok s4"
    "ix_of x + length data \<le> vof s (DataMap (ix_jrnl x))"
  shows "rewrote pos data s s4"
proof -
  let ?j = "ix_jrnl x"
  note v = same_views [OF assms(3)]
  have k: "keep {IdxMap} s2 s3" "keep {DataMap ?j} s3 s4"
    using assms(6) write_post_keep [OF assms(7)] by (simp_all add: put_post_def)
  have d3: "vbytes s3 (DataMap i) = vbytes s (DataMap i)" "vof s3 (DataMap i) = vof s (DataMap i)" for i
    using keepD [OF k(1), of "DataMap i"] assms(3) by (simp_all add: same_def)
  have "jpatch x data s s4"
    using assms(7,9) d3 keepD [OF k(2)] by (auto simp: jpatch_def write_post_def)
  moreover have "tab_ok s3"
    using put_post_tab_ok [OF _ assms(6)] assms(1,2,4,5) v by (simp add: live_def)
  then have "tab_ok s4"
    using tab_ok_keep [OF k(2)] by simp
  moreover have "rec_at s4 IdxMap = (rec_at s IdxMap)(pos := x')" "nrec s4 IdxMap = nrec s IdxMap"
    using keep_rec [OF k(2), of IdxMap] assms(2,6) v by (auto simp: put_post_def live_def)
  moreover have "rec_at s4 ArchMap = rec_at s ArchMap" "nrec s4 ArchMap = nrec s ArchMap"
    using keep_rec [OF k(2), of ArchMap] keep_rec [OF k(1), of ArchMap] v by simp_all
  moreover have "bc_lk s4 = bc_lk s"
    using k assms(3) by (simp add: keep_def same_def)
  ultimately show ?thesis
    using assms(4,5,8) by (simp add: rewrote_def Let_def)
qed

lemma rewrite_store:
  assumes "chain_ok s" "live s IdxMap pos" "x = rec_at s IdxMap pos" "ix_jrnl x = j"
    "x' = x\<lparr>ix_size := length data, ix_crc := shcrc32 data\<rparr>" "length data \<le> ix_size x"
    "length data < 4294967296"
    and s2: "store_ok s2" "same s s2" "mapped (DataMap j) s2" "roomy (64 + length data) s2"
  obtains s3 s4 where "bc_idx_reset pos x' s2 = Ret (0, s3)"
    "bc_map_write (DataMap j) (ix_of x) data s3 = Ret (0, s4)" "rewrote pos data s s4"
proof -
  note v = same_views [OF s2(2)]
  have ok: "tab_ok s" "recs_ok s"
    using assms(1) by (simp_all add: chain_ok_def)
  have "idx_wf x'"
    using idx_wf_rec_at [of s IdxMap pos] assms(7) by (simp add: assms(3,5) idx_wf_def)
  then obtain s3 where r: "bc_idx_reset pos x' s2 = Ret (0, s3)" "put_post IdxMap pos x' s2 s3"
    using bc_idx_reset_calm [OF s2(1) roomy_cap [OF s2(4)], of x' pos] assms(2) v(4) by (auto simp: wp_iff)
  have k3: "store_ok s3" "keep {IdxMap} s2 s3"
    using r(2) by (simp_all add: put_post_def)
  have sd: "rec_sound s x"
    using live_sound [OF ok(2) assms(2)] by (simp add: assms(3))
  have vo: "vof s3 (DataMap j) = vof s (DataMap j)"
    using keepD [OF k3(2)] v(8) by simp
  have m: "mapped (DataMap j) s3" "room (DataMap j) (length data) s3"
    using keep_mapped [OF k3(2,1) s2(3)] cap_keep [OF k3(2), of "DataMap j"]
      cap_alloc(1) [of s3 "DataMap j" "length data"] roomy_cap [OF s2(4)] k3(1) by (simp_all add: store_ok_def)
  then obtain s4 where w: "bc_map_write (DataMap j) (ix_of x) data s3 = Ret (0, s4)"
    "write_post (DataMap j) (ix_of x) data s3 s4"
    using bc_map_write_calm [of "DataMap j" s3 data "ix_of x"] sd assms(4) vo by (auto simp: wp_iff rec_sound_def)
  have "rewrote pos data s s4"
    using rewrote_intro [OF ok(1) assms(2) s2(2) assms(3,5) r(2)] w(2) write_post_data_ok [OF k3(1) w(2)]
      sd assms(4,6) by (simp add: rec_sound_def)
  then show thesis
    using that r(1) w(1) by blast
qed

lemma s_bc_rewrite_calm:
  assumes "chain_ok s" "jrnl_ok s" "roomy (64 + length data) s" "live s IdxMap pos"
  shows "wp (s_bc_rewrite pos hash data s) (\<lambda>(e, s').
     if length data \<le> ix_size (rec_at s IdxMap pos) then e = 0 \<and> rewrote pos data s s'
     else e = ERR_EXIST \<and> store_ok s' \<and> same s s')"
proof -
  define x where "x = rec_at s IdxMap pos"
  define j where "j = pos div 65536 + 1"
  have ok: "store_ok s" and xj: "ix_jrnl x = j"
    using assms(1,2,4) by (simp_all add: chain_ok_def jrnl_ok_def x_def j_def)
  have "pos \<le> 67108864"
    using assms(4) nrec_lt [of s IdxMap] by (simp add: live_def)
  note jr = journal_pos [OF this, folded j_def]
  obtain s1 where a: "bc_alloc j s = Ret (0, s1)" "store_ok s1" "mapped (DataMap j) s1" "same s s1"
    "keep {DataMap j} s s1" "vsize s1 (DataMap j) \<le> 3000000000"
    using alloc_same [OF ok jr(3) roomy_cap [OF assms(3)]] by (auto simp: wp_iff)
  obtain s2 where g: "bc_idx_get True pos s1 = Ret ((0, x), s2)" "store_ok s2" "keep {} s1 s2"
    using idx.get_law [OF a(2), of True pos] assms(4) same_views [OF a(4)] by (auto simp: wp_iff x_def)
  have sm: "same s s2" "mapped (DataMap j) s2" "roomy (64 + length data) s2"
    using same_trans [OF a(4) keep_same [OF g(3)]] keep_mapped [OF g(3,2) a(3)]
      roomy_alloc [OF assms(3) a(5,4,6)] cap_keep [OF g(3)] by (simp_all add: roomy_def)
  have len: "length data < 4294967296"
    using roomy_cap [OF assms(3), of IdxMap "64 + length data"] by (simp add: cap_def)
  show ?thesis
  proof (cases "length data \<le> ix_size x")
    case False
    then show ?thesis
      using a(1) g sm jr len by (simp add: s_bc_rewrite_def Let_def flip: x_def)
  next
    case True
    obtain s3 s4 where "bc_idx_reset pos (x\<lparr>ix_size := length data, ix_crc := shcrc32 data\<rparr>) s2 = Ret (0, s3)"
      "bc_map_write (DataMap j) (ix_of x) data s3 = Ret (0, s4)" "rewrote pos data s s4"
      by (rule rewrite_store [OF assms(1,4) x_def xj refl True len g(2) sm])
    then show ?thesis
      using True a(1) g(1) jr len by (simp add: s_bc_rewrite_def Let_def flip: x_def)
  qed
qed

text \<open>\<open>bc_write\<close> on a position that is taken: the hash of the old record stays.\<close>

definition taken_post :: "nat \<Rightarrow> byte list \<Rightarrow> bc_state \<Rightarrow> int \<times> bc_state \<Rightarrow> bool" where
  "taken_post pos data s = (\<lambda>(e, s'). chain_ok s' \<and> arch_abs s' = arch_abs s \<and>
     (if length data \<le> ix_size (rec_at s IdxMap pos)
      then e = 0 \<and> idx_abs s' = (idx_abs s)[pos := Some (ix_hash (rec_at s IdxMap pos), data)]
      else e = ERR_EXIST \<and> idx_abs s' = idx_abs s))"

lemma rewrite_taken:
  assumes "chain_ok s" "jrnl_ok s" "roomy (64 + length data) s" "live s IdxMap pos" "data \<noteq> []"
  shows "wp (s_bc_rewrite pos hash data s) (taken_post pos data s)"
proof -
  have "taken_post pos data s (e, s')" if "if length data \<le> ix_size (rec_at s IdxMap pos)
      then e = 0 \<and> rewrote pos data s s' else e = ERR_EXIST \<and> store_ok s' \<and> same s s'" for e s'
    using that rewrote_chain [OF assms(1,4) _ _ assms(5), of s'] chain_ok_same [OF assms(1), of s']
      same_views(7) [of s s']
    by (auto simp: taken_post_def split: if_splits)
  then show ?thesis
    using s_bc_rewrite_calm [OF assms(1-4), of hash] by (auto elim!: wp_mono)
qed

lemma write_taken:
  assumes "chain_ok s" "jrnl_ok s" "roomy (64 + length data) s" "live s IdxMap pos" "length hash = 32" "data \<noteq> []"
  shows "wp (s_bc_write pos hash data s) (taken_post pos data s)"
proof -
  define j where "j = pos div 65536 + 1"
  have ok: "store_ok s" and ps: "pos < nrec s IdxMap"
    using assms(1,4) by (simp_all add: chain_ok_def live_def)
  have "pos \<le> 67108864"
    using ps nrec_lt [of s IdxMap] by simp
  note jr = journal_pos [OF this, folded j_def]
  obtain s1 where a: "bc_alloc j s = Ret (0, s1)" "store_ok s1" "mapped (DataMap j) s1" "same s s1"
    "keep {DataMap j} s s1" "vsize s1 (DataMap j) \<le> 3000000000"
    using alloc_same [OF ok jr(3) roomy_cap [OF assms(3)]] by (auto simp: wp_iff)
  note v1 = same_views [OF a(4)]
  define x where "x = fresh_idx j (vof s (DataMap j)) hash data"
  have h: "hdr_of s1 (DataMap j) = Ret (vof s (DataMap j))"
    using hdr_of_calm [of "DataMap j" s1] a(3) v1(8) by simp
  have c1: "cap IdxMap 64 s1" "idx_wf x" "roomy (64 + length data) s1"
    using roomy_cap [OF assms(3), of IdxMap 64] cap_keep [OF a(5)] fresh_idx_wf [OF assms(5)] jr(3)
      roomy_alloc [OF assms(3) a(5,4,6)] by (simp_all add: x_def)
  obtain s2 where i: "bc_idx_set pos x s1 = Ret (ERR_EXIST, s2)" "store_ok s2" "keep {} s1 s2"
    using bc_idx_set_calm [OF a(2) c1(1,2), of pos] ps assms(4) v1 by (auto simp: wp_iff)
  have sm: "same s s2"
    using same_trans [OF a(4) keep_same [OF i(3)]] .
  note v2 = same_views [OF sm]
  have "wp (s_bc_rewrite pos hash data s2) (taken_post pos data s2)"
    using chain_ok_same [OF assms(1) sm i(2)] assms(2,4,6) v2 c1(3) cap_keep [OF i(3)]
    by (intro rewrite_taken) (simp_all add: jrnl_ok_def roomy_def)
  moreover have "taken_post pos data s2 = taken_post pos data s"
    using v2 by (simp add: taken_post_def)
  ultimately have "wp (s_bc_rewrite pos hash data s2) (taken_post pos data s)"
    by simp
  then show ?thesis
    using a(1) h i(1) jr by (auto simp: s_bc_write_def Let_def x_def taken_post_def elim!: wp_mono split: if_splits)
qed

lemma bc_write_taken:
  assumes "chain_ok s" "jrnl_ok s" "roomy (64 + length data) s" "live s IdxMap pos" "length hash = 32" "data \<noteq> []"
  shows "wp (bc_write pos hash data s) (taken_post pos data s)"
  unfolding bc_write_def
  by (rule locked_lift [where f = "s_bc_write pos hash data", OF write_taken])
    (use assms in \<open>auto simp: chain_ok_def store_ok_calm taken_post_def jrnl_ok_def\<close>)

end
