(* ===== verification/Bc_Log.thy ===== *)
theory Bc_Log
  imports Bc_Block_Props
begin

text \<open>
  The contract of the block store, as the rest of the daemon uses it: the locale \<open>rec_log\<close>, its
  interpretation on the operations of bc_block.c, and the refinement of sequences of operations
  to two lists of records. \<open>fresh_store\<close> is the concrete state the laws are used at.
\<close>

section \<open>The archive\<close>

definition arch_post :: "nat \<Rightarrow> bc_state \<Rightarrow> (int \<times> byte list) \<times> bc_state \<Rightarrow> bool" where
  "arch_post pos s = (\<lambda>((e, d), s'). store_ok s' \<and> same s s' \<and>
     (if live s ArchMap pos then e = 0 \<and> d = rec_data s (rec_at s ArchMap pos) else e = ERR_NOENT))"

lemma s_bc_arch_calm:
  assumes "store_ok s" "recs_ok s" "roomy 0 s"
  shows "wp (s_bc_arch pos s) (arch_post pos s)"
proof (cases "live s ArchMap pos")
  case True
  let ?x = "rec_at s ArchMap pos"
  obtain s1 where g: "bc_arch_get True pos s = Ret ((0, ?x), s1)" "store_ok s1" "keep {} s s1"
    using arch.get_law [OF assms(1), of True pos] True by (auto simp: wp_iff)
  have sd: "rec_sound s ?x"
    using live_sound [OF assms(2) True] by simp
  then have j: "ix_jrnl ?x < 4294967295"
    by (simp add: rec_sound_def)
  have "cap (DataMap (ix_jrnl ?x)) 0 s1"
    using roomy_cap [OF assms(3)] cap_keep [OF g(3)] by simp
  from alloc_same [OF g(2) j this] obtain s2 where a: "bc_alloc (ix_jrnl ?x) s1 = Ret (0, s2)"
    "store_ok s2" "mapped (DataMap (ix_jrnl ?x)) s2" "same s1 s2"
    by (auto simp: wp_iff)
  have sm: "same s s2"
    using same_trans [OF keep_same [OF g(3)] a(4)] .
  have sd2: "rec_sound s2 ?x" "rec_data s2 ?x = rec_data s ?x"
    using same_views [OF sm] sd by simp_all
  then show ?thesis
    using True g a sm rec_sound_read(1) [OF a(2,3) sd2(1)] store_ok_calm [OF g(2)]
    by (simp add: s_bc_arch_def arch_post_def rec_sound_def)
next
  case False
  then show ?thesis
    using arch.get_law [OF assms(1), of True pos]
    by (auto simp: s_bc_arch_def wp_iff arch_post_def intro: keep_same)
qed

lemma bc_arch_calm:
  assumes "store_ok s" "recs_ok s" "roomy 0 s"
  shows "wp (bc_arch pos s) (arch_post pos s)"
  unfolding bc_arch_def
  by (rule locked_lift [where f = "s_bc_arch pos", OF s_bc_arch_calm])
    (use assms in \<open>auto simp: store_ok_calm arch_post_def same_lock\<close>)

section \<open>The contract of the record store\<close>

text \<open>
  \<open>rec_log\<close> is what the rest of the daemon may rely on: a growing sequence of records, read by
  position, found by hash, whose entries can be moved to an archive.
\<close>

definition entry_at :: "(bc_hash \<times> byte list) option list \<Rightarrow> nat \<Rightarrow> (bc_hash \<times> byte list) option" where
  "entry_at xs i = (if i < length xs then xs ! i else None)"

definition read_result :: "(bc_hash \<times> byte list) option \<Rightarrow> int \<times> byte list \<Rightarrow> bool" where
  "read_result r = (\<lambda>(e, d). case r of None \<Rightarrow> e = ERR_NOENT | Some (h, d') \<Rightarrow> e = 0 \<and> d = d')"

lemma entry_at_append: "entry_at (xs @ [r]) i = (if i = length xs then r else entry_at xs i)"
  by (auto simp: entry_at_def nth_append)

lemma entry_at_abs:
  "entry_at (abs_of s sl) i =
     (if live s sl i then Some (ix_hash (rec_at s sl i), rec_data s (rec_at s sl i)) else None)"
  by (auto simp: entry_at_def nth_abs_of live_def)

lemma find_hash_append: "find_hash h (xs @ [Some (h, d)]) = Some (length xs)"
  by (simp add: find_hash_def)

text \<open>The operations of a client and what each returns to it.\<close>

datatype bc_op = OpAppend bc_hash "byte list" | OpGet nat | OpFind bc_hash | OpClear nat | OpArch nat

datatype bc_ret = RErr int | RData int "byte list" | RPos int int

type_synonym rec_list = "(bc_hash \<times> byte list) option list"

text \<open>The operations on the abstract state: the records of the index and of the archive.\<close>

definition read_ret :: "(bc_hash \<times> byte list) option \<Rightarrow> bc_ret" where
  "read_ret r = (case r of None \<Rightarrow> RData ERR_NOENT [] | Some (h, d) \<Rightarrow> RData 0 d)"

fun log_op :: "bc_op \<Rightarrow> rec_list \<times> rec_list \<Rightarrow> bc_ret \<times> rec_list \<times> rec_list" where
  "log_op (OpAppend h d) (ix, ar) = (RErr 0, ix @ [Some (h, d)], ar)"
| "log_op (OpGet p) (ix, ar) = (read_ret (entry_at ix p), ix, ar)"
| "log_op (OpArch p) (ix, ar) = (read_ret (entry_at ar p), ix, ar)"
| "log_op (OpFind h) (ix, ar) =
     ((case find_hash h ix of None \<Rightarrow> RPos ERR_NOENT (- 1) | Some q \<Rightarrow> RPos 0 (int q)), ix, ar)"
| "log_op (OpClear p) (ix, ar) =
     (case entry_at ix p of
        None \<Rightarrow> (RErr ERR_NOENT, ix, ar)
      | Some r \<Rightarrow> (RErr 0, ix[p := None], ar @ [Some r]))"

fun log_run :: "bc_op list \<Rightarrow> rec_list \<times> rec_list \<Rightarrow> bc_ret list \<times> rec_list \<times> rec_list" where
  "log_run [] a = ([], a)"
| "log_run (p # ps) a = (let (r, a1) = log_op p a; (rs, a2) = log_run ps a1 in (r # rs, a2))"

text \<open>What an operation needs of the maps, and that its arguments are of the C types.\<close>

fun op_need :: "bc_op \<Rightarrow> nat" where
  "op_need (OpAppend h d) = 64 + length d"
| "op_need (OpClear p) = 64"
| "op_need _ = 0"

fun op_wf :: "bc_op \<Rightarrow> bool" where
  "op_wf (OpAppend h d) = (length h = 32 \<and> d \<noteq> [])"
| "op_wf (OpFind h) = (length h = 32)"
| "op_wf _ = True"

definition data_ret :: "int \<times> byte list \<Rightarrow> bc_ret" where
  "data_ret r = RData (fst r) (if fst r = 0 then snd r else [])"

lemma data_ret_result: "read_result x r \<Longrightarrow> data_ret r = read_ret x"
  by (auto simp: read_result_def data_ret_def read_ret_def split: option.splits)

locale rec_log =
  fixes ok :: "'s \<Rightarrow> bool"
    and fits :: "nat \<Rightarrow> 's \<Rightarrow> bool"
    and ix ar :: "'s \<Rightarrow> rec_list"
    and append :: "bc_hash \<Rightarrow> byte list \<Rightarrow> 's \<Rightarrow> (int \<times> 's) res"
    and get aget :: "nat \<Rightarrow> 's \<Rightarrow> ((int \<times> byte list) \<times> 's) res"
    and find :: "bc_hash \<Rightarrow> 's \<Rightarrow> ((int \<times> int) \<times> 's) res"
    and clear :: "nat \<Rightarrow> 's \<Rightarrow> (int \<times> 's) res"
  assumes fits_mono: "fits n s \<Longrightarrow> m \<le> n \<Longrightarrow> fits m s"
    and append_law: "ok s \<Longrightarrow> fits (64 + length d) s \<Longrightarrow> length h = 32 \<Longrightarrow> d \<noteq> [] \<Longrightarrow>
        wp (append h d s) (\<lambda>(e, s'). e = 0 \<and> ok s' \<and> ix s' = ix s @ [Some (h, d)] \<and> ar s' = ar s
          \<and> (\<forall>n. fits (n + 64 + length d) s \<longrightarrow> fits n s'))"
    and get_law: "ok s \<Longrightarrow> fits 0 s \<Longrightarrow> wp (get p s) (\<lambda>(r, s'). ok s' \<and> ix s' = ix s \<and> ar s' = ar s
          \<and> (\<forall>n. fits n s \<longrightarrow> fits n s') \<and> read_result (entry_at (ix s) p) r)"
    and aget_law: "ok s \<Longrightarrow> fits 0 s \<Longrightarrow> wp (aget p s) (\<lambda>(r, s'). ok s' \<and> ix s' = ix s \<and> ar s' = ar s
          \<and> (\<forall>n. fits n s \<longrightarrow> fits n s') \<and> read_result (entry_at (ar s) p) r)"
    and find_law: "ok s \<Longrightarrow> length h = 32 \<Longrightarrow> wp (find h s) (\<lambda>((e, p), s'). ok s' \<and> ix s' = ix s \<and> ar s' = ar s
          \<and> (\<forall>n. fits n s \<longrightarrow> fits n s')
          \<and> (case find_hash h (ix s) of None \<Rightarrow> e = ERR_NOENT \<and> p = - 1 | Some q \<Rightarrow> e = 0 \<and> p = int q))"
    and clear_law: "ok s \<Longrightarrow> fits 64 s \<Longrightarrow> entry_at (ix s) p = Some r \<Longrightarrow>
        wp (clear p s) (\<lambda>(e, s'). e = 0 \<and> ok s' \<and> ix s' = (ix s)[p := None] \<and> ar s' = ar s @ [Some r]
          \<and> (\<forall>n. fits (n + 64) s \<longrightarrow> fits n s'))"
    and clear_none_law: "ok s \<Longrightarrow> entry_at (ix s) p = None \<Longrightarrow>
        wp (clear p s) (\<lambda>(e, s'). e = ERR_NOENT \<and> ok s' \<and> ix s' = ix s \<and> ar s' = ar s
          \<and> (\<forall>n. fits n s \<longrightarrow> fits n s'))"
begin

lemma append_get:
  assumes "ok s" "fits (64 + length d) s" "length h = 32" "d \<noteq> []"
  shows "wp (andThen (append h d s) (\<lambda>(e, s1). get p s1))
    (\<lambda>(r, s'). read_result (if p = length (ix s) then Some (h, d) else entry_at (ix s) p) r)"
proof -
  obtain s1 where a: "append h d s = Ret (0, s1)" "ok s1" "ix s1 = ix s @ [Some (h, d)]" "fits 0 s1"
    using append_law [OF assms] assms(2) by (auto simp: wp_iff)
  show ?thesis
    using get_law [OF a(2,4), of p] by (auto simp: a(1,3) entry_at_append elim!: wp_mono)
qed

lemma append_find:
  assumes "ok s" "fits (64 + length d) s" "length h = 32" "d \<noteq> []"
  shows "wp (andThen (append h d s) (\<lambda>(e, s1). find h s1))
    (\<lambda>((e, p), s'). e = 0 \<and> p = int (length (ix s)))"
proof -
  obtain s1 where a: "append h d s = Ret (0, s1)" "ok s1" "ix s1 = ix s @ [Some (h, d)]"
    using append_law [OF assms] by (auto simp: wp_iff)
  show ?thesis
    using find_law [OF a(2) assms(3)] by (auto simp: a(1,3) find_hash_append elim!: wp_mono)
qed

lemma clear_moves:
  assumes "ok s" "fits 64 s" "entry_at (ix s) p = Some (h, d)"
  shows "wp (andThen (clear p s) (\<lambda>(e, s1). andThen (get p s1) (\<lambda>((e1, d1), s2).
      andThen (aget (length (ar s)) s1) (\<lambda>((e2, d2), s3). Ret (e1, e2, d2)))))
    (\<lambda>(e1, e2, d2). e1 = ERR_NOENT \<and> e2 = 0 \<and> d2 = d)"
proof -
  obtain s1 where c: "clear p s = Ret (0, s1)" "ok s1" "ix s1 = (ix s)[p := None]"
    "ar s1 = ar s @ [Some (h, d)]" "fits 0 s1"
    using clear_law [OF assms] assms(2) by (auto simp: wp_iff)
  obtain r s2 where g: "get p s1 = Ret (r, s2)" "read_result (entry_at (ix s1) p) r"
    using get_law [OF c(2,5), of p] by (auto simp: wp_iff)
  obtain q s3 where a: "aget (length (ar s)) s1 = Ret (q, s3)" "read_result (entry_at (ar s1) (length (ar s))) q"
    using aget_law [OF c(2,5), of "length (ar s)"] by (auto simp: wp_iff)
  have "entry_at (ix s1) p = None"
    by (simp add: c(3) entry_at_def)
  then show ?thesis
    using g a by (auto simp: c(1,4) read_result_def entry_at_append)
qed

text \<open>Any sequence of operations.\<close>

fun do_op :: "bc_op \<Rightarrow> 's \<Rightarrow> (bc_ret \<times> 's) res" where
  "do_op (OpAppend h d) s = andThen (append h d s) (\<lambda>(e, s1). Ret (RErr e, s1))"
| "do_op (OpGet p) s = andThen (get p s) (\<lambda>(r, s1). Ret (data_ret r, s1))"
| "do_op (OpArch p) s = andThen (aget p s) (\<lambda>(r, s1). Ret (data_ret r, s1))"
| "do_op (OpFind h) s = andThen (find h s) (\<lambda>((e, p), s1). Ret (RPos e p, s1))"
| "do_op (OpClear p) s = andThen (clear p s) (\<lambda>(e, s1). Ret (RErr e, s1))"

fun do_ops :: "bc_op list \<Rightarrow> 's \<Rightarrow> (bc_ret list \<times> 's) res" where
  "do_ops [] s = Ret ([], s)"
| "do_ops (p # ps) s =
     andThen (do_op p s) (\<lambda>(r, s1). andThen (do_ops ps s1) (\<lambda>(rs, s2). Ret (r # rs, s2)))"

lemma do_op_refines:
  assumes "ok s" "fits (op_need p) s" "op_wf p"
  shows "wp (do_op p s) (\<lambda>(r, s'). ok s' \<and> (\<forall>n. fits (n + op_need p) s \<longrightarrow> fits n s')
    \<and> (r, ix s', ar s') = log_op p (ix s, ar s))"
proof (cases p)
  case (OpAppend h d)
  then show ?thesis
    using append_law [of s d h] assms by (auto simp: wp_iff add.assoc)
next
  case (OpGet q)
  then show ?thesis
    using get_law [of s q] assms by (auto simp: wp_iff data_ret_result)
next
  case (OpFind h)
  then show ?thesis
    using find_law [of s h] assms by (auto simp: wp_iff split: option.splits)
next
  case (OpClear q)
  then show ?thesis
    using clear_law [of s q] clear_none_law [of s q] assms fits_mono
    by (cases "entry_at (ix s) q") (fastforce simp: wp_iff)+
next
  case (OpArch q)
  then show ?thesis
    using aget_law [of s q] assms by (auto simp: wp_iff data_ret_result)
qed

lemma do_ops_refines:
  assumes "ok s" "fits (\<Sum>p\<leftarrow>ps. op_need p) s" "\<forall>p \<in> set ps. op_wf p"
  shows "wp (do_ops ps s) (\<lambda>(rs, s'). ok s' \<and> (rs, ix s', ar s') = log_run ps (ix s, ar s))"
  using assms
proof (induction ps arbitrary: s)
  case (Cons p ps)
  have "fits (op_need p) s"
    using fits_mono [OF Cons.prems(2)] by simp
  from do_op_refines [OF Cons.prems(1) this] Cons.prems(3)
  obtain r s1 where p: "do_op p s = Ret (r, s1)" "ok s1" "(r, ix s1, ar s1) = log_op p (ix s, ar s)"
    and n: "\<forall>n. fits (n + op_need p) s \<longrightarrow> fits n s1"
    by (auto simp: wp_iff)
  have "fits (\<Sum>p\<leftarrow>ps. op_need p) s1"
    using Cons.prems(2) n by (simp add: ac_simps)
  from Cons.IH [OF p(2) this] Cons.prems(3)
  obtain rs s2 where "do_ops ps s1 = Ret (rs, s2)" "ok s2" "(rs, ix s2, ar s2) = log_run ps (ix s1, ar s1)"
    by (auto simp: wp_iff)
  then show ?case
    by (simp add: p(1) p(3) [symmetric]) (simp flip: \<open>(rs, ix s2, ar s2) = log_run ps (ix s1, ar s1)\<close>)
qed simp

end

lemma list_put_end: "list_put xs (length xs) v = xs @ [v]"
  by (simp add: list_put_def)

lemma bc_clear_none:
  assumes "chain_ok s" "\<not> live s IdxMap p"
  shows "wp (bc_clear p s) (\<lambda>(e, s'). e = ERR_NOENT \<and> same s s' \<and> store_ok s')"
  using idx.get_law [of s True p] assms
  by (auto simp: bc_clear_def chain_ok_def wp_iff intro: keep_same)

interpretation blk: rec_log chain_ok roomy idx_abs arch_abs bc_append bc_get bc_arch bc_find bc_clear
proof
  fix s :: bc_state and n m p :: nat and h :: bc_hash and d :: "byte list" and r
  show "roomy n s \<Longrightarrow> m \<le> n \<Longrightarrow> roomy m s"
    by (rule roomy_mono)
  show "wp (bc_append h d s) (\<lambda>(e, s'). e = 0 \<and> chain_ok s' \<and> idx_abs s' = idx_abs s @ [Some (h, d)]
      \<and> arch_abs s' = arch_abs s \<and> (\<forall>n. roomy (n + 64 + length d) s \<longrightarrow> roomy n s'))"
    if "chain_ok s" "roomy (64 + length d) s" "length h = 32" "d \<noteq> []"
    by (rule wp_mono [OF bc_append_calm [OF that]])
      (use list_put_end [of "idx_abs s" "Some (h, d)"] in \<open>auto simp: put_rec_def\<close>)
  show "wp (bc_get p s) (\<lambda>(r, s'). chain_ok s' \<and> idx_abs s' = idx_abs s \<and> arch_abs s' = arch_abs s
      \<and> (\<forall>n. roomy n s \<longrightarrow> roomy n s') \<and> read_result (entry_at (idx_abs s) p) r)" if "chain_ok s" "roomy 0 s"
    by (rule wp_mono [OF bc_get_calm])
      (use that in \<open>auto simp: chain_ok_def get_post_def same_views same_roomy read_result_def entry_at_abs split: if_splits\<close>)
  show "wp (bc_arch p s) (\<lambda>(r, s'). chain_ok s' \<and> idx_abs s' = idx_abs s \<and> arch_abs s' = arch_abs s
      \<and> (\<forall>n. roomy n s \<longrightarrow> roomy n s') \<and> read_result (entry_at (arch_abs s) p) r)" if "chain_ok s" "roomy 0 s"
    by (rule wp_mono [OF bc_arch_calm])
      (use that in \<open>auto simp: chain_ok_def arch_post_def same_views same_roomy read_result_def entry_at_abs split: if_splits\<close>)
  show "wp (bc_find h s) (\<lambda>((e, p), s'). chain_ok s' \<and> idx_abs s' = idx_abs s \<and> arch_abs s' = arch_abs s
      \<and> (\<forall>n. roomy n s \<longrightarrow> roomy n s')
      \<and> (case find_hash h (idx_abs s) of None \<Rightarrow> e = ERR_NOENT \<and> p = - 1 | Some q \<Rightarrow> e = 0 \<and> p = int q))"
    if "chain_ok s" "length h = 32"
    using bc_find_calm [OF that] by (simp add: conj_assoc)
  show "wp (bc_clear p s) (\<lambda>(e, s'). e = 0 \<and> chain_ok s' \<and> idx_abs s' = (idx_abs s)[p := None]
      \<and> arch_abs s' = arch_abs s @ [Some r] \<and> (\<forall>n. roomy (n + 64) s \<longrightarrow> roomy n s'))"
    if "chain_ok s" "roomy 64 s" "entry_at (idx_abs s) p = Some r"
  proof -
    have l: "live s IdxMap p"
      using that(3) by (simp add: entry_at_abs split: if_splits)
    then have "idx_abs s ! p = Some r"
      using that(3) by (simp add: entry_at_def live_def split: if_splits)
    with bc_clear_calm [OF that(1,2) l] show ?thesis
      by (auto simp: cleared_def elim!: wp_mono)
  qed
  show "wp (bc_clear p s) (\<lambda>(e, s'). e = ERR_NOENT \<and> chain_ok s' \<and> idx_abs s' = idx_abs s
      \<and> arch_abs s' = arch_abs s \<and> (\<forall>n. roomy n s \<longrightarrow> roomy n s'))"
    if "chain_ok s" "entry_at (idx_abs s) p = None"
    by (rule wp_mono [OF bc_clear_none])
      (use that in \<open>auto simp: entry_at_abs same_views same_roomy chain_ok_same split: if_splits\<close>)
qed

section \<open>A store that has just been created\<close>

text \<open>
  The store \<open>bc_open\<close> returns over an empty directory, before any map is opened. It is the
  concrete state at which the laws above are used.
\<close>

definition fresh_desc :: desc_state where
  "fresh_desc = \<lparr>ds_table = None, ds_total_claim = 0, ds_total_mark = 0, ds_total_release = 0,
     ds_max_fd = 0, ds_open_max = 1024, ds_kind = (\<lambda>_. None), ds_addr = (\<lambda>_. None), ds_now = 1\<rparr>"

definition fresh_store :: bc_state where
  "fresh_store = \<lparr>bc_name = ''shc_block'', idx_map = bc_map_zero, tab_map = bc_map_zero,
     arch_map = bc_map_zero, data_map = [], bc_lk = 0, os_faults = [], os_files = (\<lambda>_. None),
     os_isreg = (\<lambda>_. True), os_next_fd = 3, os_base = ''blockchain'', os_ifaces = [],
     os_desc = fresh_desc\<rparr>"

lemma fresh_vfile [simp]: "vfile fresh_store sl = None"
  by (simp add: vfile_def fresh_store_def)

lemma fresh_views [simp]:
  "vof fresh_store sl = 0" "nrec fresh_store sl = 0" "\<not> live fresh_store sl i" "vsize fresh_store sl = 16384"
  by (simp_all add: vof_def nrec_def live_def vsize_def)

lemma fresh_abs [simp]: "abs_of fresh_store sl = []"
  by (simp add: abs_of_def)

lemma fresh_inv: "bc_inv fresh_store"
proof -
  have "map_ok fresh_store sl" if "valid_slot fresh_store sl" for sl
    using that by (cases sl) (simp_all add: map_ok_def fresh_store_def bc_map_zero_def)
  then show ?thesis
    by (auto simp: bc_inv_def) (simp_all add: fresh_store_def)
qed

lemma fresh_store_ok: "store_ok fresh_store"
  unfolding store_ok_def by (simp add: fresh_inv) (simp add: fresh_store_def bc_map_zero_def)

lemma fresh_tab_entry [simp]: "tab_entry fresh_store h = 0"
  by (simp add: tab_entry_def view_bytes_def vbytes_def ld32_def nth0_def)

lemma fresh_chain_ok: "chain_ok fresh_store"
  by (simp add: chain_ok_def fresh_store_ok tab_ok_def entry_ok_def recs_ok_def owns_def)

lemma fresh_roomy: "n \<le> 500000000 \<Longrightarrow> roomy n fresh_store"
  by (simp add: roomy_def cap_def)

lemma fresh_jrnl_ok: "jrnl_ok fresh_store"
  by (simp add: jrnl_ok_def)

end
