(* ===== verification/Store_Correct.thy ===== *)
theory Store_Correct
  imports Bc_Log
begin

text \<open>
  The properties of the block store (bc_fmap.c, bc_table.c, bc_index.c, bc_arch.c, bc_block.c),
  stated over the definitions of the model, each with an application at a concrete store.
\<close>

section \<open>Sequences of operations\<close>

fun store_op :: "bc_op \<Rightarrow> bc_state \<Rightarrow> (bc_ret \<times> bc_state) res" where
  "store_op (OpAppend h d) s = andThen (bc_append h d s) (\<lambda>(e, s1). Ret (RErr e, s1))"
| "store_op (OpGet p) s = andThen (bc_get p s) (\<lambda>(r, s1). Ret (data_ret r, s1))"
| "store_op (OpArch p) s = andThen (bc_arch p s) (\<lambda>(r, s1). Ret (data_ret r, s1))"
| "store_op (OpFind h) s = andThen (bc_find h s) (\<lambda>((e, p), s1). Ret (RPos e p, s1))"
| "store_op (OpClear p) s = andThen (bc_clear p s) (\<lambda>(e, s1). Ret (RErr e, s1))"

fun store_run :: "bc_op list \<Rightarrow> bc_state \<Rightarrow> (bc_ret list \<times> bc_state) res" where
  "store_run [] s = Ret ([], s)"
| "store_run (p # ps) s =
     andThen (store_op p s) (\<lambda>(r, s1). andThen (store_run ps s1) (\<lambda>(rs, s2). Ret (r # rs, s2)))"

lemma store_run_do_ops: "store_run ps s = blk.do_ops ps s"
proof -
  have op: "store_op p s = blk.do_op p s" for p s
    by (cases p) simp_all
  show ?thesis
    by (induction ps arbitrary: s) (simp_all add: op)
qed

abbreviation hash_of :: "nat \<Rightarrow> bc_hash" where
  "hash_of n \<equiv> replicate 32 (word_of_nat n)"

text \<open>A store with two records, reached from the fresh one.\<close>

lemma two_records:
  obtains s where "chain_ok s" "jrnl_ok s" "roomy 400000000 s" "arch_abs s = []"
    "idx_abs s = [Some (hash_of 1, [1, 2, 3]), Some (hash_of 2, [4, 5])]"
proof -
  obtain s1 where a: "put_rec 0 (hash_of 1) [1, 2, 3] fresh_store s1"
    using bc_append_calm [OF fresh_chain_ok fresh_roomy, of "[1, 2, 3]" "hash_of 1"] by (auto simp: wp_iff)
  then have s1: "chain_ok s1" "jrnl_ok s1" "roomy 450000000 s1" "idx_abs s1 = [Some (hash_of 1, [1, 2, 3])]"
    "arch_abs s1 = []"
    using fresh_roomy [of "450000000 + 67"] fresh_jrnl_ok by (simp_all add: put_rec_def list_put_def)
  then have n: "nrec s1 IdxMap = 1"
    using length_abs_of [of s1 IdxMap] by simp
  obtain s2 where b: "put_rec 1 (hash_of 2) [4, 5] s1 s2"
    using bc_append_calm [OF s1(1) roomy_mono [OF s1(3)], of "[4, 5]" "hash_of 2"] n by (auto simp: wp_iff)
  then have "chain_ok s2" "jrnl_ok s2" "roomy 400000000 s2" "arch_abs s2 = []"
    "idx_abs s2 = [Some (hash_of 1, [1, 2, 3]), Some (hash_of 2, [4, 5])]"
    using roomy_mono [OF s1(3), of "400000000 + 66"] s1 by (simp_all add: put_rec_def list_put_def)
  then show thesis
    by (rule that)
qed

section \<open>Properties\<close>

text \<open>
  C1. Refinement: any sequence of appends, reads, searches, clears and archive reads on a store
  that satisfies the invariant and has room for it runs without a crash, keeps the invariant,
  and returns to the caller exactly what the same operations return on two lists of records
  (the index and the archive).
\<close>

theorem store_run_refines:
  assumes "chain_ok s" "roomy (\<Sum>p\<leftarrow>ps. op_need p) s" "\<forall>p \<in> set ps. op_wf p"
  shows "wp (store_run ps s) (\<lambda>(rs, s'). chain_ok s'
    \<and> (rs, idx_abs s', arch_abs s') = log_run ps (idx_abs s, arch_abs s))"
  using blk.do_ops_refines [OF assms] by (simp add: store_run_do_ops)

theorem store_run_refines_witness:
  "\<exists>s'. store_run [OpAppend (hash_of 1) [1, 2, 3], OpAppend (hash_of 2) [4], OpFind (hash_of 1),
       OpClear 0, OpGet 0, OpArch 0, OpGet 1, OpFind (hash_of 1)] fresh_store
     = Ret ([RErr 0, RErr 0, RPos 0 0, RErr 0, RData ERR_NOENT [], RData 0 [1, 2, 3], RData 0 [4],
             RPos ERR_NOENT (- 1)], s')"
proof -
  let ?ps = "[OpAppend (hash_of 1) [1, 2, 3], OpAppend (hash_of 2) [4], OpFind (hash_of 1),
       OpClear 0, OpGet 0, OpArch 0, OpGet 1, OpFind (hash_of 1)]"
  have l: "fst (log_run ?ps ([], [])) = [RErr 0, RErr 0, RPos 0 0, RErr 0, RData ERR_NOENT [],
      RData 0 [1, 2, 3], RData 0 [4], RPos ERR_NOENT (- 1)]"
    by (simp add: entry_at_def find_hash_def read_ret_def numeral_2_eq_2)
  have "wp (store_run ?ps fresh_store) (\<lambda>(rs, s'). chain_ok s'
      \<and> (rs, idx_abs s', arch_abs s') = log_run ?ps (idx_abs fresh_store, arch_abs fresh_store))"
    by (rule store_run_refines) (simp_all add: fresh_chain_ok fresh_roomy)
  then show ?thesis
    using l by (auto simp: wp_iff fst_conv simp del: store_run.simps log_run.simps) (metis fst_conv)
qed

text \<open>
  Round trip: after a record is appended, reading any position returns the new record at the
  old end of the index and what was there before everywhere else.
\<close>

lemma append_then_get:
  assumes "chain_ok s" "roomy (64 + length data) s" "length hash = 32" "data \<noteq> []"
  shows "wp (andThen (bc_append hash data s) (\<lambda>(e, s1). bc_get p s1))
    (\<lambda>(r, s'). read_result (if p = nrec s IdxMap then Some (hash, data) else entry_at (idx_abs s) p) r)"
  using blk.append_get [OF assms] by simp

text \<open>
  A record that has just been appended is the one the search by its hash finds, even when
  earlier records have the same hash or the table caches another position.
\<close>

lemma append_then_find:
  assumes "chain_ok s" "roomy (64 + length data) s" "length hash = 32" "data \<noteq> []"
  shows "wp (andThen (bc_append hash data s) (\<lambda>(e, s1). bc_find hash s1))
    (\<lambda>((e, p), s'). e = 0 \<and> p = int (nrec s IdxMap))"
  using blk.append_find [OF assms] by simp

end
