(* ===== verification/Script_Num.thy ===== *)
theory Script_Num
  imports Coin_Prelude
begin

text \<open>
  Numbers on the script stack: \<open>CScriptNum\<close> (server/script.h) and \<open>CBigNum\<close> (libcoin/bignum.h)
  with the casts of server/script.cpp. A byte string is a little-endian magnitude whose highest
  bit is the sign. Values are integers; the code keeps them in 64 bits and reads at most five
  bytes, so nothing wraps.
\<close>

unbundle bit_operations_syntax

section \<open>Byte strings as numbers\<close>

text \<open>The loop that shifts the bytes together, the first byte lowest.\<close>

fun vch_value :: "byte list \<Rightarrow> nat" where
  "vch_value [] = 0"
| "vch_value (b # bs) = unat b OR push_bit 8 (vch_value bs)"

text \<open>The loop that takes the bytes of a magnitude off, the lowest first.\<close>

function le_bytes :: "nat \<Rightarrow> byte list" where
  "le_bytes n = (if n = 0 then [] else byte_of (n AND 255) # le_bytes (drop_bit 8 n))"
  by pat_completeness auto
termination
  by (relation "measure id") (auto simp: drop_bit_eq_div)

declare le_bytes.simps [simp del]

definition top_bit :: "byte \<Rightarrow> bool" where
  "top_bit b \<longleftrightarrow> b AND 128 \<noteq> 0"

section \<open>CScriptNum\<close>

definition scriptnum_serialize :: "int \<Rightarrow> byte list" where
  "scriptnum_serialize value =
     (if value = 0 then []
      else (let neg = value < 0; result = le_bytes (nat \<bar>value\<bar>) in
        if top_bit (last result) then result @ [if neg then 128 else 0]
        else if neg then butlast result @ [last result OR 128]
        else result))"

definition scriptnum_set_vch :: "byte list \<Rightarrow> int" where
  "scriptnum_set_vch vch =
     (if vch = [] then 0
      else (let result = vch_value vch in
        if top_bit (last vch) then - int (unset_bit (8 * (length vch - 1) + 7) result)
        else int result))"

text \<open>The constructor from a byte string; \<open>None\<close> is the exception \<open>scriptnum_error\<close>.\<close>

definition CScriptNum :: "byte list \<Rightarrow> bool \<Rightarrow> nat \<Rightarrow> int option" where
  "CScriptNum vch fRequireMinimal nMaxNumSize =
     (if length vch > nMaxNumSize then None
      else if fRequireMinimal \<and> length vch > 0 \<and> last vch AND 127 = 0
              \<and> (length vch \<le> 1 \<or> \<not> top_bit (vch ! (length vch - 2)))
      then None
      else Some (scriptnum_set_vch vch))"

definition scriptnum_getint :: "int \<Rightarrow> int" where
  "scriptnum_getint m_value =
     (if m_value > 2147483647 then 2147483647
      else if m_value < - 2147483648 then - 2147483648 else m_value)"

section \<open>CBigNum\<close>

text \<open>
  An OpenSSL \<open>BIGNUM\<close> is its sign flag and its magnitude; a zero can carry the sign. \<open>BN_bn2mpi\<close>
  and \<open>BN_mpi2bn\<close> write and read the magnitude with the highest byte first.
\<close>

type_synonym bignum = "bool \<times> nat"

definition bn_int :: "bignum \<Rightarrow> int" where
  "bn_int a = (if fst a then - int (snd a) else int (snd a))"

definition bn_of_int :: "int \<Rightarrow> bignum" where
  "bn_of_int i = (i < 0, nat \<bar>i\<bar>)"

fun bn_num_bits :: "nat \<Rightarrow> nat" where
  "bn_num_bits n = (if n = 0 then 0 else Suc (bn_num_bits (n div 2)))"

declare bn_num_bits.simps [simp del]

definition bn_getvch :: "bignum \<Rightarrow> byte list" where
  "bn_getvch a =
     (let bits = bn_num_bits (snd a);
          num = (bits + 7) div 8;
          ext = (if bits > 0 \<and> bits mod 8 = 0 then 1 else 0 :: nat)
      in if num + 4 + ext \<le> 4 then []
         else (let d = (if ext = 1 then [0] else []) @ rev (le_bytes (snd a))
               in rev (if fst a then (hd d OR 128) # tl d else d)))"

definition bn_setvch :: "byte list \<Rightarrow> bignum" where
  "bn_setvch vch =
     (if vch = [] then (False, 0)
      else (let neg = top_bit (last vch); m = vch_value vch
            in (neg, if neg then unset_bit (bn_num_bits m - 1) m else m)))"

definition bn_getint :: "bignum \<Rightarrow> int" where
  "bn_getint a =
     (if \<not> fst a then (if snd a > 2147483647 then 2147483647 else int (snd a))
      else (if snd a > 2147483647 then - 2147483648 else - int (snd a)))"

section \<open>Casts of script values\<close>

definition CastToBigNum :: "byte list \<Rightarrow> bignum option" where
  "CastToBigNum vch = (if length vch > 4 then None else Some (bn_setvch (bn_getvch (bn_setvch vch))))"

fun CastToBool :: "byte list \<Rightarrow> bool" where
  "CastToBool [] = False"
| "CastToBool (b # bs) = (if b \<noteq> 0 then \<not> (bs = [] \<and> b = 128) else CastToBool bs)"

section \<open>Arithmetic of bytes\<close>

lemma top_bit_bit: "top_bit b \<longleftrightarrow> bit b 7"
  using bit_iff_and_push_bit_not_eq_0 [of b 7] by (simp add: top_bit_def)

lemma top_bit_unat: "top_bit b \<longleftrightarrow> 128 \<le> unat b"
proof -
  have "bit b 7 \<longleftrightarrow> bit (unat b) 7"
    by (simp add: bit_unsigned_iff)
  also have "\<dots> \<longleftrightarrow> odd (unat b div 128)"
    by (simp add: bit_iff_odd)
  also have "\<dots> \<longleftrightarrow> 128 \<le> unat b"
  proof (cases "128 \<le> unat b")
    case True
    then have "unat b div 128 = 1"
      using unat_byte_lt [of b] by (intro div_nat_eqI) auto
    then show ?thesis
      using True by simp
  qed simp
  finally show ?thesis
    by (simp add: top_bit_bit)
qed

lemma or_add: "(a::nat) < 2 ^ n \<Longrightarrow> a OR push_bit n c = a + 2 ^ n * c"
proof -
  assume a: "a < 2 ^ n"
  have "a + push_bit n c = a OR push_bit n c"
  proof (rule disjunctive_add)
    fix k
    show "\<not> bit a k \<or> \<not> bit (push_bit n c) k"
      using a by (metis bit_push_bit_iff bit_take_bit_iff not_le take_bit_nat_eq_self)
  qed
  then show ?thesis
    by (simp add: push_bit_eq_mult mult.commute)
qed

lemma unat_or_128: "\<not> top_bit b \<Longrightarrow> unat (b OR 128) = unat b + 128"
  using or_add [of "unat b" 7 1] by (simp add: top_bit_unat unsigned_or_eq)

lemma and_127_zero: "b AND 127 = 0 \<longleftrightarrow> unat b mod 128 = 0" for b :: byte
proof -
  have "b AND 127 = take_bit 7 b"
    by (simp add: take_bit_eq_mask mask_numeral)
  moreover have "unat (take_bit 7 b) = take_bit 7 (unat b)"
    by (rule unsigned_take_bit_eq)
  moreover have "take_bit 7 (unat b) = unat b mod 128"
    by (simp add: take_bit_eq_mod)
  ultimately show ?thesis
    by (metis unat_0 unat_eq_zero)
qed

section \<open>Values of byte strings\<close>

lemma vch_value_Cons [simp]: "vch_value (b # bs) = unat b + 256 * vch_value bs"
  using or_add [of "unat b" 8 "vch_value bs"] by simp

declare vch_value.simps(2) [simp del]

lemma vch_value_append: "vch_value (xs @ ys) = vch_value xs + 256 ^ length xs * vch_value ys"
  by (induction xs) (simp_all add: algebra_simps)

lemma vch_value_lt: "vch_value xs < 256 ^ length xs"
proof (induction xs)
  case (Cons b bs)
  have "unat b + 256 * vch_value bs < 256 + 256 * vch_value bs"
    by simp
  also have "\<dots> \<le> 256 * 256 ^ length bs"
    using Cons by simp
  finally show ?case
    by simp
qed simp

lemma le_bytes_0 [simp]: "le_bytes 0 = []"
  by (simp add: le_bytes.simps)

lemma le_bytes_step: "0 < n \<Longrightarrow> le_bytes n = byte_of (n mod 256) # le_bytes (n div 256)"
proof -
  have "n AND 255 = take_bit 8 n"
    by (simp add: take_bit_eq_mask mask_numeral)
  then have "n AND 255 = n mod 256"
    by (simp add: take_bit_eq_mod)
  then show "0 < n \<Longrightarrow> le_bytes n = byte_of (n mod 256) # le_bytes (n div 256)"
    by (subst le_bytes.simps) (simp add: drop_bit_eq_div)
qed

lemma vch_value_le_bytes [simp]: "vch_value (le_bytes n) = n"
proof (induction n rule: less_induct)
  case (less n)
  show ?case
  proof (cases "n = 0")
    case False
    then have "vch_value (le_bytes (n div 256)) = n div 256"
      by (intro less) simp
    with False show ?thesis
      by (simp add: le_bytes_step)
  qed simp
qed

lemma le_bytes_empty [simp]: "le_bytes n = [] \<longleftrightarrow> n = 0"
  by (cases "n = 0") (simp_all add: le_bytes_step)

lemma last_le_bytes: "0 < n \<Longrightarrow> last (le_bytes n) \<noteq> 0"
proof (induction n rule: less_induct)
  case (less n)
  show ?case
  proof (cases "n < 256")
    case True
    then have "unat (byte_of n) \<noteq> 0"
      using less.prems by simp
    then have "byte_of n \<noteq> 0"
      by (metis unat_0)
    with True less.prems show ?thesis
      by (simp add: le_bytes_step)
  next
    case False
    then have "last (le_bytes (n div 256)) \<noteq> 0"
      by (intro less) auto
    with False less.prems show ?thesis
      by (simp add: le_bytes_step)
  qed
qed

text \<open>Byte strings with a last byte that is not zero are the strings \<open>le_bytes\<close> writes.\<close>

lemma le_bytes_vch_value: "xs = [] \<or> last xs \<noteq> 0 \<Longrightarrow> le_bytes (vch_value xs) = xs"
proof (induction xs)
  case (Cons b bs)
  have ih: "le_bytes (vch_value bs) = bs"
    using Cons by (cases bs) auto
  have pos: "0 < vch_value (b # bs)"
  proof (cases "bs = []")
    case True
    then have "unat b \<noteq> 0"
      using Cons.prems by (simp add: unat_eq_zero)
    then show ?thesis
      by simp
  next
    case False
    then have "vch_value bs \<noteq> 0"
      using ih by (metis le_bytes_empty)
    then show ?thesis
      by simp
  qed
  have "(unat b + 256 * vch_value bs) div 256 = vch_value bs" "(unat b + 256 * vch_value bs) mod 256 = unat b"
    by simp_all
  moreover have "byte_of (unat b) = b"
    by (simp add: byte_of_def)
  ultimately show ?case
    using le_bytes_step [OF pos] ih by simp
qed simp

lemma unset_bit_sub: "bit (n::nat) k \<Longrightarrow> unset_bit k n = n - 2 ^ k"
proof -
  assume b: "bit n k"
  have "unset_bit k n OR push_bit k 1 = n"
    by (rule bit_eqI) (use b in \<open>auto simp: bit_simps\<close>)
  moreover have "unset_bit k n + push_bit k 1 = unset_bit k n OR push_bit k 1"
    by (rule disjunctive_add) (auto simp: bit_simps)
  ultimately show ?thesis
    by (simp add: push_bit_eq_mult)
qed

lemma value_snoc_div: "vch_value (xs @ [b]) div 256 ^ length xs = unat b"
  using vch_value_lt [of xs] by (simp add: vch_value_append)

lemma bit_snoc: "bit (vch_value (xs @ [b])) (8 * length xs + k) \<longleftrightarrow> bit (unat b) k"
proof -
  have "(256::nat) ^ length xs = 2 ^ (8 * length xs)"
    by (simp add: power_mult)
  then have "drop_bit (8 * length xs) (vch_value (xs @ [b])) = unat b"
    using value_snoc_div [of xs b] by (simp add: drop_bit_eq_div)
  then show ?thesis
    by (metis bit_drop_bit_eq comp_apply)
qed

lemma unset_snoc:
  assumes "top_bit b"
  shows "unset_bit (8 * length xs + 7) (vch_value (xs @ [b])) = vch_value xs + 256 ^ length xs * (unat b - 128)"
proof -
  have p: "(2::nat) ^ (8 * length xs + 7) = 256 ^ length xs * 128"
    by (simp add: power_add power_mult)
  have "bit (unat b) 7"
    using assms by (simp add: top_bit_bit bit_unsigned_iff)
  then have "unset_bit (8 * length xs + 7) (vch_value (xs @ [b])) = vch_value (xs @ [b]) - 256 ^ length xs * 128"
    by (subst unset_bit_sub) (simp_all add: bit_snoc p)
  then show ?thesis
    using assms by (simp add: vch_value_append top_bit_unat diff_mult_distrib2)
qed

lemma set_vch_snoc:
  "scriptnum_set_vch (xs @ [b]) =
     (if top_bit b then - int (vch_value xs + 256 ^ length xs * (unat b - 128))
      else int (vch_value (xs @ [b])))"
  by (simp add: scriptnum_set_vch_def unset_snoc)

lemma vch_value_snoc_0 [simp]: "vch_value (xs @ [0]) = vch_value xs"
  by (simp add: vch_value_append)

section \<open>Script numbers are read back\<close>

lemma top_bit_const [simp]: "top_bit 128" "\<not> top_bit 0"
  by (simp_all add: top_bit_unat)

lemma top_bit_or [simp]: "top_bit (b OR 128)"
proof (cases "top_bit b")
  case True
  then show ?thesis
    by (simp add: top_bit_bit bit_simps)
next
  case False
  then show ?thesis
    using unat_or_128 [OF False] by (simp add: top_bit_unat)
qed

lemma serialize_form:
  assumes "v \<noteq> 0"
  obtains xs b where "le_bytes (nat \<bar>v\<bar>) = xs @ [b]" "b \<noteq> 0"
    "vch_value (xs @ [b]) = nat \<bar>v\<bar>"
    "scriptnum_serialize v =
       (if top_bit b then (xs @ [b]) @ [if v < 0 then 128 else 0]
        else if v < 0 then xs @ [b OR 128] else xs @ [b])"
proof
  let ?l = "le_bytes (nat \<bar>v\<bar>)"
  have ne: "?l \<noteq> []" "0 < nat \<bar>v\<bar>"
    using assms by simp_all
  show xb: "?l = butlast ?l @ [last ?l]"
    using ne by simp
  show "last ?l \<noteq> 0"
    by (rule last_le_bytes [OF ne(2)])
  show "vch_value (butlast ?l @ [last ?l]) = nat \<bar>v\<bar>"
    by (simp only: xb [symmetric] vch_value_le_bytes)
  show "scriptnum_serialize v =
       (if top_bit (last ?l) then (butlast ?l @ [last ?l]) @ [if v < 0 then 128 else 0]
        else if v < 0 then butlast ?l @ [last ?l OR 128] else butlast ?l @ [last ?l])"
    using assms by (simp add: scriptnum_serialize_def Let_def xb [symmetric])
qed

lemma set_vch_serialize: "scriptnum_set_vch (scriptnum_serialize v) = v"
proof (cases "v = 0")
  case False
  obtain xs b where x: "vch_value (xs @ [b]) = nat \<bar>v\<bar>" "scriptnum_serialize v =
       (if top_bit b then (xs @ [b]) @ [if v < 0 then 128 else 0]
        else if v < 0 then xs @ [b OR 128] else xs @ [b])"
    by (rule serialize_form [OF False])
  have m: "int (vch_value xs + 256 ^ length xs * unat b) = \<bar>v\<bar>"
    using x(1) by (simp add: vch_value_append)
  consider "top_bit b" "v < 0" | "top_bit b" "\<not> v < 0" | "\<not> top_bit b" "v < 0" | "\<not> top_bit b" "\<not> v < 0"
    by blast
  then show ?thesis
  proof cases
    case 1
    then show ?thesis
      using x m by (simp only: x(2) set_vch_snoc if_True top_bit_const) (simp add: vch_value_append)
  next
    case 2
    then show ?thesis
      using x m by (simp only: x(2) set_vch_snoc if_True if_False top_bit_const) (simp add: vch_value_append)
  next
    case 3
    then show ?thesis
      using x m unat_or_128 [OF 3(1)]
      by (simp only: x(2) set_vch_snoc if_True if_False top_bit_or) (simp add: vch_value_append)
  next
    case 4
    then show ?thesis
      using x m by (simp only: x(2) set_vch_snoc if_False)
  qed
qed (simp add: scriptnum_serialize_def scriptnum_set_vch_def)

interpretation snum: codec scriptnum_serialize scriptnum_set_vch "\<lambda>_. True"
  by unfold_locales (rule set_vch_serialize)

text \<open>Minimal encodings, as the constructor tests for them.\<close>

definition minimal_vch :: "byte list \<Rightarrow> bool" where
  "minimal_vch vch \<longleftrightarrow>
     vch = [] \<or> last vch AND 127 \<noteq> 0 \<or> (1 < length vch \<and> top_bit (vch ! (length vch - 2)))"

lemma CScriptNum_minimal:
  "CScriptNum vch True n = (if length vch \<le> n \<and> minimal_vch vch then Some (scriptnum_set_vch vch) else None)"
  by (auto simp: CScriptNum_def minimal_vch_def)

lemma minimal_snoc: "minimal_vch (xs @ [b]) \<longleftrightarrow> unat b mod 128 \<noteq> 0 \<or> (xs \<noteq> [] \<and> top_bit (last xs))"
proof -
  have "(xs @ [b]) ! (length xs - Suc 0) = last xs" if "xs \<noteq> []"
    using that by (simp add: nth_append last_conv_nth)
  then show ?thesis
    by (auto simp: minimal_vch_def and_127_zero)
qed

lemma minimal_serialize: "minimal_vch (scriptnum_serialize v)"
proof (cases "v = 0")
  case False
  obtain xs b where x: "b \<noteq> 0" "scriptnum_serialize v =
       (if top_bit b then (xs @ [b]) @ [if v < 0 then 128 else 0]
        else if v < 0 then xs @ [b OR 128] else xs @ [b])"
    by (rule serialize_form [OF False])
  have "unat b \<noteq> 0"
    using x(1) by (simp add: unat_eq_zero)
  then show ?thesis
    using x(2) unat_or_128 [of b]
    by (cases "top_bit b") (simp_all only: x(2) minimal_snoc if_True if_False split: if_split,
        auto simp: top_bit_unat)
qed (simp add: scriptnum_serialize_def minimal_vch_def)

lemma unat_byte_eq_iff: "unat (a::byte) = unat b \<longleftrightarrow> a = b"
  by (simp add: word_unat_eq_iff)

lemma serialize_neg:
  assumes "last xs \<noteq> 0" "xs \<noteq> []"
  shows "scriptnum_serialize (- int (vch_value xs)) =
    (if top_bit (last xs) then xs @ [128] else butlast xs @ [last xs OR 128])"
    and "scriptnum_serialize (int (vch_value xs)) = (if top_bit (last xs) then xs @ [0] else xs)"
proof -
  have l: "le_bytes (vch_value xs) = xs"
    using assms by (intro le_bytes_vch_value) simp
  then have "vch_value xs \<noteq> 0"
    using assms(2) by (metis le_bytes_empty)
  with l show "scriptnum_serialize (- int (vch_value xs)) =
      (if top_bit (last xs) then xs @ [128] else butlast xs @ [last xs OR 128])"
    and "scriptnum_serialize (int (vch_value xs)) = (if top_bit (last xs) then xs @ [0] else xs)"
    by (simp_all add: scriptnum_serialize_def Let_def)
qed

lemma serialize_set_vch:
  assumes "minimal_vch vch"
  shows "scriptnum_serialize (scriptnum_set_vch vch) = vch"
proof (cases vch rule: rev_cases)
  case Nil
  then show ?thesis
    by (simp add: scriptnum_set_vch_def scriptnum_serialize_def)
next
  case (snoc xs b)
  have min: "unat b mod 128 \<noteq> 0 \<or> (xs \<noteq> [] \<and> top_bit (last xs))"
    using assms snoc minimal_snoc by simp
  have l: "last xs \<noteq> 0" if "top_bit (last xs)"
    using that by auto
  consider "b = 0" | "b = 128" | "b \<noteq> 0" "\<not> top_bit b" | "top_bit b" "b \<noteq> 128"
    by blast
  then show ?thesis
  proof cases
    case 1
    then show ?thesis
      using min serialize_neg(2) [of xs] l by (simp add: snoc set_vch_snoc)
  next
    case 2
    then show ?thesis
      using min serialize_neg(1) [of xs] l by (simp add: snoc set_vch_snoc)
  next
    case 3
    then show ?thesis
      using serialize_neg(2) [of "xs @ [b]"] by (simp add: snoc set_vch_snoc)
  next
    case 4
    let ?c = "byte_of (unat b - 128)"
    have b: "128 < unat b"
      using 4 unat_byte_eq_iff [of b 128] by (simp add: top_bit_unat)
    have "unat b - 128 < 128"
      using unat_byte_lt [of b] by linarith
    then have "(unat b - 128) mod 256 = unat b - 128"
      by simp
    then have c: "unat ?c = unat b - 128" "?c \<noteq> 0" "\<not> top_bit ?c"
      using b \<open>unat b - 128 < 128\<close> unat_byte_eq_iff [of ?c 0] by (simp_all add: top_bit_unat)
    then have "unat (?c OR 128) = unat b"
      using b by (simp add: unat_or_128)
    then have "?c OR 128 = b"
      by (simp only: unat_byte_eq_iff)
    then show ?thesis
      using serialize_neg(1) [of "xs @ [?c]"] c 4(1) by (simp add: snoc set_vch_snoc vch_value_append)
  qed
qed

section \<open>Bounds\<close>

lemma abs_set_vch: "vch \<noteq> [] \<Longrightarrow> \<bar>scriptnum_set_vch vch\<bar> < 128 * 256 ^ (length vch - 1)"
proof (cases vch rule: rev_cases)
  case (snoc xs b)
  define c where "c = (if top_bit b then unat b - 128 else unat b)"
  have "unat b - 128 \<le> 127"
    using unat_byte_lt [of b] by linarith
  then have "c \<le> 127"
    by (auto simp: c_def top_bit_unat)
  then have "256 ^ length xs * c \<le> 256 ^ length xs * 127"
    by simp
  then have "vch_value xs + 256 ^ length xs * c < 128 * 256 ^ length xs"
    using vch_value_lt [of xs] by linarith
  then have "int (vch_value xs + 256 ^ length xs * c) < int (128 * 256 ^ length xs)"
    by (simp only: of_nat_less_iff)
  moreover have "\<bar>scriptnum_set_vch vch\<bar> = int (vch_value xs + 256 ^ length xs * c)"
    by (cases "top_bit b") (simp_all only: snoc set_vch_snoc c_def if_True if_False abs_minus_cancel
        abs_of_nat, simp add: vch_value_append)
  ultimately show ?thesis
    by (simp add: snoc)
qed simp

lemma abs_set_vch_le: "length vch \<le> n \<Longrightarrow> 0 < n \<Longrightarrow> \<bar>scriptnum_set_vch vch\<bar> < 128 * 256 ^ (n - 1)"
proof (cases "vch = []")
  case False
  assume "length vch \<le> n" "0 < n"
  then have "(256::int) ^ (length vch - 1) \<le> 256 ^ (n - 1)"
    by (intro power_increasing) auto
  then show ?thesis
    using abs_set_vch [OF False] by linarith
qed (simp add: scriptnum_set_vch_def)

section \<open>CBigNum and CScriptNum agree\<close>

lemma num_bits_div: "0 < m \<Longrightarrow> n div 2 ^ k = m \<Longrightarrow> bn_num_bits n = k + bn_num_bits m"
proof (induction k arbitrary: n)
  case (Suc k)
  have "n div 2 div 2 ^ k = m"
    using Suc.prems by (simp add: div_mult2_eq)
  moreover have "n \<noteq> 0"
    using Suc.prems by (intro notI) simp
  ultimately show ?case
    using Suc.IH [of "n div 2"] Suc.prems(1) by (simp add: bn_num_bits.simps [of n])
qed simp

lemma num_bits_le: "n < 2 ^ k \<Longrightarrow> bn_num_bits n \<le> k"
proof (induction k arbitrary: n)
  case (Suc k)
  then show ?case
    using Suc.IH [of "n div 2"] by (simp add: bn_num_bits.simps [of n])
qed (simp add: bn_num_bits.simps)

lemma num_bits_pos: "0 < n \<Longrightarrow> 0 < bn_num_bits n"
  by (simp add: bn_num_bits.simps [of n])

lemma num_bits_snoc:
  assumes "b \<noteq> 0"
  shows "bn_num_bits (vch_value (xs @ [b])) = 8 * length xs + bn_num_bits (unat b)"
    "0 < bn_num_bits (unat b)" "bn_num_bits (unat b) \<le> 8" "bn_num_bits (unat b) = 8 \<longleftrightarrow> top_bit b"
proof -
  have pos: "0 < unat b"
    using assms by (simp add: unat_gt_0)
  have "(256::nat) ^ length xs = 2 ^ (8 * length xs)"
    by (simp add: power_mult)
  then show "bn_num_bits (vch_value (xs @ [b])) = 8 * length xs + bn_num_bits (unat b)"
    using value_snoc_div [of xs b] by (intro num_bits_div [OF pos]) simp
  show "0 < bn_num_bits (unat b)"
    by (rule num_bits_pos [OF pos])
  show "bn_num_bits (unat b) \<le> 8"
    by (rule num_bits_le) simp
  show "bn_num_bits (unat b) = 8 \<longleftrightarrow> top_bit b"
  proof (cases "128 \<le> unat b")
    case True
    then have "unat b div 2 ^ 7 = 1"
      using unat_byte_lt [of b] by (intro div_nat_eqI) auto
    then show ?thesis
      using num_bits_div [of 1 "unat b" 7] True by (simp add: top_bit_unat bn_num_bits.simps)
  next
    case False
    then show ?thesis
      using num_bits_le [of "unat b" 7] by (simp add: top_bit_unat)
  qed
qed

lemma bn_getvch_form:
  assumes "le_bytes m = xs @ [b]" "b \<noteq> 0" "vch_value (xs @ [b]) = m"
  shows "bn_getvch (s, m) =
    (if top_bit b then (xs @ [b]) @ [if s then 128 else 0] else if s then xs @ [b OR 128] else xs @ [b])"
proof -
  note n = num_bits_snoc(1) [OF assms(2), of xs, unfolded assms(3)] num_bits_snoc(2-4) [OF assms(2)]
  have e: "(8 * k + r) mod 8 = 0 \<longleftrightarrow> r = 8" if "0 < r" "r \<le> 8" for k r :: nat
    using that by (cases "r = 8") auto
  have bits: "0 < bn_num_bits m" "bn_num_bits m mod 8 = 0 \<longleftrightarrow> top_bit b"
    using n(2) e [OF n(2,3)] n(4) unfolding n(1) by simp_all
  then have "0 < (bn_num_bits m + 7) div 8"
    by (simp add: div_greater_zero_iff)
  with bits show ?thesis
    by (cases "top_bit b"; cases s) (simp_all add: bn_getvch_def Let_def assms(1))
qed

lemma bn_getvch_int: "bn_getvch (bn_of_int v) = scriptnum_serialize v"
proof (cases "v = 0")
  case True
  then show ?thesis
    by (simp add: bn_getvch_def bn_of_int_def scriptnum_serialize_def bn_num_bits.simps)
next
  case False
  obtain xs b where x: "le_bytes (nat \<bar>v\<bar>) = xs @ [b]" "b \<noteq> 0" "vch_value (xs @ [b]) = nat \<bar>v\<bar>"
    "scriptnum_serialize v =
       (if top_bit b then (xs @ [b]) @ [if v < 0 then 128 else 0]
        else if v < 0 then xs @ [b OR 128] else xs @ [b])"
    by (rule serialize_form [OF False])
  show ?thesis
    unfolding bn_of_int_def x(4) by (rule bn_getvch_form [OF x(1-3)])
qed

text \<open>The sign and magnitude \<open>BN_mpi2bn\<close> reads.\<close>

lemma bn_setvch_snoc:
  "bn_setvch (xs @ [b]) = (top_bit b, if top_bit b then vch_value xs + 256 ^ length xs * (unat b - 128)
     else vch_value (xs @ [b]))"
proof -
  have "bn_num_bits (vch_value (xs @ [b])) - 1 = 8 * length xs + 7" if "top_bit b"
  proof -
    have "b \<noteq> 0"
      using that by auto
    then show ?thesis
      using that num_bits_snoc(1) [of b xs] num_bits_snoc(4) [of b] by simp
  qed
  then show ?thesis
    by (simp add: bn_setvch_def unset_snoc)
qed

lemma bn_int_setvch: "bn_int (bn_setvch vch) = scriptnum_set_vch vch"
  by (cases vch rule: rev_cases)
    (simp_all only: bn_setvch_snoc set_vch_snoc bn_int_def, simp_all add: bn_setvch_def scriptnum_set_vch_def)

lemma bn_of_int_int: "snd a \<noteq> 0 \<Longrightarrow> bn_of_int (bn_int a) = a"
  by (cases a) (auto simp: bn_of_int_def bn_int_def)

lemma bn_int_of_int [simp]: "bn_int (bn_of_int v) = v"
  by (simp add: bn_of_int_def bn_int_def)

lemma bn_getvch_setvch: "bn_getvch (bn_setvch vch) = scriptnum_serialize (scriptnum_set_vch vch)"
proof (cases "snd (bn_setvch vch) = 0")
  case True
  then have "scriptnum_set_vch vch = 0"
    using bn_int_setvch [of vch] by (simp add: bn_int_def split: if_splits)
  with True show ?thesis
    by (simp add: bn_getvch_def scriptnum_serialize_def bn_num_bits.simps)
next
  case False
  from bn_of_int_int [OF this] show ?thesis
    using bn_getvch_int [of "scriptnum_set_vch vch"] by (simp add: bn_int_setvch)
qed

lemma bn_setvch_serialize: "bn_setvch (scriptnum_serialize v) = bn_of_int v"
proof (cases "v = 0")
  case False
  have i: "bn_int (bn_setvch (scriptnum_serialize v)) = v"
    by (simp add: bn_int_setvch set_vch_serialize)
  then have "snd (bn_setvch (scriptnum_serialize v)) \<noteq> 0"
    using False by (auto simp: bn_int_def split: if_splits)
  from bn_of_int_int [OF this] i show ?thesis
    by simp
qed (simp add: scriptnum_serialize_def bn_setvch_def bn_of_int_def)

lemma CastToBigNum_eq:
  "CastToBigNum vch = (if length vch > 4 then None else Some (bn_of_int (scriptnum_set_vch vch)))"
  by (simp add: CastToBigNum_def bn_getvch_setvch bn_setvch_serialize)

lemma CastToBool_snoc: "CastToBool (xs @ [b]) \<longleftrightarrow> vch_value xs \<noteq> 0 \<or> (b \<noteq> 0 \<and> b \<noteq> 128)"
  by (induction xs) (auto simp: unat_eq_zero)

lemma CastToBool_value: "CastToBool vch \<longleftrightarrow> scriptnum_set_vch vch \<noteq> 0"
proof (cases vch rule: rev_cases)
  case (snoc xs b)
  have "unat b - 128 = 0 \<longleftrightarrow> b = 128" if "top_bit b"
    using that unat_byte_eq_iff [of b 128] by (auto simp: top_bit_unat)
  then show ?thesis
    by (cases "top_bit b") (auto simp: snoc set_vch_snoc CastToBool_snoc vch_value_append unat_eq_zero
        simp flip: of_nat_add)
qed (simp add: scriptnum_set_vch_def)

section \<open>Lengths of encodings\<close>

lemma set_vch_lower:
  assumes "minimal_vch (xs @ [b])" "xs \<noteq> []"
  shows "128 * 256 ^ (length xs - 1) \<le> \<bar>scriptnum_set_vch (xs @ [b])\<bar>"
proof -
  define c where "c = (if top_bit b then unat b - 128 else unat b)"
  have abs: "\<bar>scriptnum_set_vch (xs @ [b])\<bar> = int (vch_value xs + 256 ^ length xs * c)"
    by (cases "top_bit b") (simp_all only: set_vch_snoc c_def if_True if_False abs_minus_cancel
        abs_of_nat, simp add: vch_value_append)
  have p: "(256::nat) ^ length xs = 256 * 256 ^ (length xs - 1)"
    using assms(2) by (cases xs) auto
  have "128 * 256 ^ (length xs - 1) \<le> vch_value xs + 256 ^ length xs * c"
  proof (cases "c = 0")
    case True
    then have "unat b mod 128 = 0"
      by (auto simp: c_def top_bit_unat split: if_splits)
    then have "128 \<le> unat (last xs)"
      using assms(1) by (simp add: minimal_snoc top_bit_unat)
    then have "256 ^ (length xs - 1) * 128 \<le> 256 ^ (length xs - 1) * unat (last xs)"
      by simp
    also have "\<dots> \<le> vch_value (butlast xs @ [last xs])"
      by (simp add: vch_value_append)
    finally show ?thesis
      using assms(2) by simp
  next
    case False
    then have "256 ^ length xs * 1 \<le> 256 ^ length xs * c"
      by (intro mult_le_mono2) simp
    then show ?thesis
      unfolding p by linarith
  qed
  then have "int (128 * 256 ^ (length xs - 1)) \<le> int (vch_value xs + 256 ^ length xs * c)"
    by (simp only: of_nat_le_iff)
  then show ?thesis
    unfolding abs by simp
qed

lemma length_serialize:
  assumes "\<bar>v\<bar> < 128 * 256 ^ k"
  shows "length (scriptnum_serialize v) \<le> Suc k"
proof (rule ccontr)
  assume long: "\<not> length (scriptnum_serialize v) \<le> Suc k"
  then obtain xs b where x: "scriptnum_serialize v = xs @ [b]"
    by (cases "scriptnum_serialize v" rule: rev_cases) auto
  with long have l: "k \<le> length xs - 1" "xs \<noteq> []"
    by auto
  have "128 * 256 ^ (length xs - 1) \<le> \<bar>v\<bar>"
    using set_vch_lower [of xs b] minimal_serialize [of v] l(2) set_vch_serialize [of v] by (simp add: x)
  moreover have "(256::int) ^ k \<le> 256 ^ (length xs - 1)"
    using l(1) by (intro power_increasing) auto
  ultimately show False
    using assms by linarith
qed

section \<open>Properties\<close>

text \<open>
  The constructor of a script number that insists on minimal encodings accepts exactly the
  strings that \<open>serialize\<close> writes, with the value they were written for: every number has one
  encoding, and it is read back.
\<close>

lemma scriptnum_roundtrip:
  "CScriptNum vch True n = Some v \<longleftrightarrow> vch = scriptnum_serialize v \<and> length vch \<le> n"
  by (auto simp: CScriptNum_minimal set_vch_serialize serialize_set_vch minimal_serialize)

text \<open>
  The two number classes of the code are equivalent: \<open>CBigNum\<close> writes every number as
  \<open>CScriptNum\<close> does, and \<open>CastToBigNum\<close> accepts any string of at most four bytes and gives it
  the value \<open>CScriptNum\<close> gives it, a negative zero included.
\<close>

lemma bignum_scriptnum_equiv:
  "bn_getvch (bn_of_int v) = scriptnum_serialize v
   \<and> CastToBigNum vch = map_option bn_of_int (CScriptNum vch False 4)"
  by (simp add: bn_getvch_int CastToBigNum_eq CScriptNum_def)

end
