(* ===== verification/Script_Code.thy ===== *)
theory Script_Code
  imports Script_Num
begin

text \<open>
  Scripts as byte strings (server/script.h, server/script.cpp, ext/txext.cpp): the opcodes, the
  instruction reader \<open>GetOp2\<close>, the writers of \<open>CScript\<close>, the scans over a script and the forms
  it is compared with. An iterator into a script is the part of the script from it to the end.
\<close>

unbundle bit_operations_syntax

section \<open>Opcodes\<close>

type_synonym opcode = nat
type_synonym valtype = "byte list"
type_synonym script = "byte list"

abbreviation (input) OP_0 :: opcode where "OP_0 \<equiv> 0x00"
abbreviation (input) OP_PUSHDATA1 :: opcode where "OP_PUSHDATA1 \<equiv> 0x4c"
abbreviation (input) OP_PUSHDATA2 :: opcode where "OP_PUSHDATA2 \<equiv> 0x4d"
abbreviation (input) OP_PUSHDATA4 :: opcode where "OP_PUSHDATA4 \<equiv> 0x4e"
abbreviation (input) OP_1NEGATE :: opcode where "OP_1NEGATE \<equiv> 0x4f"
abbreviation (input) OP_RESERVED :: opcode where "OP_RESERVED \<equiv> 0x50"
abbreviation (input) OP_1 :: opcode where "OP_1 \<equiv> 0x51"
abbreviation (input) OP_14 :: opcode where "OP_14 \<equiv> 0x5e"
abbreviation (input) OP_15 :: opcode where "OP_15 \<equiv> 0x5f"
abbreviation (input) OP_16 :: opcode where "OP_16 \<equiv> 0x60"
abbreviation (input) OP_NOP :: opcode where "OP_NOP \<equiv> 0x61"
abbreviation (input) OP_IF :: opcode where "OP_IF \<equiv> 0x63"
abbreviation (input) OP_NOTIF :: opcode where "OP_NOTIF \<equiv> 0x64"
abbreviation (input) OP_VERIF :: opcode where "OP_VERIF \<equiv> 0x65"
abbreviation (input) OP_VERNOTIF :: opcode where "OP_VERNOTIF \<equiv> 0x66"
abbreviation (input) OP_ELSE :: opcode where "OP_ELSE \<equiv> 0x67"
abbreviation (input) OP_ENDIF :: opcode where "OP_ENDIF \<equiv> 0x68"
abbreviation (input) OP_VERIFY :: opcode where "OP_VERIFY \<equiv> 0x69"
abbreviation (input) OP_RETURN :: opcode where "OP_RETURN \<equiv> 0x6a"
abbreviation (input) OP_TOALTSTACK :: opcode where "OP_TOALTSTACK \<equiv> 0x6b"
abbreviation (input) OP_FROMALTSTACK :: opcode where "OP_FROMALTSTACK \<equiv> 0x6c"
abbreviation (input) OP_2DROP :: opcode where "OP_2DROP \<equiv> 0x6d"
abbreviation (input) OP_2DUP :: opcode where "OP_2DUP \<equiv> 0x6e"
abbreviation (input) OP_3DUP :: opcode where "OP_3DUP \<equiv> 0x6f"
abbreviation (input) OP_2OVER :: opcode where "OP_2OVER \<equiv> 0x70"
abbreviation (input) OP_2ROT :: opcode where "OP_2ROT \<equiv> 0x71"
abbreviation (input) OP_2SWAP :: opcode where "OP_2SWAP \<equiv> 0x72"
abbreviation (input) OP_IFDUP :: opcode where "OP_IFDUP \<equiv> 0x73"
abbreviation (input) OP_DEPTH :: opcode where "OP_DEPTH \<equiv> 0x74"
abbreviation (input) OP_DROP :: opcode where "OP_DROP \<equiv> 0x75"
abbreviation (input) OP_DUP :: opcode where "OP_DUP \<equiv> 0x76"
abbreviation (input) OP_NIP :: opcode where "OP_NIP \<equiv> 0x77"
abbreviation (input) OP_OVER :: opcode where "OP_OVER \<equiv> 0x78"
abbreviation (input) OP_PICK :: opcode where "OP_PICK \<equiv> 0x79"
abbreviation (input) OP_ROLL :: opcode where "OP_ROLL \<equiv> 0x7a"
abbreviation (input) OP_ROT :: opcode where "OP_ROT \<equiv> 0x7b"
abbreviation (input) OP_SWAP :: opcode where "OP_SWAP \<equiv> 0x7c"
abbreviation (input) OP_TUCK :: opcode where "OP_TUCK \<equiv> 0x7d"
abbreviation (input) OP_CAT :: opcode where "OP_CAT \<equiv> 0x7e"
abbreviation (input) OP_SUBSTR :: opcode where "OP_SUBSTR \<equiv> 0x7f"
abbreviation (input) OP_LEFT :: opcode where "OP_LEFT \<equiv> 0x80"
abbreviation (input) OP_RIGHT :: opcode where "OP_RIGHT \<equiv> 0x81"
abbreviation (input) OP_SIZE :: opcode where "OP_SIZE \<equiv> 0x82"
abbreviation (input) OP_INVERT :: opcode where "OP_INVERT \<equiv> 0x83"
abbreviation (input) OP_AND :: opcode where "OP_AND \<equiv> 0x84"
abbreviation (input) OP_OR :: opcode where "OP_OR \<equiv> 0x85"
abbreviation (input) OP_XOR :: opcode where "OP_XOR \<equiv> 0x86"
abbreviation (input) OP_EQUAL :: opcode where "OP_EQUAL \<equiv> 0x87"
abbreviation (input) OP_EQUALVERIFY :: opcode where "OP_EQUALVERIFY \<equiv> 0x88"
abbreviation (input) OP_1ADD :: opcode where "OP_1ADD \<equiv> 0x8b"
abbreviation (input) OP_1SUB :: opcode where "OP_1SUB \<equiv> 0x8c"
abbreviation (input) OP_2MUL :: opcode where "OP_2MUL \<equiv> 0x8d"
abbreviation (input) OP_2DIV :: opcode where "OP_2DIV \<equiv> 0x8e"
abbreviation (input) OP_NEGATE :: opcode where "OP_NEGATE \<equiv> 0x8f"
abbreviation (input) OP_ABS :: opcode where "OP_ABS \<equiv> 0x90"
abbreviation (input) OP_NOT :: opcode where "OP_NOT \<equiv> 0x91"
abbreviation (input) OP_0NOTEQUAL :: opcode where "OP_0NOTEQUAL \<equiv> 0x92"
abbreviation (input) OP_ADD :: opcode where "OP_ADD \<equiv> 0x93"
abbreviation (input) OP_SUB :: opcode where "OP_SUB \<equiv> 0x94"
abbreviation (input) OP_MUL :: opcode where "OP_MUL \<equiv> 0x95"
abbreviation (input) OP_DIV :: opcode where "OP_DIV \<equiv> 0x96"
abbreviation (input) OP_MOD :: opcode where "OP_MOD \<equiv> 0x97"
abbreviation (input) OP_LSHIFT :: opcode where "OP_LSHIFT \<equiv> 0x98"
abbreviation (input) OP_RSHIFT :: opcode where "OP_RSHIFT \<equiv> 0x99"
abbreviation (input) OP_BOOLAND :: opcode where "OP_BOOLAND \<equiv> 0x9a"
abbreviation (input) OP_BOOLOR :: opcode where "OP_BOOLOR \<equiv> 0x9b"
abbreviation (input) OP_NUMEQUAL :: opcode where "OP_NUMEQUAL \<equiv> 0x9c"
abbreviation (input) OP_NUMEQUALVERIFY :: opcode where "OP_NUMEQUALVERIFY \<equiv> 0x9d"
abbreviation (input) OP_NUMNOTEQUAL :: opcode where "OP_NUMNOTEQUAL \<equiv> 0x9e"
abbreviation (input) OP_LESSTHAN :: opcode where "OP_LESSTHAN \<equiv> 0x9f"
abbreviation (input) OP_GREATERTHAN :: opcode where "OP_GREATERTHAN \<equiv> 0xa0"
abbreviation (input) OP_LESSTHANOREQUAL :: opcode where "OP_LESSTHANOREQUAL \<equiv> 0xa1"
abbreviation (input) OP_GREATERTHANOREQUAL :: opcode where "OP_GREATERTHANOREQUAL \<equiv> 0xa2"
abbreviation (input) OP_MIN :: opcode where "OP_MIN \<equiv> 0xa3"
abbreviation (input) OP_MAX :: opcode where "OP_MAX \<equiv> 0xa4"
abbreviation (input) OP_WITHIN :: opcode where "OP_WITHIN \<equiv> 0xa5"
abbreviation (input) OP_RIPEMD160 :: opcode where "OP_RIPEMD160 \<equiv> 0xa6"
abbreviation (input) OP_SHA1 :: opcode where "OP_SHA1 \<equiv> 0xa7"
abbreviation (input) OP_SHA256 :: opcode where "OP_SHA256 \<equiv> 0xa8"
abbreviation (input) OP_HASH160 :: opcode where "OP_HASH160 \<equiv> 0xa9"
abbreviation (input) OP_HASH256 :: opcode where "OP_HASH256 \<equiv> 0xaa"
abbreviation (input) OP_CODESEPARATOR :: opcode where "OP_CODESEPARATOR \<equiv> 0xab"
abbreviation (input) OP_CHECKSIG :: opcode where "OP_CHECKSIG \<equiv> 0xac"
abbreviation (input) OP_CHECKSIGVERIFY :: opcode where "OP_CHECKSIGVERIFY \<equiv> 0xad"
abbreviation (input) OP_CHECKMULTISIG :: opcode where "OP_CHECKMULTISIG \<equiv> 0xae"
abbreviation (input) OP_CHECKMULTISIGVERIFY :: opcode where "OP_CHECKMULTISIGVERIFY \<equiv> 0xaf"
abbreviation (input) OP_NOP1 :: opcode where "OP_NOP1 \<equiv> 0xb0"
abbreviation (input) OP_CHECKLOCKTIMEVERIFY :: opcode where "OP_CHECKLOCKTIMEVERIFY \<equiv> 0xb1"
abbreviation (input) OP_CHECKSEQUENCEVERIFY :: opcode where "OP_CHECKSEQUENCEVERIFY \<equiv> 0xb2"
abbreviation (input) OP_NOP4 :: opcode where "OP_NOP4 \<equiv> 0xb3"
abbreviation (input) OP_NOP5 :: opcode where "OP_NOP5 \<equiv> 0xb4"
abbreviation (input) OP_NOP6 :: opcode where "OP_NOP6 \<equiv> 0xb5"
abbreviation (input) OP_NOP7 :: opcode where "OP_NOP7 \<equiv> 0xb6"
abbreviation (input) OP_CHECKALTPROOF :: opcode where "OP_CHECKALTPROOF \<equiv> 0xb7"
abbreviation (input) OP_NOP9 :: opcode where "OP_NOP9 \<equiv> 0xb8"
abbreviation (input) OP_NOP10 :: opcode where "OP_NOP10 \<equiv> 0xb9"
abbreviation (input) OP_EXT_NEW :: opcode where "OP_EXT_NEW \<equiv> 0xf0"
abbreviation (input) OP_EXT_NOP9 :: opcode where "OP_EXT_NOP9 \<equiv> 0xf9"
abbreviation (input) OP_INVALIDOPCODE :: opcode where "OP_INVALIDOPCODE \<equiv> 0xff"

section \<open>Reading instructions\<close>

text \<open>
  \<open>GetOp2\<close> reads at an iterator, which is here the part of the script from it to the end. The
  result is the return value, the opcode, the data and the iterator afterwards; on failure the
  iterator stays where the reading stopped.
\<close>

definition op_size :: "opcode \<Rightarrow> script \<Rightarrow> (nat \<times> script) option" where
  "op_size opcode pc =
     (if opcode < OP_PUSHDATA1 then Some (opcode, pc)
      else if opcode = OP_PUSHDATA1
      then (if length pc < 1 then None else Some (unat (pc ! 0), drop 1 pc))
      else if opcode = OP_PUSHDATA2
      then (if length pc < 2 then None else Some (ld32 (take 2 pc), drop 2 pc))
      else (if length pc < 4 then None else Some (ld32 (take 4 pc), drop 4 pc)))"

definition GetOp2 :: "script \<Rightarrow> bool \<times> opcode \<times> valtype \<times> script" where
  "GetOp2 pc =
     (case pc of
        [] \<Rightarrow> (False, OP_INVALIDOPCODE, [], [])
      | b # pc1 \<Rightarrow>
        (let opcode = unat b in
         if opcode \<le> OP_PUSHDATA4
         then (case op_size opcode pc1 of
                 None \<Rightarrow> (False, OP_INVALIDOPCODE, [], pc1)
               | Some (nSize, pc2) \<Rightarrow>
                 if length pc2 < nSize then (False, OP_INVALIDOPCODE, [], pc2)
                 else (True, opcode, take nSize pc2, drop nSize pc2))
         else (True, opcode, [], pc1)))"

lemma GetOp2_shorter:
  assumes "GetOp2 pc = (True, opcode, vch, pc')"
  shows "length pc' < length pc"
  using assms
  by (auto simp: GetOp2_def op_size_def Let_def split: list.splits if_splits option.splits)

section \<open>Writing instructions\<close>

definition put_op :: "opcode \<Rightarrow> script" where
  "put_op opcode = [byte_of opcode]"

definition put_vch :: "valtype \<Rightarrow> script" where
  "put_vch b =
     (if length b < OP_PUSHDATA1 then byte_of (length b) # b
      else if length b \<le> 0xff then byte_of OP_PUSHDATA1 # byte_of (length b) # b
      else if length b \<le> 0xffff then byte_of OP_PUSHDATA2 # take 2 (le32 (length b)) @ b
      else byte_of OP_PUSHDATA4 # le32 (length b) @ b)"

definition push_int64 :: "int \<Rightarrow> script" where
  "push_int64 n =
     (if n = - 1 \<or> (n \<ge> 1 \<and> n \<le> 16) then [byte_of (nat (n + int (OP_1 - 1)))]
      else if n = 0 then [byte_of OP_0]
      else put_vch (scriptnum_serialize n))"

definition push_uint64 :: "nat \<Rightarrow> script" where
  "push_uint64 n =
     (if n \<ge> 1 \<and> n \<le> 16 then [byte_of (n + (OP_1 - 1))]
      else put_vch (bn_getvch (False, n)))"

text \<open>Small integers; an argument out of range fails the assertion of the source.\<close>

definition DecodeOP_N :: "opcode \<Rightarrow> nat option" where
  "DecodeOP_N opcode =
     (if opcode = OP_0 then Some 0
      else if OP_1 \<le> opcode \<and> opcode \<le> OP_16 then Some (opcode - (OP_1 - 1)) else None)"

definition EncodeOP_N :: "int \<Rightarrow> opcode option" where
  "EncodeOP_N n =
     (if 0 \<le> n \<and> n \<le> 16 then Some (if n = 0 then OP_0 else OP_1 + nat n - 1) else None)"

section \<open>Scanning scripts\<close>

text \<open>The instructions of a script and whether the whole script could be read.\<close>

function script_ops :: "script \<Rightarrow> bool \<times> (opcode \<times> valtype) list" where
  "script_ops pc =
     (if pc = [] then (True, [])
      else (case GetOp2 pc of
              (False, opcode, vch, pc') \<Rightarrow> (False, [])
            | (True, opcode, vch, pc') \<Rightarrow>
              (case script_ops pc' of (ok, ops) \<Rightarrow> (ok, (opcode, vch) # ops))))"
  by pat_completeness auto
termination
  by (relation "measure length") (auto dest: GetOp2_shorter [OF sym])

declare script_ops.simps [simp del]

function IsPushOnly :: "script \<Rightarrow> bool" where
  "IsPushOnly pc =
     (if pc = [] then True
      else (case GetOp2 pc of
              (False, opcode, vch, pc') \<Rightarrow> False
            | (True, opcode, vch, pc') \<Rightarrow> if opcode > OP_16 then False else IsPushOnly pc'))"
  by pat_completeness auto
termination
  by (relation "measure length") (auto dest: GetOp2_shorter [OF sym])

declare IsPushOnly.simps [simp del]

function script_Find :: "opcode \<Rightarrow> script \<Rightarrow> nat" where
  "script_Find op pc =
     (if pc = [] then 0
      else (case GetOp2 pc of
              (False, opcode, vch, pc') \<Rightarrow> 0
            | (True, opcode, vch, pc') \<Rightarrow> (if opcode = op then 1 else 0) + script_Find op pc'))"
  by pat_completeness auto
termination
  by (relation "measure (length \<circ> snd)") (auto dest: GetOp2_shorter [OF sym])

declare script_Find.simps [simp del]

text \<open>The inner loop of \<open>FindAndDelete\<close> erases copies of \<open>b\<close> at the iterator.\<close>

function erase_copies :: "script \<Rightarrow> script \<Rightarrow> nat \<times> script" where
  "erase_copies b pc =
     (if b \<noteq> [] \<and> length pc \<ge> length b \<and> take (length b) pc = b
      then (case erase_copies b (drop (length b) pc) of (nFound, pc') \<Rightarrow> (Suc nFound, pc'))
      else (0, pc))"
  by pat_completeness auto
termination
  by (relation "measure (length \<circ> snd)") (auto simp: neq_Nil_conv)

declare erase_copies.simps [simp del]

lemma erase_copies_length: "erase_copies b pc = (n, pc') \<Longrightarrow> length pc' \<le> length pc"
proof (induction b pc arbitrary: n pc' rule: erase_copies.induct)
  case (1 b pc)
  show ?case
    using 1(1) 1(2) by (subst (asm) erase_copies.simps) (fastforce split: if_splits prod.splits)
qed

function find_delete :: "script \<Rightarrow> script \<Rightarrow> nat \<times> script" where
  "find_delete b pc =
     (case erase_copies b pc of (nFound, pc1) \<Rightarrow>
       (case GetOp2 pc1 of
          (False, opcode, vch, pc2) \<Rightarrow> (nFound, pc1)
        | (True, opcode, vch, pc2) \<Rightarrow>
          (case find_delete b pc2 of (n, rest) \<Rightarrow>
             (nFound + n, take (length pc1 - length pc2) pc1 @ rest))))"
  by pat_completeness auto
termination
  by (relation "measure (length \<circ> snd)")
    (auto dest!: GetOp2_shorter [OF sym] erase_copies_length [OF sym])

declare find_delete.simps [simp del]

definition FindAndDelete :: "script \<Rightarrow> script \<Rightarrow> nat \<times> script" where
  "FindAndDelete b s = (if b = [] then (0, s) else find_delete b s)"

section \<open>Forms of scripts\<close>

text \<open>\<open>GetSigOpCount (bool)\<close>: \<open>lastOpcode\<close> is the opcode before the iterator.\<close>

function sigop_loop :: "bool \<Rightarrow> script \<Rightarrow> opcode \<Rightarrow> nat" where
  "sigop_loop fAccurate pc lastOpcode =
     (if pc = [] then 0
      else (case GetOp2 pc of
              (False, opcode, vch, pc') \<Rightarrow> 0
            | (True, opcode, vch, pc') \<Rightarrow>
              (if opcode = OP_CHECKSIG \<or> opcode = OP_CHECKSIGVERIFY then 1
               else if opcode = OP_CHECKMULTISIG \<or> opcode = OP_CHECKMULTISIGVERIFY
               then (if fAccurate \<and> OP_1 \<le> lastOpcode \<and> lastOpcode \<le> OP_16
                     then lastOpcode - (OP_1 - 1) else 20)
               else 0) + sigop_loop fAccurate pc' opcode))"
  by pat_completeness auto
termination
  by (relation "measure (\<lambda>(a, pc, l). length pc)") (auto dest: GetOp2_shorter [OF sym])

declare sigop_loop.simps [simp del]

definition GetSigOpCount :: "bool \<Rightarrow> script \<Rightarrow> nat" where
  "GetSigOpCount fAccurate s = sigop_loop fAccurate s OP_INVALIDOPCODE"

text \<open>The loop that skips to the instruction after the next \<open>OP_2DROP\<close>.\<close>

function seek_2drop :: "script \<Rightarrow> script option" where
  "seek_2drop pc =
     (case GetOp2 pc of
        (False, opcode, vch, pc') \<Rightarrow> None
      | (True, opcode, vch, pc') \<Rightarrow> if opcode = OP_2DROP then Some pc' else seek_2drop pc')"
  by pat_completeness auto
termination
  by (relation "measure length") (auto dest: GetOp2_shorter [OF sym])

declare seek_2drop.simps [simp del]

definition p2sh_form :: "script \<Rightarrow> bool" where
  "p2sh_form s \<longleftrightarrow> length s = 23 \<and> unat (s ! 0) = OP_HASH160 \<and> unat (s ! 1) = 0x14 \<and> unat (s ! 22) = OP_EQUAL"

definition IsPayToScriptHash :: "script \<Rightarrow> bool" where
  "IsPayToScriptHash s =
     (if length s < 23 then False
      else if length s = 23
      then unat (s ! 0) = OP_HASH160 \<and> unat (s ! 1) = 0x14 \<and> unat (s ! 22) = OP_EQUAL
      else if unat (s ! 0) < 0xf0 \<or> unat (s ! 0) > 0xf9 then False
      else if unat (s ! 1) < OP_1 \<or> unat (s ! 1) > OP_15 then False
      else (case seek_2drop (drop 2 s) of None \<Rightarrow> False | Some cmp_script \<Rightarrow> p2sh_form cmp_script))"

text \<open>The data the last instruction of a signature script pushes; \<open>None\<close> if it does more than push.\<close>

function last_push :: "script \<Rightarrow> valtype \<Rightarrow> valtype option" where
  "last_push pc dat =
     (if pc = [] then Some dat
      else (case GetOp2 pc of
              (False, opcode, vch, pc') \<Rightarrow> None
            | (True, opcode, vch, pc') \<Rightarrow> if opcode > OP_16 then None else last_push pc' vch))"
  by pat_completeness auto
termination
  by (relation "measure (length \<circ> fst)") (auto dest: GetOp2_shorter [OF sym])

declare last_push.simps [simp del]

definition GetSigOpCount_sig :: "script \<Rightarrow> script \<Rightarrow> nat" where
  "GetSigOpCount_sig s scriptSig =
     (if \<not> IsPayToScriptHash s then GetSigOpCount True s
      else (case last_push scriptSig [] of None \<Rightarrow> 0 | Some dat \<Rightarrow> GetSigOpCount True dat))"

text \<open>
  \<open>IsWitnessProgram\<close> reads the version opcode, after the prefix of an extended transaction if
  there is one; the offset of the program is kept in an unsigned char.
\<close>

definition wit_version :: "script \<Rightarrow> (opcode \<times> script) option" where
  "wit_version s =
     (case GetOp2 s of (ok1, vercode, _, pc1) \<Rightarrow>
        if \<not> ok1 then None
        else if OP_EXT_NEW \<le> vercode \<and> vercode \<le> OP_EXT_NOP9
        then (case GetOp2 pc1 of (ok2, _, _, pc2) \<Rightarrow> if \<not> ok2 then None else
             (case GetOp2 pc2 of (ok3, _, _, pc3) \<Rightarrow> if \<not> ok3 then None else
             (case GetOp2 pc3 of (ok4, _, vch, pc4) \<Rightarrow> if \<not> ok4 \<or> length vch = 0 then None else
             (case GetOp2 pc4 of (ok5, opcode, _, pc5) \<Rightarrow> if \<not> ok5 \<or> opcode \<noteq> OP_2DROP then None else
             (case GetOp2 pc5 of (ok6, vercode2, _, pc6) \<Rightarrow>
                if \<not> ok6 then None else Some (vercode2, pc6))))))
        else Some (vercode, pc1))"

definition IsWitnessProgram :: "script \<Rightarrow> (nat \<times> valtype) option" where
  "IsWitnessProgram s =
     (if length s < 4 then None
      else (case wit_version s of
              None \<Rightarrow> None
            | Some (vercode, pc) \<Rightarrow>
              if vercode \<noteq> OP_0 \<and> (vercode < OP_1 \<or> vercode > OP_16) then None
              else if length pc + 1 < 4 \<or> length pc + 1 > 42 then None
              else
                (let off = (length s - length pc) mod 256 in
                 if off < length s
                 then (let sz = unat (s ! off); off1 = (off + 1) mod 256 in
                       if sz = length s - off1
                       then map_option (\<lambda>v. (v, drop off1 s)) (DecodeOP_N vercode) else None)
                 else None)))"

definition RemoveExtOutputPrefix :: "script \<Rightarrow> bool \<times> script" where
  "RemoveExtOutputPrefix s =
     (case GetOp2 s of (ok1, op1, _, pc1) \<Rightarrow>
        if \<not> ok1 \<or> op1 < 0xf0 \<or> op1 > 0xf9 then (False, s)
        else (case GetOp2 pc1 of (ok2, op2, _, pc2) \<Rightarrow>
          if \<not> ok2 \<or> op2 < OP_1 \<or> op2 > OP_15 then (False, s)
          else (case seek_2drop pc2 of None \<Rightarrow> (False, s) | Some pc \<Rightarrow> (True, pc))))"

definition isExtOp :: "opcode \<Rightarrow> bool" where
  "isExtOp opcode \<longleftrightarrow> 0xf0 \<le> opcode \<and> opcode \<le> 0xf9"

section \<open>Instructions are read back\<close>

lemma ld32_take2: "ld32 (take 2 (le32 n)) = n mod 65536"
proof -
  have "n mod 65536 = n mod 256 + 256 * (n div 256 mod 256)"
    using mod_mult2_eq [of n 256 256] by simp
  then show ?thesis
    by (simp add: le32_def ld32_def nth0_def)
qed

lemma take_drop_le32:
  "take 2 (take 2 (le32 n) @ b) = take 2 (le32 n)" "drop 2 (take 2 (le32 n) @ b) = b"
  "take 4 (le32 n @ b) = le32 n" "drop 4 (le32 n @ b) = b"
  by (simp_all add: le32_def)

text \<open>The opcode a push is written with, and the bytes of an instruction.\<close>

definition vch_opcode :: "valtype \<Rightarrow> opcode" where
  "vch_opcode b =
     (if length b < OP_PUSHDATA1 then length b else if length b \<le> 0xff then OP_PUSHDATA1
      else if length b \<le> 0xffff then OP_PUSHDATA2 else OP_PUSHDATA4)"

definition op_bytes :: "opcode \<Rightarrow> valtype \<Rightarrow> script" where
  "op_bytes opcode vch =
     byte_of opcode #
     (if opcode = OP_PUSHDATA1 then [byte_of (length vch)]
      else if opcode = OP_PUSHDATA2 then take 2 (le32 (length vch))
      else if opcode = OP_PUSHDATA4 then le32 (length vch) else []) @ vch"

lemma vch_opcode_le: "vch_opcode b \<le> OP_PUSHDATA4"
  by (simp add: vch_opcode_def)

lemma put_vch_op_bytes: "put_vch b = op_bytes (vch_opcode b) b"
  by (simp add: put_vch_def op_bytes_def vch_opcode_def)

lemma digits4:
  fixes a b c d :: nat
  assumes "a \<le> 255" "b \<le> 255" "c \<le> 255"
  shows "(a + 256 * b + 65536 * c + 16777216 * d) div 256 = b + 256 * c + 65536 * d"
    "(a + 256 * b + 65536 * c + 16777216 * d) div 65536 = c + 256 * d"
    "(a + 256 * b + 65536 * c + 16777216 * d) div 16777216 = d"
proof -
  show "(a + 256 * b + 65536 * c + 16777216 * d) div 256 = b + 256 * c + 65536 * d"
    by (rule div_nat_eqI) (use assms in simp_all)
  show "(a + 256 * b + 65536 * c + 16777216 * d) div 65536 = c + 256 * d"
    by (rule div_nat_eqI) (use assms in simp_all)
  show "(a + 256 * b + 65536 * c + 16777216 * d) div 16777216 = d"
    by (rule div_nat_eqI) (use assms in simp_all)
qed

lemma byte_of_digit: "byte_of (unat x + 256 * k) = x" for x :: byte
  by (simp add: unat_byte_eq_iff [symmetric])

lemma le32_ld32: "length bs = 4 \<Longrightarrow> le32 (ld32 bs) = bs"
proof -
  assume "length bs = 4"
  then obtain a b c d where bs: "bs = [a, b, c, d]"
    by (auto simp: numeral_eq_Suc length_Suc_conv)
  note dg = digits4 [OF unat_byte_le [of a] unat_byte_le [of b] unat_byte_le [of c], of "unat d"]
  show ?thesis
    using byte_of_digit [of a "unat b + 256 * unat c + 65536 * unat d"]
      byte_of_digit [of b "unat c + 256 * unat d"] byte_of_digit [of c "unat d"] byte_of_digit [of d 0]
    unfolding bs ld32_Cons4 le32_def dg by (simp add: algebra_simps)
qed

lemma le32_ld32_2: "length bs = 2 \<Longrightarrow> take 2 (le32 (ld32 bs)) = bs"
proof -
  assume "length bs = 2"
  then obtain a b where bs: "bs = [a, b]"
    by (auto simp: numeral_eq_Suc length_Suc_conv)
  have "ld32 bs = ld32 [a, b, 0, 0]"
    by (simp add: bs ld32_def nth0_def)
  then have "le32 (ld32 bs) = [a, b, 0, 0]"
    using le32_ld32 [of "[a, b, 0, 0]"] by simp
  then show ?thesis
    by (simp add: bs)
qed

text \<open>The operands an instruction can have.\<close>

definition op_valid :: "opcode \<Rightarrow> valtype \<Rightarrow> bool" where
  "op_valid opcode vch \<longleftrightarrow>
     (if opcode < OP_PUSHDATA1 then length vch = opcode
      else if opcode = OP_PUSHDATA1 then length vch \<le> 0xff
      else if opcode = OP_PUSHDATA2 then length vch \<le> 0xffff
      else if opcode = OP_PUSHDATA4 then length vch < 4294967296
      else opcode < 256 \<and> vch = [])"

lemma GetOp2_op_bytes:
  assumes "op_valid opcode vch"
  shows "GetOp2 (op_bytes opcode vch @ r) = (True, opcode, vch, r)"
proof -
  consider "opcode < 76" | "opcode = 76" | "opcode = 77" | "opcode = 78" | "78 < opcode"
    by linarith
  then show ?thesis
    by cases (use assms in \<open>simp_all add: op_valid_def op_bytes_def GetOp2_def op_size_def Let_def
        ld32_take2 take_drop_le32\<close>)
qed

lemma GetOp2_read:
  assumes "GetOp2 pc = (True, opcode, vch, pc')"
  shows "op_valid opcode vch" "pc = op_bytes opcode vch @ pc'"
proof -
  obtain b pc1 where pc: "pc = b # pc1"
    using assms by (cases pc) (auto simp: GetOp2_def)
  have b: "unat b < 256" "byte_of (unat b) = b"
    by (simp_all add: unat_byte_eq_iff [symmetric])
  have "op_valid opcode vch \<and> pc = op_bytes opcode vch @ pc'"
  proof (cases "OP_PUSHDATA4 < unat b")
    case True
    then show ?thesis
      using assms b by (auto simp: GetOp2_def pc Let_def op_bytes_def op_valid_def)
  next
    case False
    then obtain n pc2 where s: "op_size (unat b) pc1 = Some (n, pc2)" "n \<le> length pc2"
      "opcode = unat b" "vch = take n pc2" "pc' = drop n pc2"
      using assms by (auto simp: GetOp2_def pc Let_def split: option.splits if_splits)
    then have n: "length vch = n" "pc2 = vch @ pc'"
      by simp_all
    consider "unat b < 76" | "unat b = 76" | "unat b = 77" | "unat b = 78"
      using False by linarith
    then show ?thesis
    proof cases
      case 1
      then have "pc1 = pc2" "n = unat b"
        using s(1) by (simp_all add: op_size_def)
      then show ?thesis
        using s(3) n b 1 by (simp add: pc op_bytes_def op_valid_def)
    next
      case 2
      then obtain c where "pc1 = c # pc2" "n = unat c"
        using s(1) by (cases pc1) (auto simp: op_size_def)
      then show ?thesis
        using s(3) n b 2 by (auto simp: pc op_bytes_def op_valid_def unat_byte_eq_iff [symmetric])
    next
      case 3
      then have l: "length pc1 \<ge> 2" "n = ld32 (take 2 pc1)" "pc2 = drop 2 pc1"
        using s(1) by (auto simp: op_size_def split: if_splits)
      then have "pc1 = take 2 (le32 n) @ pc2" "n mod 65536 = n"
        using le32_ld32_2 [of "take 2 pc1"] ld32_take2 [of n] by simp_all
      then show ?thesis
        using s(3) n b 3 mod_less_divisor [of 65536 n] by (auto simp: pc op_bytes_def op_valid_def)
    next
      case 4
      then have "length pc1 \<ge> 4" "n = ld32 (take 4 pc1)" "pc2 = drop 4 pc1"
        using s(1) by (auto simp: op_size_def split: if_splits)
      then have "pc1 = le32 n @ pc2" "n < 4294967296"
        using le32_ld32 [of "take 4 pc1"] by simp_all
      then show ?thesis
        using s(3) n b 4 by (auto simp: pc op_bytes_def op_valid_def)
    qed
  qed
  then show "op_valid opcode vch" "pc = op_bytes opcode vch @ pc'"
    by simp_all
qed

lemma GetOp2_append:
  "GetOp2 pc = (True, opcode, vch, pc') \<Longrightarrow> GetOp2 (pc @ r) = (True, opcode, vch, pc' @ r)"
  using GetOp2_read [of pc opcode vch pc'] GetOp2_op_bytes [of opcode vch "pc' @ r"] by simp

lemma GetOp2_put_vch: "length b < 4294967296 \<Longrightarrow> GetOp2 (put_vch b @ r) = (True, vch_opcode b, b, r)"
  unfolding put_vch_op_bytes by (rule GetOp2_op_bytes) (simp add: op_valid_def vch_opcode_def)

lemma GetOp2_op:
  "OP_PUSHDATA4 < opcode \<Longrightarrow> opcode < 256 \<Longrightarrow> GetOp2 (put_op opcode @ r) = (True, opcode, [], r)"
  using GetOp2_op_bytes [of opcode "[]" r] by (simp add: op_valid_def op_bytes_def put_op_def)

section \<open>The instructions of a script\<close>

lemma script_ops_Nil [simp]: "script_ops [] = (True, [])"
  by (simp add: script_ops.simps)

lemma script_ops_read:
  assumes "GetOp2 pc = (True, opcode, vch, pc')"
  shows "script_ops pc = (fst (script_ops pc'), (opcode, vch) # snd (script_ops pc'))"
  using assms by (subst script_ops.simps) (auto simp: GetOp2_def split: prod.splits)

lemma script_ops_stop: "GetOp2 pc = (False, x) \<Longrightarrow> pc \<noteq> [] \<Longrightarrow> script_ops pc = (False, [])"
  by (subst script_ops.simps) (auto split: prod.splits)

text \<open>Induction along the instructions of a script.\<close>

lemma script_induct [case_names Nil Stop Read]:
  assumes "P []" "\<And>pc x. pc \<noteq> [] \<Longrightarrow> GetOp2 pc = (False, x) \<Longrightarrow> P pc"
    "\<And>pc opcode vch pc'. GetOp2 pc = (True, opcode, vch, pc') \<Longrightarrow> P pc' \<Longrightarrow> P pc"
  shows "P pc"
proof (induction pc rule: measure_induct_rule [where f = length])
  case (less pc)
  obtain ok opcode vch pc' where g: "GetOp2 pc = (ok, opcode, vch, pc')"
    by (metis prod_cases4)
  show ?case
  proof (cases ok)
    case True
    then show ?thesis
      using assms(3) [of pc opcode vch pc'] less [of pc'] g GetOp2_shorter [of pc opcode vch pc'] by simp
  next
    case False
    then show ?thesis
      using assms(1,2) g by (cases "pc = []") auto
  qed
qed

lemma script_ops_append:
  assumes "fst (script_ops a)"
  shows "script_ops (a @ b) = (fst (script_ops b), snd (script_ops a) @ snd (script_ops b))"
  using assms
proof (induction a rule: script_induct)
  case (Read pc opcode vch pc')
  then show ?case
    using script_ops_read [OF Read(1)] script_ops_read [OF GetOp2_append [OF Read(1), of b]] by simp
qed (simp_all add: script_ops_stop)

lemma script_ops_put_vch:
  "length b < 4294967296 \<Longrightarrow> script_ops (put_vch b) = (True, [(vch_opcode b, b)])"
  using script_ops_read [OF GetOp2_put_vch [of b "[]"]] by simp

lemma script_ops_put_op: "OP_PUSHDATA4 < opcode \<Longrightarrow> opcode < 256 \<Longrightarrow> script_ops (put_op opcode) = (True, [(opcode, [])])"
  using script_ops_read [OF GetOp2_op [of opcode "[]"]] by simp

text \<open>The scans of the source, in terms of the instructions.\<close>

lemma IsPushOnly_ops: "IsPushOnly s \<longleftrightarrow> fst (script_ops s) \<and> (\<forall>x \<in> set (snd (script_ops s)). fst x \<le> OP_16)"
proof (induction s rule: script_induct)
  case (Read pc opcode vch pc')
  then have "pc \<noteq> []"
    by (auto simp: GetOp2_def)
  then show ?case
    using Read script_ops_read [OF Read(1)] by (subst IsPushOnly.simps) auto
qed (auto simp: IsPushOnly.simps script_ops_stop)

lemma script_Find_ops: "script_Find op s = length (filter (\<lambda>x. fst x = op) (snd (script_ops s)))"
proof (induction s rule: script_induct)
  case (Read pc opcode vch pc')
  then have "pc \<noteq> []"
    by (auto simp: GetOp2_def)
  then show ?case
    using Read script_ops_read [OF Read(1)] by (subst script_Find.simps) auto
qed (auto simp: script_Find.simps script_ops_stop)

section \<open>Deleting a signature from a script\<close>

lemma push_at_iterator:
  assumes "length v < 4294967296" "take (length (put_vch v)) pc = put_vch v"
  shows "GetOp2 pc = (True, vch_opcode v, v, drop (length (put_vch v)) pc)"
  using GetOp2_put_vch [OF assms(1), of "drop (length (put_vch v)) pc"] assms(2)
  by (metis append_take_drop_id)

lemma erase_copies_ops:
  assumes "length v < 4294967296" "erase_copies (put_vch v) pc = (n, pc1)"
  shows "script_ops pc = (fst (script_ops pc1), replicate n (vch_opcode v, v) @ snd (script_ops pc1))
    \<and> take (length (put_vch v)) pc1 \<noteq> put_vch v"
  using assms(2)
proof (induction "put_vch v" pc arbitrary: n pc1 rule: erase_copies.induct)
  case (1 pc)
  have ne: "put_vch v \<noteq> []"
    by (simp add: put_vch_def)
  show ?case
  proof (cases "take (length (put_vch v)) pc = put_vch v")
    case True
    then have l: "length (put_vch v) \<le> length pc"
      by (metis length_take min.absorb_iff2 min.commute)
    obtain m pc2 where m: "erase_copies (put_vch v) (drop (length (put_vch v)) pc) = (m, pc2)"
      by fastforce
    then have "n = Suc m" "pc1 = pc2"
      using 1(2) True l ne by (simp_all add: erase_copies.simps [of _ pc])
    then show ?thesis
      using 1(1) [OF _ m] ne l True script_ops_read [OF push_at_iterator [OF assms(1) True]] by simp
  next
    case False
    then show ?thesis
      using 1(2) by (simp add: erase_copies.simps [of _ pc] split: if_splits)
  qed
qed

lemma find_delete_ops:
  assumes "length v < 4294967296" "find_delete (put_vch v) pc = (n, s)"
  shows "fst (script_ops s) = fst (script_ops pc)
    \<and> snd (script_ops s) = filter (\<lambda>x. x \<noteq> (vch_opcode v, v)) (snd (script_ops pc))
    \<and> n = length (filter (\<lambda>x. x = (vch_opcode v, v)) (snd (script_ops pc)))"
  using assms(2)
proof (induction "length pc" arbitrary: pc n s rule: less_induct)
  case less
  obtain k pc1 where e: "erase_copies (put_vch v) pc = (k, pc1)"
    by fastforce
  note eo = erase_copies_ops [OF assms(1) e]
  obtain ok opcode vch pc2 where g: "GetOp2 pc1 = (ok, opcode, vch, pc2)"
    by (metis prod_cases4)
  show ?case
  proof (cases ok)
    case False
    then have "n = k" "s = pc1"
      using less.prems e g by (simp_all add: find_delete.simps [of _ pc])
    moreover have "snd (script_ops pc1) = []"
      using False g script_ops_stop [of pc1] by (cases "pc1 = []") auto
    ultimately show ?thesis
      using eo by simp
  next
    case ok: True
    obtain m t where m: "find_delete (put_vch v) pc2 = (m, t)"
      by fastforce
    have gt: "GetOp2 pc1 = (True, opcode, vch, pc2)"
      using g ok by simp
    note r = GetOp2_read [OF gt] GetOp2_shorter [OF gt]
    have "length pc2 < length pc"
      using r(3) erase_copies_length [OF e] by simp
    note ih = less.hyps [OF this m]
    have s: "n = k + m" "s = op_bytes opcode vch @ t"
      using less.prems e gt m by (simp_all add: find_delete.simps [of _ pc]) (simp add: r(2))
    have o: "script_ops pc1 = (fst (script_ops pc2), (opcode, vch) # snd (script_ops pc2))"
      "script_ops s = (fst (script_ops t), (opcode, vch) # snd (script_ops t))"
      using script_ops_read [OF gt] script_ops_read [OF GetOp2_op_bytes [OF r(1), of t]]
      by (simp_all add: s(2))
    have "(opcode, vch) \<noteq> (vch_opcode v, v)"
      using eo r(2) by (auto simp: put_vch_op_bytes)
    then show ?thesis
      using ih eo o s(1) by simp
  qed
qed

section \<open>Properties\<close>

text \<open>
  An instruction that \<open>GetOp\<close> reads is the operand and the bytes it was read from: the
  reader accepts exactly the well-formed instructions and leaves the iterator right behind them.
\<close>

lemma GetOp_reads_instruction:
  "GetOp2 pc = (True, opcode, vch, pc') \<longleftrightarrow> op_valid opcode vch \<and> pc = op_bytes opcode vch @ pc'"
  using GetOp2_read GetOp2_op_bytes by blast

text \<open>
  A byte string that is pushed to a script is read back as one instruction with that string
  as its operand, whatever follows it.
\<close>

lemma push_then_GetOp:
  assumes "length b < 4294967296"
  shows "GetOp2 (put_vch b @ rest) = (True, vch_opcode b, b, rest)"
  by (rule GetOp2_put_vch [OF assms])

text \<open>
  \<open>FindAndDelete\<close> of a pushed string removes exactly the instructions that push that string
  in its shortest form, keeps every other instruction in order, and returns their number. This
  is how a signature is taken out of the script it signs.
\<close>

lemma FindAndDelete_push:
  assumes "length v < 4294967296"
  shows "script_ops (snd (FindAndDelete (put_vch v) s)) =
      (fst (script_ops s), filter (\<lambda>x. x \<noteq> (vch_opcode v, v)) (snd (script_ops s)))
    \<and> fst (FindAndDelete (put_vch v) s) = length (filter (\<lambda>x. x = (vch_opcode v, v)) (snd (script_ops s)))"
proof -
  have "put_vch v \<noteq> []"
    by (simp add: put_vch_def)
  then have "FindAndDelete (put_vch v) s = find_delete (put_vch v) s"
    by (simp add: FindAndDelete_def)
  then show ?thesis
    using find_delete_ops [OF assms, of s "fst (find_delete (put_vch v) s)" "snd (find_delete (put_vch v) s)"]
    by (simp add: prod_eq_iff)
qed

text \<open>
  A script is push-only, as the standardness rules and the pay-to-script-hash rules use the
  word, exactly when all of it can be read and no instruction is above \<open>OP_16\<close>.
\<close>

lemma IsPushOnly_correct:
  "IsPushOnly s = (fst (script_ops s) \<and> list_all (\<lambda>x. fst x \<le> OP_16) (snd (script_ops s)))"
  by (simp add: IsPushOnly_ops list_all_iff)

text \<open>The small integers 0 to 16 survive being encoded as opcodes.\<close>

lemma DecodeOP_N_EncodeOP_N:
  "(case EncodeOP_N n of None \<Rightarrow> n < 0 \<or> n > 16 | Some opcode \<Rightarrow> DecodeOP_N opcode = Some (nat n))"
  by (auto simp: EncodeOP_N_def DecodeOP_N_def)

end
