(* ===== verification/Script_Eval.thy ===== *)
theory Script_Eval
  imports Script_Code
begin

text \<open>
  The script interpreter \<open>EvalScript\<close> of server/script.cpp, opcode by opcode.

  The state of one run is the record \<open>eval_state\<close>: the two stacks (top first), the nesting of
  conditions (innermost first), the count of operations and the code that signatures
  commit to, which starts behind the last OP_CODESEPARATOR.  What the interpreter takes from
  elsewhere (the transaction's lock time, version and sequence number, the signature check,
  the hash functions of the crypto library and the proof of an alternate chain) is the record
  \<open>script_env\<close>.  \<open>None\<close> stands for \<open>return false\<close> and for an exception, which the
  interpreter catches and turns into false; every caller drops the stack then.

  The opcodes OP_CAT to OP_RIGHT, OP_INVERT to OP_XOR, OP_2MUL, OP_2DIV and OP_MUL to
  OP_RSHIFT are refused ahead of the switch, so their cases in it are dead code and are not
  modelled.
\<close>

section \<open>What a script sees of its transaction, and its state\<close>

record script_env =
  e_locktime :: nat
  e_version :: int
  e_sequence :: nat
  e_checksig :: "valtype \<Rightarrow> valtype \<Rightarrow> script \<Rightarrow> nat \<Rightarrow> bool"
  e_low_s :: "valtype \<Rightarrow> bool"
  e_ripemd160 :: "valtype \<Rightarrow> valtype"
  e_sha1 :: "valtype \<Rightarrow> valtype"
  e_sha256 :: "valtype \<Rightarrow> valtype"
  e_hash160 :: "valtype \<Rightarrow> valtype"
  e_hash256 :: "valtype \<Rightarrow> valtype"
  e_altproof :: "valtype \<Rightarrow> valtype \<Rightarrow> bool"

record eval_state =
  es_stack :: "valtype list"
  es_alt :: "valtype list"
  es_exec :: "bool list"
  es_ops :: nat
  es_code :: script

abbreviation (input) SCRIPT_VERIFY_P2SH :: nat where "SCRIPT_VERIFY_P2SH \<equiv> 1"
abbreviation (input) SCRIPT_VERIFY_LOW_S :: nat where "SCRIPT_VERIFY_LOW_S \<equiv> 8"
abbreviation (input) SCRIPT_VERIFY_SIGPUSHONLY :: nat where "SCRIPT_VERIFY_SIGPUSHONLY \<equiv> 32"
abbreviation (input) SCRIPT_VERIFY_MINIMALDATA :: nat where "SCRIPT_VERIFY_MINIMALDATA \<equiv> 64"
abbreviation (input) SCRIPT_VERIFY_CHECKLOCKTIMEVERIFY :: nat where "SCRIPT_VERIFY_CHECKLOCKTIMEVERIFY \<equiv> 512"
abbreviation (input) SCRIPT_VERIFY_CHECKSEQUENCEVERIFY :: nat where "SCRIPT_VERIFY_CHECKSEQUENCEVERIFY \<equiv> 1024"
abbreviation (input) SCRIPT_VERIFY_WITNESS :: nat where "SCRIPT_VERIFY_WITNESS \<equiv> 2048"
abbreviation (input) SCRIPT_VERIFY_DISCOURAGE_WITNESS :: nat where "SCRIPT_VERIFY_DISCOURAGE_WITNESS \<equiv> 4096"
abbreviation (input) SCRIPT_VERIFY_MINIMALIF :: nat where "SCRIPT_VERIFY_MINIMALIF \<equiv> 8192"

abbreviation (input) SIGVERSION_BASE :: nat where "SIGVERSION_BASE \<equiv> 0"
abbreviation (input) SIGVERSION_WITNESS_V0 :: nat where "SIGVERSION_WITNESS_V0 \<equiv> 1"
abbreviation (input) SIGVERSION_WITNESS_V14 :: nat where "SIGVERSION_WITNESS_V14 \<equiv> 15"

abbreviation (input) LOCKTIME_THRESHOLD :: nat where "LOCKTIME_THRESHOLD \<equiv> 500000000"
abbreviation (input) SEQUENCE_FINAL :: nat where "SEQUENCE_FINAL \<equiv> 4294967295"
abbreviation (input) SEQUENCE_LOCKTIME_DISABLE_FLAG :: nat where "SEQUENCE_LOCKTIME_DISABLE_FLAG \<equiv> 2147483648"
abbreviation (input) SEQUENCE_LOCKTIME_TYPE_FLAG :: nat where "SEQUENCE_LOCKTIME_TYPE_FLAG \<equiv> 4194304"
abbreviation (input) SEQUENCE_LOCKTIME_MASK :: nat where "SEQUENCE_LOCKTIME_MASK \<equiv> 65535"

definition flag_set :: "nat \<Rightarrow> nat \<Rightarrow> bool" where
  "flag_set flags f \<longleftrightarrow> and flags f \<noteq> 0"

definition vchTrue :: valtype where "vchTrue = [1]"
definition vchFalse :: valtype where "vchFalse = []"

definition bool_vch :: "bool \<Rightarrow> valtype" where
  "bool_vch f = (if f then vchTrue else vchFalse)"

definition num_vch :: "int \<Rightarrow> valtype" where
  "num_vch i = bn_getvch (bn_of_int i)"

definition vch_num :: "valtype \<Rightarrow> int option" where
  "vch_num vch = map_option bn_int (CastToBigNum vch)"

definition push_stack :: "valtype \<Rightarrow> eval_state \<Rightarrow> eval_state" where
  "push_stack v st = st\<lparr>es_stack := v # es_stack st\<rparr>"

section \<open>Lock times\<close>

definition op_checklocktimeverify :: "script_env \<Rightarrow> nat \<Rightarrow> eval_state \<Rightarrow> eval_state option" where
  "op_checklocktimeverify env flags st =
     (if \<not> flag_set flags SCRIPT_VERIFY_CHECKLOCKTIMEVERIFY then Some st
      else (case es_stack st of
              [] \<Rightarrow> None
            | vch # _ \<Rightarrow>
              (case CScriptNum vch True 4 of
                 None \<Rightarrow> None
               | Some nLockTime \<Rightarrow>
                 if nLockTime < 0 then None
                 else if \<not> ((e_locktime env < LOCKTIME_THRESHOLD \<and> nLockTime < int LOCKTIME_THRESHOLD)
                          \<or> (e_locktime env \<ge> LOCKTIME_THRESHOLD \<and> nLockTime \<ge> int LOCKTIME_THRESHOLD))
                 then None
                 else if nLockTime > int (e_locktime env) then None
                 else if e_sequence env = SEQUENCE_FINAL then None
                 else Some st)))"

definition op_checksequenceverify :: "script_env \<Rightarrow> nat \<Rightarrow> eval_state \<Rightarrow> eval_state option" where
  "op_checksequenceverify env flags st =
     (if \<not> flag_set flags SCRIPT_VERIFY_CHECKSEQUENCEVERIFY then Some st
      else (case es_stack st of
              [] \<Rightarrow> None
            | vch # _ \<Rightarrow>
              (case CScriptNum vch (flag_set flags SCRIPT_VERIFY_MINIMALDATA) 5 of
                 None \<Rightarrow> None
               | Some nSequence \<Rightarrow>
                 if nSequence < 0 then None
                 else if and nSequence (int SEQUENCE_LOCKTIME_DISABLE_FLAG) \<noteq> 0 then Some st
                 else if e_version env < 2 then None
                 else if flag_set (e_sequence env) SEQUENCE_LOCKTIME_DISABLE_FLAG then None
                 else
                   (let nLockTimeMask = or SEQUENCE_LOCKTIME_TYPE_FLAG SEQUENCE_LOCKTIME_MASK;
                        txToSequenceMasked = int (and (e_sequence env) nLockTimeMask);
                        nSequenceMasked = and nSequence (int nLockTimeMask);
                        typ = int SEQUENCE_LOCKTIME_TYPE_FLAG in
                    if \<not> ((txToSequenceMasked < typ \<and> nSequenceMasked < typ)
                          \<or> (txToSequenceMasked \<ge> typ \<and> nSequenceMasked \<ge> typ)) then None
                    else if nSequenceMasked > txToSequenceMasked then None
                    else Some st))))"

section \<open>Control\<close>

definition op_if :: "nat \<Rightarrow> nat \<Rightarrow> opcode \<Rightarrow> bool \<Rightarrow> eval_state \<Rightarrow> eval_state option" where
  "op_if sigver flags opcode fExec st =
     (if \<not> fExec then Some (st\<lparr>es_exec := False # es_exec st\<rparr>)
      else (case es_stack st of
              [] \<Rightarrow> None
            | vch # stk \<Rightarrow>
              if (sigver = SIGVERSION_WITNESS_V0 \<or> sigver = SIGVERSION_WITNESS_V14)
                 \<and> flag_set flags SCRIPT_VERIFY_MINIMALIF
                 \<and> (length vch > 1 \<or> (length vch = 1 \<and> vch ! 0 \<noteq> 1))
              then None
              else (let fValue = (if opcode = OP_NOTIF then \<not> CastToBool vch else CastToBool vch)
                    in Some (st\<lparr>es_stack := stk, es_exec := fValue # es_exec st\<rparr>))))"

definition op_else :: "eval_state \<Rightarrow> eval_state option" where
  "op_else st = (case es_exec st of [] \<Rightarrow> None | f # fs \<Rightarrow> Some (st\<lparr>es_exec := (\<not> f) # fs\<rparr>))"

definition op_endif :: "eval_state \<Rightarrow> eval_state option" where
  "op_endif st = (case es_exec st of [] \<Rightarrow> None | f # fs \<Rightarrow> Some (st\<lparr>es_exec := fs\<rparr>))"

definition op_verify :: "eval_state \<Rightarrow> eval_state option" where
  "op_verify st =
     (case es_stack st of
        [] \<Rightarrow> None
      | vch # stk \<Rightarrow> if CastToBool vch then Some (st\<lparr>es_stack := stk\<rparr>) else None)"

section \<open>Stack operations\<close>

definition op_altstack :: "opcode \<Rightarrow> eval_state \<Rightarrow> eval_state option" where
  "op_altstack opcode st =
     (if opcode = OP_TOALTSTACK
      then (case es_stack st of [] \<Rightarrow> None | x # s \<Rightarrow> Some (st\<lparr>es_stack := s, es_alt := x # es_alt st\<rparr>))
      else (case es_alt st of [] \<Rightarrow> None | x # a \<Rightarrow> Some (st\<lparr>es_stack := x # es_stack st, es_alt := a\<rparr>)))"

text \<open>The operations that only move values: the stack before and after, its top first.\<close>

definition pick_roll :: "opcode \<Rightarrow> valtype list \<Rightarrow> valtype list option" where
  "pick_roll opcode s =
     (if length s < 2 then None
      else (case CastToBigNum (hd s) of
              None \<Rightarrow> None
            | Some bn \<Rightarrow>
              (let n = bn_getint bn; s' = tl s in
               if n < 0 \<or> n \<ge> int (length s') then None
               else if opcode = OP_ROLL
               then Some (s' ! nat n # take (nat n) s' @ drop (Suc (nat n)) s')
               else Some (s' ! nat n # s'))))"

definition stack_op :: "opcode \<Rightarrow> valtype list \<Rightarrow> valtype list option" where
  "stack_op opcode s =
     (if opcode = OP_2DROP then (case s of _ # _ # r \<Rightarrow> Some r | _ \<Rightarrow> None)
      else if opcode = OP_2DUP then (case s of x2 # x1 # r \<Rightarrow> Some (x2 # x1 # x2 # x1 # r) | _ \<Rightarrow> None)
      else if opcode = OP_3DUP
      then (case s of x3 # x2 # x1 # r \<Rightarrow> Some (x3 # x2 # x1 # x3 # x2 # x1 # r) | _ \<Rightarrow> None)
      else if opcode = OP_2OVER
      then (case s of x4 # x3 # x2 # x1 # r \<Rightarrow> Some (x2 # x1 # x4 # x3 # x2 # x1 # r) | _ \<Rightarrow> None)
      else if opcode = OP_2ROT
      then (case s of x6 # x5 # x4 # x3 # x2 # x1 # r \<Rightarrow> Some (x2 # x1 # x6 # x5 # x4 # x3 # r) | _ \<Rightarrow> None)
      else if opcode = OP_2SWAP
      then (case s of x4 # x3 # x2 # x1 # r \<Rightarrow> Some (x2 # x1 # x4 # x3 # r) | _ \<Rightarrow> None)
      else if opcode = OP_IFDUP
      then (case s of x # r \<Rightarrow> Some (if CastToBool x then x # x # r else x # r) | _ \<Rightarrow> None)
      else if opcode = OP_DEPTH then Some (num_vch (int (length s)) # s)
      else if opcode = OP_DROP then (case s of _ # r \<Rightarrow> Some r | _ \<Rightarrow> None)
      else if opcode = OP_DUP then (case s of x # r \<Rightarrow> Some (x # x # r) | _ \<Rightarrow> None)
      else if opcode = OP_NIP then (case s of x2 # x1 # r \<Rightarrow> Some (x2 # r) | _ \<Rightarrow> None)
      else if opcode = OP_OVER then (case s of x2 # x1 # r \<Rightarrow> Some (x1 # x2 # x1 # r) | _ \<Rightarrow> None)
      else if opcode = OP_PICK \<or> opcode = OP_ROLL then pick_roll opcode s
      else if opcode = OP_ROT then (case s of x3 # x2 # x1 # r \<Rightarrow> Some (x1 # x3 # x2 # r) | _ \<Rightarrow> None)
      else if opcode = OP_SWAP then (case s of x2 # x1 # r \<Rightarrow> Some (x1 # x2 # r) | _ \<Rightarrow> None)
      else if opcode = OP_TUCK then (case s of x2 # x1 # r \<Rightarrow> Some (x2 # x1 # x2 # r) | _ \<Rightarrow> None)
      else None)"

section \<open>Values\<close>

definition op_size_of :: "valtype list \<Rightarrow> valtype list option" where
  "op_size_of s = (case s of [] \<Rightarrow> None | x # r \<Rightarrow> Some (num_vch (int (length x)) # x # r))"

definition op_equal :: "opcode \<Rightarrow> valtype list \<Rightarrow> valtype list option" where
  "op_equal opcode s =
     (case s of
        vch2 # vch1 # r \<Rightarrow>
          (if opcode = OP_EQUALVERIFY then (if vch1 = vch2 then Some r else None)
           else Some (bool_vch (vch1 = vch2) # r))
      | _ \<Rightarrow> None)"

definition unary_num :: "opcode \<Rightarrow> int \<Rightarrow> int" where
  "unary_num opcode bn =
     (if opcode = OP_1ADD then bn + 1
      else if opcode = OP_1SUB then bn - 1
      else if opcode = OP_NEGATE then - bn
      else if opcode = OP_ABS then (if bn < 0 then - bn else bn)
      else if opcode = OP_NOT then of_bool (bn = 0)
      else of_bool (bn \<noteq> 0))"

definition op_unary :: "opcode \<Rightarrow> valtype list \<Rightarrow> valtype list option" where
  "op_unary opcode s =
     (case s of
        [] \<Rightarrow> None
      | x # r \<Rightarrow> (case vch_num x of None \<Rightarrow> None | Some bn \<Rightarrow> Some (num_vch (unary_num opcode bn) # r)))"

definition binary_num :: "opcode \<Rightarrow> int \<Rightarrow> int \<Rightarrow> int" where
  "binary_num opcode bn1 bn2 =
     (if opcode = OP_ADD then bn1 + bn2
      else if opcode = OP_SUB then bn1 - bn2
      else if opcode = OP_BOOLAND then of_bool (bn1 \<noteq> 0 \<and> bn2 \<noteq> 0)
      else if opcode = OP_BOOLOR then of_bool (bn1 \<noteq> 0 \<or> bn2 \<noteq> 0)
      else if opcode = OP_NUMEQUAL \<or> opcode = OP_NUMEQUALVERIFY then of_bool (bn1 = bn2)
      else if opcode = OP_NUMNOTEQUAL then of_bool (bn1 \<noteq> bn2)
      else if opcode = OP_LESSTHAN then of_bool (bn1 < bn2)
      else if opcode = OP_GREATERTHAN then of_bool (bn1 > bn2)
      else if opcode = OP_LESSTHANOREQUAL then of_bool (bn1 \<le> bn2)
      else if opcode = OP_GREATERTHANOREQUAL then of_bool (bn1 \<ge> bn2)
      else if opcode = OP_MIN then (if bn1 < bn2 then bn1 else bn2)
      else (if bn1 > bn2 then bn1 else bn2))"

definition op_binary :: "opcode \<Rightarrow> valtype list \<Rightarrow> valtype list option" where
  "op_binary opcode s =
     (case s of
        x2 # x1 # r \<Rightarrow>
          (case (vch_num x1, vch_num x2) of
             (Some bn1, Some bn2) \<Rightarrow>
               (let v = num_vch (binary_num opcode bn1 bn2) in
                if opcode = OP_NUMEQUALVERIFY then (if CastToBool v then Some r else None)
                else Some (v # r))
           | _ \<Rightarrow> None)
      | _ \<Rightarrow> None)"

definition op_within :: "valtype list \<Rightarrow> valtype list option" where
  "op_within s =
     (case s of
        x3 # x2 # x1 # r \<Rightarrow>
          (case (vch_num x1, vch_num x2, vch_num x3) of
             (Some bn1, Some bn2, Some bn3) \<Rightarrow> Some (bool_vch (bn2 \<le> bn1 \<and> bn1 < bn3) # r)
           | _ \<Rightarrow> None)
      | _ \<Rightarrow> None)"

definition op_hash :: "script_env \<Rightarrow> opcode \<Rightarrow> valtype list \<Rightarrow> valtype list option" where
  "op_hash env opcode s =
     (case s of
        [] \<Rightarrow> None
      | vch # r \<Rightarrow>
        Some ((if opcode = OP_RIPEMD160 then e_ripemd160 env vch
               else if opcode = OP_SHA1 then e_sha1 env vch
               else if opcode = OP_SHA256 then e_sha256 env vch
               else if opcode = OP_HASH160 then e_hash160 env vch
               else e_hash256 env vch) # r))"

section \<open>Signatures\<close>

definition CheckLowS :: "script_env \<Rightarrow> valtype \<Rightarrow> bool" where
  "CheckLowS env vchSig = (if length vchSig = 0 then True else e_low_s env vchSig)"

text \<open>
  The copy of the signature without its last byte is taken with iterators; for an empty
  signature its length is negative and the allocation throws, which ends the evaluation.
\<close>

definition op_checksig :: "script_env \<Rightarrow> nat \<Rightarrow> nat \<Rightarrow> opcode \<Rightarrow> eval_state \<Rightarrow> eval_state option" where
  "op_checksig env sigver flags opcode st =
     (case es_stack st of
        vchPubKey # vchSig # r \<Rightarrow>
          (let scriptCode = (if sigver = SIGVERSION_BASE
                             then snd (FindAndDelete (put_vch vchSig) (es_code st)) else es_code st) in
           if sigver \<noteq> 14 \<and> flag_set flags SCRIPT_VERIFY_LOW_S
              \<and> (vchSig = [] \<or> \<not> CheckLowS env (butlast vchSig))
           then None
           else (let fSuccess = e_checksig env vchSig vchPubKey scriptCode sigver in
             if opcode = OP_CHECKSIGVERIFY
             then (if fSuccess then Some (st\<lparr>es_stack := r\<rparr>) else None)
             else Some (st\<lparr>es_stack := bool_vch fSuccess # r\<rparr>)))
      | _ \<Rightarrow> None)"

text \<open>The loop over signatures and keys; it stops when more signatures than keys are left.\<close>

fun multisig_loop :: "(valtype \<Rightarrow> valtype \<Rightarrow> bool) \<Rightarrow> valtype list \<Rightarrow> valtype list \<Rightarrow> bool" where
  "multisig_loop chk [] keys = True"
| "multisig_loop chk (s # sigs) [] = False"
| "multisig_loop chk (s # sigs) (k # keys) =
     (let left = (if chk s k then sigs else s # sigs) in
      if length left > length keys then False else multisig_loop chk left keys)"

definition op_checkmultisig :: "script_env \<Rightarrow> nat \<Rightarrow> opcode \<Rightarrow> eval_state \<Rightarrow> eval_state option" where
  "op_checkmultisig env sigver opcode st =
     (let s = es_stack st in
      if length s < 1 then None
      else (case CastToBigNum (s ! 0) of None \<Rightarrow> None | Some bnk \<Rightarrow>
        (let nKeysCount = bn_getint bnk in
         if nKeysCount < 0 \<or> nKeysCount > 20 then None
         else (let nk = nat nKeysCount; nOpCount = es_ops st + nk in
           if nOpCount > 201 then None
           else if length s < 2 + nk then None
           else (case CastToBigNum (s ! (1 + nk)) of None \<Rightarrow> None | Some bns \<Rightarrow>
             (let nSigsCount = bn_getint bns in
              if nSigsCount < 0 \<or> nSigsCount > nKeysCount then None
              else (let ns = nat nSigsCount in
                if length s < 3 + nk + ns then None
                else
                  (let keys = take nk (drop 1 s);
                       sigs = take ns (drop (2 + nk) s);
                       scriptCode = (if sigver = SIGVERSION_BASE
                         then fold (\<lambda>sig code. snd (FindAndDelete (put_vch sig) code)) sigs (es_code st)
                         else es_code st);
                       fSuccess = multisig_loop (\<lambda>sig key. e_checksig env sig key scriptCode sigver) sigs keys;
                       r = drop (3 + nk + ns) s;
                       st' = st\<lparr>es_ops := nOpCount\<rparr>
                   in if opcode = OP_CHECKMULTISIGVERIFY
                      then (if fSuccess then Some (st'\<lparr>es_stack := r\<rparr>) else None)
                      else Some (st'\<lparr>es_stack := bool_vch fSuccess # r\<rparr>)))))))))"

definition op_checkaltproof :: "script_env \<Rightarrow> valtype list \<Rightarrow> valtype list option" where
  "op_checkaltproof env s =
     (case s of vchColor # vchTx # r \<Rightarrow> Some (bool_vch (e_altproof env vchColor vchTx) # r) | _ \<Rightarrow> None)"

section \<open>The interpreter\<close>

definition disabled_op :: "opcode \<Rightarrow> bool" where
  "disabled_op opcode \<longleftrightarrow>
     opcode = OP_CAT \<or> opcode = OP_SUBSTR \<or> opcode = OP_LEFT \<or> opcode = OP_RIGHT \<or> opcode = OP_INVERT
     \<or> opcode = OP_AND \<or> opcode = OP_OR \<or> opcode = OP_XOR \<or> opcode = OP_2MUL \<or> opcode = OP_2DIV
     \<or> opcode = OP_MUL \<or> opcode = OP_DIV \<or> opcode = OP_MOD \<or> opcode = OP_LSHIFT \<or> opcode = OP_RSHIFT"

definition on_stack :: "(valtype list \<Rightarrow> valtype list option) \<Rightarrow> eval_state \<Rightarrow> eval_state option" where
  "on_stack f st = map_option (\<lambda>s. st\<lparr>es_stack := s\<rparr>) (f (es_stack st))"

definition eval_switch ::
  "script_env \<Rightarrow> nat \<Rightarrow> nat \<Rightarrow> opcode \<Rightarrow> bool \<Rightarrow> script \<Rightarrow> eval_state \<Rightarrow> eval_state option" where
  "eval_switch env sigver flags opcode fExec pc st =
     (if opcode = OP_1NEGATE \<or> (OP_1 \<le> opcode \<and> opcode \<le> OP_16)
      then Some (push_stack (num_vch (int opcode - int (OP_1 - 1))) st)
      else if opcode \<in> {OP_NOP, OP_NOP1, OP_NOP4, OP_NOP5, OP_NOP6, OP_NOP7, OP_NOP9, OP_NOP10} then Some st
      else if opcode = OP_CHECKLOCKTIMEVERIFY then op_checklocktimeverify env flags st
      else if opcode = OP_CHECKSEQUENCEVERIFY then op_checksequenceverify env flags st
      else if opcode = OP_IF \<or> opcode = OP_NOTIF then op_if sigver flags opcode fExec st
      else if opcode = OP_ELSE then op_else st
      else if opcode = OP_ENDIF then op_endif st
      else if opcode = OP_VERIFY then op_verify st
      else if opcode = OP_RETURN then None
      else if opcode = OP_TOALTSTACK \<or> opcode = OP_FROMALTSTACK then op_altstack opcode st
      else if OP_2DROP \<le> opcode \<and> opcode \<le> OP_TUCK then on_stack (stack_op opcode) st
      else if opcode = OP_SIZE then on_stack op_size_of st
      else if opcode = OP_EQUAL \<or> opcode = OP_EQUALVERIFY then on_stack (op_equal opcode) st
      else if opcode \<in> {OP_1ADD, OP_1SUB, OP_NEGATE, OP_ABS, OP_NOT, OP_0NOTEQUAL}
      then on_stack (op_unary opcode) st
      else if opcode = OP_ADD \<or> opcode = OP_SUB \<or> (OP_BOOLAND \<le> opcode \<and> opcode \<le> OP_MAX)
      then on_stack (op_binary opcode) st
      else if opcode = OP_WITHIN then on_stack op_within st
      else if OP_RIPEMD160 \<le> opcode \<and> opcode \<le> OP_HASH256 then on_stack (op_hash env opcode) st
      else if opcode = OP_CODESEPARATOR then Some (st\<lparr>es_code := pc\<rparr>)
      else if opcode = OP_CHECKSIG \<or> opcode = OP_CHECKSIGVERIFY then op_checksig env sigver flags opcode st
      else if opcode = OP_CHECKMULTISIG \<or> opcode = OP_CHECKMULTISIGVERIFY
      then op_checkmultisig env sigver opcode st
      else if opcode = OP_CHECKALTPROOF then on_stack (op_checkaltproof env) st
      else if 0xf0 \<le> opcode \<and> opcode \<le> 0xf9 then Some st
      else None)"

definition count_op :: "opcode \<Rightarrow> eval_state \<Rightarrow> eval_state" where
  "count_op opcode st = (if opcode > OP_16 then st\<lparr>es_ops := es_ops st + 1\<rparr> else st)"

definition eval_execute ::
  "script_env \<Rightarrow> nat \<Rightarrow> nat \<Rightarrow> opcode \<Rightarrow> valtype \<Rightarrow> script \<Rightarrow> eval_state \<Rightarrow> eval_state option" where
  "eval_execute env sigver flags opcode vch pc st =
     (let fExec = list_all id (es_exec st) in
      if fExec \<and> opcode \<le> OP_PUSHDATA4 then Some (push_stack vch st)
      else if fExec \<or> (OP_IF \<le> opcode \<and> opcode \<le> OP_ENDIF)
      then eval_switch env sigver flags opcode fExec pc st
      else Some st)"

text \<open>One round of the loop: \<open>pc\<close> is the iterator behind the instruction.\<close>

definition eval_step ::
  "script_env \<Rightarrow> nat \<Rightarrow> nat \<Rightarrow> opcode \<Rightarrow> valtype \<Rightarrow> script \<Rightarrow> eval_state \<Rightarrow> eval_state option" where
  "eval_step env sigver flags opcode vch pc st =
     (if length vch > 520 then None
      else if opcode > OP_16 \<and> es_ops (count_op opcode st) > 201 then None
      else if disabled_op opcode then None
      else (case eval_execute env sigver flags opcode vch pc (count_op opcode st) of
              None \<Rightarrow> None
            | Some st2 \<Rightarrow> if length (es_stack st2) + length (es_alt st2) > 1000 then None else Some st2))"

function eval_loop :: "script_env \<Rightarrow> nat \<Rightarrow> nat \<Rightarrow> script \<Rightarrow> eval_state \<Rightarrow> eval_state option" where
  "eval_loop env sigver flags pc st =
     (if pc = [] then Some st
      else (case GetOp2 pc of
              (False, opcode, vch, pc') \<Rightarrow> None
            | (True, opcode, vch, pc') \<Rightarrow>
              (case eval_step env sigver flags opcode vch pc' st of
                 None \<Rightarrow> None
               | Some st' \<Rightarrow> eval_loop env sigver flags pc' st')))"
  by pat_completeness auto
termination
  by (relation "measure (\<lambda>(e, sv, f, pc, st). length pc)") (auto dest: GetOp2_shorter [OF sym])

declare eval_loop.simps [simp del]

definition EvalScript ::
  "script_env \<Rightarrow> nat \<Rightarrow> nat \<Rightarrow> script \<Rightarrow> valtype list \<Rightarrow> valtype list option" where
  "EvalScript env sigver flags script stack =
     (if length script > 10000 then None
      else (case eval_loop env sigver flags script
                   \<lparr>es_stack = stack, es_alt = [], es_exec = [], es_ops = 0, es_code = script\<rparr> of
              None \<Rightarrow> None
            | Some st \<Rightarrow> if es_exec st \<noteq> [] then None else Some (es_stack st)))"

end
