(* ===== verification/Script_Run.thy ===== *)
theory Script_Run
  imports Script_Eval
begin

text \<open>
  The interpreter instruction by instruction: numbers on the stack, what a step needs and
  keeps, the resource limits (\<open>state_ok\<close>: at most 1000 values of at most 520 bytes on the two
  stacks, at most 201 operations) as an invariant of the loop, and the form of every script
  that is accepted (it parses, has no disabled opcode and its conditionals are balanced).
\<close>

section \<open>Numbers on the stack\<close>

lemma num_vch_serialize: "num_vch i = scriptnum_serialize i"
  by (simp add: num_vch_def bn_getvch_int)

lemma vch_num_eq: "vch_num v = (if length v > 4 then None else Some (scriptnum_set_vch v))"
  by (simp add: vch_num_def CastToBigNum_def bn_int_setvch bn_getvch_setvch set_vch_serialize)

lemma vch_num_bound: "vch_num v = Some i \<Longrightarrow> \<bar>i\<bar> < 2147483648"
  using abs_set_vch_le [of v 4] by (auto simp: vch_num_eq split: if_splits)

lemma vch_num_num_vch: "\<bar>i\<bar> < 2147483648 \<Longrightarrow> vch_num (num_vch i) = Some i"
  using length_serialize [of i 3] by (simp add: vch_num_eq num_vch_serialize set_vch_serialize)

lemma length_num_vch: "\<bar>i\<bar> < 549755813888 \<Longrightarrow> length (num_vch i) \<le> 5"
  using length_serialize [of i 4] by (simp add: num_vch_serialize)

lemma CastToBool_bool_vch [simp]: "CastToBool (bool_vch b) = b"
  by (simp add: bool_vch_def vchTrue_def vchFalse_def)

lemma CastToBool_num_vch: "CastToBool (num_vch i) \<longleftrightarrow> i \<noteq> 0"
  by (simp add: CastToBool_value num_vch_serialize set_vch_serialize)

lemma length_bool_vch: "length (bool_vch b) \<le> 1"
  by (simp add: bool_vch_def vchTrue_def vchFalse_def)

section \<open>One step and the loop\<close>

lemma eval_loop_Nil [simp]: "eval_loop env sv fl [] st = Some st"
  by (simp add: eval_loop.simps)

lemma eval_loop_stop: "pc \<noteq> [] \<Longrightarrow> GetOp2 pc = (False, x) \<Longrightarrow> eval_loop env sv fl pc st = None"
  by (subst eval_loop.simps) (auto split: prod.splits)

lemma eval_loop_read:
  assumes "GetOp2 pc = (True, opcode, vch, pc')"
  shows "eval_loop env sv fl pc st =
    Option.bind (eval_step env sv fl opcode vch pc' st) (eval_loop env sv fl pc')"
proof -
  have "pc \<noteq> []"
    using assms by (auto simp: GetOp2_def)
  then show ?thesis
    by (subst eval_loop.simps) (simp add: assms split: option.splits)
qed

lemma eval_loop_put_vch:
  "length b < 4294967296 \<Longrightarrow> eval_loop env sv fl (put_vch b @ r) st =
    Option.bind (eval_step env sv fl (vch_opcode b) b r st) (eval_loop env sv fl r)"
  by (rule eval_loop_read) (rule GetOp2_put_vch)

lemma eval_loop_op:
  "OP_PUSHDATA4 < opcode \<Longrightarrow> opcode < 256 \<Longrightarrow> eval_loop env sv fl (put_op opcode @ r) st =
    Option.bind (eval_step env sv fl opcode [] r st) (eval_loop env sv fl r)"
  by (rule eval_loop_read) (rule GetOp2_op)

lemma vch_opcode_enabled: "\<not> disabled_op (vch_opcode b)" "\<not> OP_16 < vch_opcode b"
  using vch_opcode_le [of b] by (auto simp: disabled_op_def)

lemma eval_step_Some:
  "eval_step env sv fl opcode vch pc st = Some st' \<longleftrightarrow>
     length vch \<le> 520 \<and> (OP_16 < opcode \<longrightarrow> es_ops st < 201) \<and> \<not> disabled_op opcode
     \<and> eval_execute env sv fl opcode vch pc (count_op opcode st) = Some st'
     \<and> length (es_stack st') + length (es_alt st') \<le> 1000"
  by (auto simp: eval_step_def count_op_def split: option.splits)

lemma count_op_simps [simp]: "es_stack (count_op opcode st) = es_stack st" "es_alt (count_op opcode st) = es_alt st"
  "es_exec (count_op opcode st) = es_exec st" "es_code (count_op opcode st) = es_code st"
  "es_ops (count_op opcode st) = es_ops st + (if OP_16 < opcode then 1 else 0)"
  by (simp_all add: count_op_def)

lemma eval_execute_elim:
  assumes "eval_execute env sv fl opcode vch pc st = Some st'"
    "list_all id (es_exec st) \<Longrightarrow> opcode \<le> OP_PUSHDATA4 \<Longrightarrow> st' = push_stack vch st \<Longrightarrow> P"
    "eval_switch env sv fl opcode (list_all id (es_exec st)) pc st = Some st' \<Longrightarrow> P"
    "\<not> list_all id (es_exec st) \<Longrightarrow> \<not> (OP_IF \<le> opcode \<and> opcode \<le> OP_ENDIF) \<Longrightarrow> st' = st \<Longrightarrow> P"
  shows P
proof -
  consider "list_all id (es_exec st) \<and> opcode \<le> OP_PUSHDATA4"
    | "\<not> (list_all id (es_exec st) \<and> opcode \<le> OP_PUSHDATA4)" "list_all id (es_exec st) \<or> OP_IF \<le> opcode \<and> opcode \<le> OP_ENDIF"
    | "\<not> (list_all id (es_exec st) \<and> opcode \<le> OP_PUSHDATA4)" "\<not> (list_all id (es_exec st) \<or> OP_IF \<le> opcode \<and> opcode \<le> OP_ENDIF)"
    by blast
  then show P
  proof cases
    case 1
    then show ?thesis
      using assms(1,2) by (simp only: eval_execute_def Let_def if_True option.inject simp_thms)
  next
    case 2
    then show ?thesis
      using assms(1,3) by (simp only: eval_execute_def Let_def if_True if_False)
  next
    case 3
    then have "st' = st"
      using assms(1) by (simp only: eval_execute_def Let_def if_False option.inject)
    with 3 show ?thesis
      by (intro assms(4)) simp_all
  qed
qed

lemma eval_step_push:
  assumes "list_all id (es_exec st)" "length b \<le> 520" "length (es_stack st) + length (es_alt st) < 1000"
  shows "eval_step env sv fl (vch_opcode b) b pc st = Some (push_stack b st)"
  using assms vch_opcode_le [of b] vch_opcode_enabled [of b]
  by (simp add: eval_step_Some eval_execute_def push_stack_def count_op_def)

section \<open>The limits\<close>

definition vals_ok :: "valtype list \<Rightarrow> bool" where
  "vals_ok s \<longleftrightarrow> list_all (\<lambda>v. length v \<le> 520) s"

definition hashes_fit :: "script_env \<Rightarrow> bool" where
  "hashes_fit env \<longleftrightarrow> (\<forall>v. length (e_ripemd160 env v) = 20 \<and> length (e_sha1 env v) = 20 \<and> length (e_sha256 env v) = 32
     \<and> length (e_hash160 env v) = 20 \<and> length (e_hash256 env v) = 32)"

lemma vals_ok_simps [simp]: "vals_ok []" "vals_ok (v # s) \<longleftrightarrow> length v \<le> 520 \<and> vals_ok s"
  "vals_ok (s @ t) \<longleftrightarrow> vals_ok s \<and> vals_ok t"
  by (auto simp: vals_ok_def)

lemma vals_ok_part: "vals_ok s \<Longrightarrow> vals_ok (take n s)" "vals_ok s \<Longrightarrow> vals_ok (drop n s)"
  "vals_ok s \<Longrightarrow> n < length s \<Longrightarrow> length (s ! n) \<le> 520"
  by (auto simp: vals_ok_def list_all_iff dest: in_set_takeD in_set_dropD)

lemma length_num_vch_520: "\<bar>i\<bar> < 549755813888 \<Longrightarrow> length (num_vch i) \<le> 520"
  using length_num_vch [of i] by simp

lemma length_bool_vch_520: "length (bool_vch b) \<le> 520"
  using length_bool_vch [of b] by simp

lemma pick_roll_ok: "pick_roll opcode s = Some s' \<Longrightarrow> vals_ok s \<Longrightarrow> vals_ok s' \<and> length s' \<le> length s"
  by (cases s)
    (auto simp: pick_roll_def Let_def vals_ok_part split: if_splits option.splits)

lemma stack_op_ok:
  assumes "stack_op opcode s = Some s'" "vals_ok s" "length s \<le> 1000"
  shows "vals_ok s'"
  using assms pick_roll_ok [of opcode s s']
  by (auto simp: stack_op_def length_num_vch_520 split: if_splits list.splits)

lemma unary_num_bound: "\<bar>i\<bar> < 2147483648 \<Longrightarrow> \<bar>unary_num opcode i\<bar> < 549755813888"
  by (auto simp: unary_num_def)

lemma binary_num_bound: "\<bar>i\<bar> < 2147483648 \<Longrightarrow> \<bar>j\<bar> < 2147483648 \<Longrightarrow> \<bar>binary_num opcode i j\<bar> < 549755813888"
  by (auto simp: binary_num_def)

lemma value_ops_ok:
  shows "op_size_of s = Some s' \<Longrightarrow> vals_ok s \<Longrightarrow> vals_ok s'"
    and "op_equal opcode s = Some s' \<Longrightarrow> vals_ok s \<Longrightarrow> vals_ok s'"
    and "op_within s = Some s' \<Longrightarrow> vals_ok s \<Longrightarrow> vals_ok s'"
    and "op_checkaltproof env s = Some s' \<Longrightarrow> vals_ok s \<Longrightarrow> vals_ok s'"
    and "op_hash env opcode s = Some s' \<Longrightarrow> hashes_fit env \<Longrightarrow> vals_ok s \<Longrightarrow> vals_ok s'"
  by (auto simp: op_size_of_def op_equal_def op_within_def op_checkaltproof_def op_hash_def hashes_fit_def
      length_num_vch_520 length_bool_vch_520 split: list.splits if_splits option.splits)

lemma op_unary_ok: "op_unary opcode s = Some s' \<Longrightarrow> vals_ok s \<Longrightarrow> vals_ok s'"
  by (auto simp: op_unary_def intro!: length_num_vch_520 unary_num_bound dest: vch_num_bound
      split: list.splits option.splits)

lemma op_binary_ok: "op_binary opcode s = Some s' \<Longrightarrow> vals_ok s \<Longrightarrow> vals_ok s'"
  by (auto simp: op_binary_def Let_def intro!: length_num_vch_520 binary_num_bound dest: vch_num_bound
      split: list.splits option.splits if_splits)

definition state_ok :: "eval_state \<Rightarrow> bool" where
  "state_ok st \<longleftrightarrow> vals_ok (es_stack st) \<and> vals_ok (es_alt st)
     \<and> length (es_stack st) + length (es_alt st) \<le> 1000 \<and> es_ops st \<le> 201"

lemma on_stack_elim:
  assumes "on_stack f st = Some st'"
  obtains s where "f (es_stack st) = Some s" "st' = st\<lparr>es_stack := s\<rparr>"
  using assms by (auto simp: on_stack_def)

lemma control_ops_same:
  shows "op_if sv fl opcode fExec st = Some st' \<Longrightarrow> es_stack st' \<in> {es_stack st, tl (es_stack st)} \<and> es_alt st' = es_alt st \<and> es_ops st' = es_ops st"
    and "op_else st = Some st' \<Longrightarrow> es_stack st' = es_stack st \<and> es_alt st' = es_alt st \<and> es_ops st' = es_ops st"
    and "op_endif st = Some st' \<Longrightarrow> es_stack st' = es_stack st \<and> es_alt st' = es_alt st \<and> es_ops st' = es_ops st"
    and "op_checklocktimeverify env fl st = Some st' \<Longrightarrow> st' = st"
    and "op_checksequenceverify env fl st = Some st' \<Longrightarrow> st' = st"
  by (auto simp: op_if_def op_else_def op_endif_def op_checklocktimeverify_def op_checksequenceverify_def Let_def
      split: if_splits list.splits option.splits)

definition vals_kept :: "eval_state \<Rightarrow> eval_state \<Rightarrow> bool" where
  "vals_kept st st' \<longleftrightarrow> (state_ok st \<longrightarrow> vals_ok (es_stack st') \<and> vals_ok (es_alt st') \<and> es_ops st' \<le> 201)"

lemma vals_ok_tl: "vals_ok s \<Longrightarrow> vals_ok (tl s)"
  by (cases s) auto

lemma control_ops_kept:
  shows "op_if sv fl opcode fExec st = Some st' \<Longrightarrow> vals_kept st st'"
    and "op_else st = Some st' \<Longrightarrow> vals_kept st st'"
    and "op_endif st = Some st' \<Longrightarrow> vals_kept st st'"
    and "op_checklocktimeverify env fl st = Some st' \<Longrightarrow> vals_kept st st'"
    and "op_checksequenceverify env fl st = Some st' \<Longrightarrow> vals_kept st st'"
    and "op_verify st = Some st' \<Longrightarrow> vals_kept st st'"
    and "op_altstack opcode st = Some st' \<Longrightarrow> vals_kept st st'"
  by (auto simp: vals_kept_def state_ok_def op_verify_def op_altstack_def vals_ok_tl dest!: control_ops_same
      split: list.splits if_splits)

lemma value_ops_kept:
  assumes "on_stack f st = Some st'" "\<And>s. f (es_stack st) = Some s \<Longrightarrow> state_ok st \<Longrightarrow> vals_ok s"
  shows "vals_kept st st'"
  using assms by (auto simp: vals_kept_def state_ok_def elim!: on_stack_elim)

lemma op_checksig_kept: "op_checksig env sv fl opcode st = Some st' \<Longrightarrow> vals_kept st st'"
  by (auto simp: op_checksig_def Let_def vals_kept_def state_ok_def length_bool_vch_520
      split: list.splits if_splits)

lemma op_checkmultisig_kept: "op_checkmultisig env sv opcode st = Some st' \<Longrightarrow> vals_kept st st'"
  by (auto simp: op_checkmultisig_def Let_def vals_kept_def state_ok_def length_bool_vch_520 vals_ok_part
      split: option.splits if_splits)

lemma if_Some_elim:
  assumes "(if c then a else b) = Some x" "a = Some x \<Longrightarrow> P" "b = Some x \<Longrightarrow> P"
  shows P
  using assms by (simp split: if_splits)

lemma vals_kept_simps:
  "vals_kept st st" "vals_kept st (st\<lparr>es_code := c\<rparr>)"
  "length v \<le> 520 \<Longrightarrow> vals_kept st (push_stack v st)"
  by (auto simp: vals_kept_def state_ok_def push_stack_def)

lemma eval_switch_kept:
  assumes "eval_switch env sv fl opcode fExec pc st = Some st'" "hashes_fit env" "opcode < 256"
  shows "vals_kept st st'"
proof -
  have n: "length (num_vch (int opcode - int (OP_1 - 1))) \<le> 520"
    using assms(3) by (intro length_num_vch_520) simp
  have v: "on_stack (stack_op opcode) st = Some st' \<Longrightarrow> vals_kept st st'"
    "on_stack op_size_of st = Some st' \<Longrightarrow> vals_kept st st'"
    "on_stack (op_equal opcode) st = Some st' \<Longrightarrow> vals_kept st st'"
    "on_stack (op_unary opcode) st = Some st' \<Longrightarrow> vals_kept st st'"
    "on_stack (op_binary opcode) st = Some st' \<Longrightarrow> vals_kept st st'"
    "on_stack op_within st = Some st' \<Longrightarrow> vals_kept st st'"
    "on_stack (op_hash env opcode) st = Some st' \<Longrightarrow> vals_kept st st'"
    "on_stack (op_checkaltproof env) st = Some st' \<Longrightarrow> vals_kept st st'"
    using assms(2) by (auto elim!: value_ops_kept simp: state_ok_def
        dest: stack_op_ok value_ops_ok op_unary_ok op_binary_ok)
  show ?thesis
    using assms(1) unfolding eval_switch_def
    by (elim if_Some_elim)
      (use n in \<open>auto simp: vals_kept_simps intro: control_ops_kept op_checksig_kept op_checkmultisig_kept v\<close>)
qed

lemma eval_execute_kept:
  assumes "eval_execute env sv fl opcode vch pc st = Some st'" "hashes_fit env" "opcode < 256" "length vch \<le> 520"
  shows "vals_kept st st'"
  using assms(1) by (rule eval_execute_elim) (use assms(2-) in \<open>auto simp: vals_kept_simps dest: eval_switch_kept\<close>)

lemma eval_step_ok:
  assumes "eval_step env sv fl opcode vch pc st = Some st'" "hashes_fit env" "opcode < 256" "state_ok st"
  shows "state_ok st'"
  using assms eval_execute_kept [of env sv fl opcode vch pc "count_op opcode st" st']
  by (auto simp: eval_step_Some vals_kept_def state_ok_def split: if_splits)

lemma eval_loop_ok:
  "eval_loop env sv fl pc st = Some st' \<Longrightarrow> hashes_fit env \<Longrightarrow> state_ok st \<Longrightarrow> state_ok st'"
proof (induction pc arbitrary: st rule: script_induct)
  case (Read pc opcode vch pc')
  have "opcode < 256"
    using GetOp2_read(1) [OF Read(1)] by (auto simp: op_valid_def split: if_splits)
  with Read show ?case
    by (auto simp: eval_loop_read bind_eq_Some_conv dest: eval_step_ok)
qed (simp_all add: eval_loop_stop)

section \<open>What an accepted script looks like\<close>

definition ops_step :: "eval_state \<Rightarrow> eval_state \<Rightarrow> bool" where
  "ops_step st st' \<longleftrightarrow> es_ops st \<le> es_ops st' \<and> es_ops st' \<le> max 201 (es_ops st)"

lemma ops_step_simps: "ops_step st st" "ops_step st (st\<lparr>es_code := c\<rparr>)" "ops_step st (push_stack v st)"
  by (simp_all add: ops_step_def push_stack_def)

lemma ops_only_grow:
  shows "op_if sv fl opcode fExec st = Some st' \<Longrightarrow> ops_step st st'"
    and "op_else st = Some st' \<Longrightarrow> ops_step st st'"
    and "op_endif st = Some st' \<Longrightarrow> ops_step st st'"
    and "op_checklocktimeverify env fl st = Some st' \<Longrightarrow> ops_step st st'"
    and "op_checksequenceverify env fl st = Some st' \<Longrightarrow> ops_step st st'"
    and "op_verify st = Some st' \<Longrightarrow> ops_step st st'"
    and "op_altstack opcode st = Some st' \<Longrightarrow> ops_step st st'"
    and "op_checksig env sv fl opcode st = Some st' \<Longrightarrow> ops_step st st'"
    and "op_checkmultisig env sv opcode st = Some st' \<Longrightarrow> ops_step st st'"
    and "on_stack f st = Some st' \<Longrightarrow> ops_step st st'"
  by (auto simp: ops_step_def op_verify_def op_altstack_def op_checksig_def op_checkmultisig_def Let_def
      elim!: on_stack_elim dest!: control_ops_same split: list.splits if_splits option.splits)

lemma eval_switch_ops: "eval_switch env sv fl opcode fExec pc st = Some st' \<Longrightarrow> ops_step st st'"
  unfolding eval_switch_def
  by (elim if_Some_elim) (auto simp: ops_step_simps intro: ops_only_grow)

lemma exec_kept:
  shows "op_checklocktimeverify env fl st = Some st' \<Longrightarrow> es_exec st' = es_exec st"
    and "op_checksequenceverify env fl st = Some st' \<Longrightarrow> es_exec st' = es_exec st"
    and "op_verify st = Some st' \<Longrightarrow> es_exec st' = es_exec st"
    and "op_altstack opcode st = Some st' \<Longrightarrow> es_exec st' = es_exec st"
    and "op_checksig env sv fl opcode st = Some st' \<Longrightarrow> es_exec st' = es_exec st"
    and "op_checkmultisig env sv opcode st = Some st' \<Longrightarrow> es_exec st' = es_exec st"
    and "on_stack f st = Some st' \<Longrightarrow> es_exec st' = es_exec st"
  by (auto simp: op_verify_def op_altstack_def op_checksig_def op_checkmultisig_def Let_def
      elim!: on_stack_elim dest!: control_ops_same split: list.splits if_splits option.splits)

lemma eval_switch_exec:
  assumes "eval_switch env sv fl opcode fExec pc st = Some st'"
    "opcode \<noteq> OP_IF" "opcode \<noteq> OP_NOTIF" "opcode \<noteq> OP_ELSE" "opcode \<noteq> OP_ENDIF"
  shows "es_exec st' = es_exec st"
  using assms(1) unfolding eval_switch_def
  apply (simp only: assms(2-) if_False disj_not1 simp_thms)
  by (elim if_Some_elim) (auto simp: push_stack_def intro: exec_kept)

lemma eval_switch_control:
  "opcode = OP_IF \<or> opcode = OP_NOTIF \<Longrightarrow> eval_switch env sv fl opcode fExec pc st = op_if sv fl opcode fExec st"
  "eval_switch env sv fl OP_ELSE fExec pc st = op_else st"
  "eval_switch env sv fl OP_ENDIF fExec pc st = op_endif st"
  by (auto simp: eval_switch_def)

text \<open>The nesting of conditionals after an instruction, and after a list of them.\<close>

definition if_depth1 :: "opcode \<Rightarrow> nat \<Rightarrow> nat option" where
  "if_depth1 opcode n =
     (if opcode = OP_IF \<or> opcode = OP_NOTIF then Some (Suc n)
      else if opcode = OP_ELSE then (if n = 0 then None else Some n)
      else if opcode = OP_ENDIF then (if n = 0 then None else Some (n - 1))
      else Some n)"

fun if_depth :: "(opcode \<times> valtype) list \<Rightarrow> nat \<Rightarrow> nat option" where
  "if_depth [] n = Some n"
| "if_depth ((opcode, vch) # ops) n = Option.bind (if_depth1 opcode n) (if_depth ops)"

definition op_count :: "(opcode \<times> valtype) list \<Rightarrow> nat" where
  "op_count ops = length (filter (\<lambda>x. OP_16 < fst x) ops)"

definition op_allowed :: "opcode \<times> valtype \<Rightarrow> bool" where
  "op_allowed x \<longleftrightarrow>
     \<not> disabled_op (fst x) \<and> fst x \<noteq> OP_VERIF \<and> fst x \<noteq> OP_VERNOTIF \<and> length (snd x) \<le> 520"

lemma op_count_simps [simp]: "op_count [] = 0"
  "op_count ((opcode, vch) # ops) = (if OP_16 < opcode then 1 else 0) + op_count ops"
  by (simp_all add: op_count_def)

lemma eval_switch_verif:
  "eval_switch env sv fl OP_VERIF fExec pc st = None" "eval_switch env sv fl OP_VERNOTIF fExec pc st = None"
  by (simp_all add: eval_switch_def)

lemma eval_execute_verif:
  assumes "eval_execute env sv fl opcode vch pc st = Some st'"
  shows "opcode \<noteq> OP_VERIF" "opcode \<noteq> OP_VERNOTIF"
  using assms by (rule eval_execute_elim; use eval_switch_verif in fastforce)+

lemma eval_step_static:
  assumes "eval_step env sv fl opcode vch pc st = Some st'"
  shows "op_allowed (opcode, vch)" "es_ops st + op_count [(opcode, vch)] \<le> es_ops st'"
proof -
  have e: "eval_execute env sv fl opcode vch pc (count_op opcode st) = Some st'"
    using assms by (simp add: eval_step_Some)
  show "op_allowed (opcode, vch)"
    using assms eval_execute_verif [OF e] by (simp add: eval_step_Some op_allowed_def)
  show "es_ops st + op_count [(opcode, vch)] \<le> es_ops st'"
    using e by (rule eval_execute_elim) (auto simp: push_stack_def ops_step_def dest: eval_switch_ops)
qed

lemma eval_step_ops_le:
  assumes "eval_step env sv fl opcode vch pc st = Some st'" "es_ops st \<le> 201"
  shows "es_ops st' \<le> 201"
proof -
  have e: "eval_execute env sv fl opcode vch pc (count_op opcode st) = Some st'" "OP_16 < opcode \<longrightarrow> es_ops st < 201"
    using assms(1) by (simp_all add: eval_step_Some)
  have le: "es_ops (count_op opcode st) \<le> 201"
    using e(2) assms(2) by auto
  from e(1) show ?thesis
    by (rule eval_execute_elim) (use le in \<open>auto simp: push_stack_def ops_step_def dest: eval_switch_ops\<close>)
qed

lemma op_control_exec:
  shows "op_if sv fl opcode fExec st = Some st' \<Longrightarrow> \<exists>b. es_exec st' = b # es_exec st"
    and "op_else st = Some st' \<Longrightarrow> \<exists>b fs. es_exec st = b # fs \<and> es_exec st' = (\<not> b) # fs"
    and "op_endif st = Some st' \<Longrightarrow> \<exists>b. es_exec st = b # es_exec st'"
  by (auto simp: op_if_def op_else_def op_endif_def Let_def split: if_splits list.splits)

lemma eval_switch_depth:
  assumes "eval_switch env sv fl opcode fExec pc st = Some st'"
  shows "if_depth1 opcode (length (es_exec st)) = Some (length (es_exec st'))"
proof -
  consider "opcode = OP_IF \<or> opcode = OP_NOTIF" | "opcode = OP_ELSE" | "opcode = OP_ENDIF"
    | "opcode \<noteq> OP_IF" "opcode \<noteq> OP_NOTIF" "opcode \<noteq> OP_ELSE" "opcode \<noteq> OP_ENDIF"
    by blast
  then show ?thesis
  proof cases
    case 4
    then show ?thesis
      using eval_switch_exec [OF assms] by (simp add: if_depth1_def)
  qed (use assms in \<open>auto simp: if_depth1_def eval_switch_control dest!: op_control_exec\<close>)
qed

lemma eval_step_depth:
  assumes "eval_step env sv fl opcode vch pc st = Some st'"
  shows "if_depth1 opcode (length (es_exec st)) = Some (length (es_exec st'))"
proof -
  have "eval_execute env sv fl opcode vch pc (count_op opcode st) = Some st'"
    using assms by (simp add: eval_step_Some)
  then show ?thesis
    by (rule eval_execute_elim) (auto simp: push_stack_def if_depth1_def dest: eval_switch_depth)
qed

lemma eval_loop_ops: "eval_loop env sv fl pc st = Some st' \<Longrightarrow> es_ops st \<le> 201 \<Longrightarrow> es_ops st' \<le> 201"
proof (induction pc arbitrary: st rule: script_induct)
  case (Read pc opcode vch pc')
  then show ?case
    by (auto simp: eval_loop_read [OF Read(1)] bind_eq_Some_conv dest: eval_step_ops_le)
qed (auto simp: eval_loop_stop)

lemma eval_loop_static:
  "eval_loop env sv fl pc st = Some st' \<Longrightarrow>
     fst (script_ops pc) \<and> list_all op_allowed (snd (script_ops pc))
     \<and> es_ops st + op_count (snd (script_ops pc)) \<le> es_ops st'
     \<and> if_depth (snd (script_ops pc)) (length (es_exec st)) = Some (length (es_exec st'))"
proof (induction pc arbitrary: st rule: script_induct)
  case (Read pc opcode vch pc')
  from Read(3) obtain st1 where st1: "eval_step env sv fl opcode vch pc' st = Some st1"
    "eval_loop env sv fl pc' st1 = Some st'"
    by (auto simp: eval_loop_read [OF Read(1)] bind_eq_Some_conv)
  then show ?case
    using Read(2) [OF st1(2)] eval_step_static [OF st1(1)] eval_step_depth [OF st1(1)]
    by (auto simp: script_ops_read [OF Read(1)])
qed (simp_all add: eval_loop_stop)

section \<open>Code one after the other\<close>

lemma eval_step_pc:
  assumes "opcode \<noteq> OP_CODESEPARATOR"
  shows "eval_step env sv fl opcode vch pc st = eval_step env sv fl opcode vch pc' st"
proof -
  have "eval_switch env sv fl opcode fExec pc st1 = eval_switch env sv fl opcode fExec pc' st1" for fExec st1
    using assms unfolding eval_switch_def by (simp only: if_False)
  then show ?thesis
    by (simp only: eval_step_def eval_execute_def)
qed

definition no_separator :: "script \<Rightarrow> bool" where
  "no_separator s \<longleftrightarrow> list_all (\<lambda>x. fst x \<noteq> OP_CODESEPARATOR) (snd (script_ops s))"

lemma eval_loop_append:
  "fst (script_ops a) \<Longrightarrow> no_separator a \<Longrightarrow>
    eval_loop env sv fl (a @ r) st = Option.bind (eval_loop env sv fl a st) (eval_loop env sv fl r)"
proof (induction a arbitrary: st rule: script_induct)
  case (Read pc opcode vch pc')
  have sep: "opcode \<noteq> OP_CODESEPARATOR" "fst (script_ops pc')" "no_separator pc'"
    using Read(3,4) by (simp_all add: script_ops_read [OF Read(1)] no_separator_def)
  have "eval_loop env sv fl (pc @ r) st =
      Option.bind (eval_step env sv fl opcode vch pc' st) (eval_loop env sv fl (pc' @ r))"
    using eval_loop_read [OF GetOp2_append [OF Read(1)], of env sv fl r st] eval_step_pc [OF sep(1)] by metis
  then show ?case
    using Read(2) [OF sep(2,3)] by (simp add: eval_loop_read [OF Read(1)] bind_assoc cong: bind_option_cong)
qed (simp_all add: script_ops_stop)

section \<open>Branches that are not taken\<close>

lemma eval_execute_skip:
  assumes "es_exec st = e @ False # fs" "if_depth1 opcode (length e) = Some m" "op_allowed (opcode, vch)"
  obtains e' where "eval_execute env sv fl opcode vch pc st = Some (st\<lparr>es_exec := e' @ False # fs\<rparr>)" "length e' = m"
proof -
  have off: "\<not> list_all id (es_exec st)"
    by (simp add: assms(1))
  have "opcode \<noteq> 101" "opcode \<noteq> 102"
    using assms(3) by (simp_all add: op_allowed_def)
  then consider "opcode = OP_IF \<or> opcode = OP_NOTIF" | "opcode = OP_ELSE" | "opcode = OP_ENDIF"
    | "\<not> (OP_IF \<le> opcode \<and> opcode \<le> OP_ENDIF)"
    by linarith
  then show thesis
  proof cases
    case 1
    then show thesis
      using that [of "False # e"] assms off
      by (auto simp: eval_execute_def eval_switch_control op_if_def if_depth1_def)
  next
    case 2
    then show thesis
      using that [of "(\<not> hd e) # tl e"] assms off
      by (cases e) (auto simp: eval_execute_def eval_switch_control op_else_def if_depth1_def)
  next
    case 3
    then show thesis
      using that [of "tl e"] assms off
      by (cases e) (auto simp: eval_execute_def eval_switch_control op_endif_def if_depth1_def)
  next
    case 4
    then have "eval_execute env sv fl opcode vch pc st = Some st"
      using off by (simp only: eval_execute_def Let_def simp_thms if_False)
    then show thesis
      using that [of e] assms 4 by (auto simp: if_depth1_def)
  qed
qed

lemma eval_step_skip:
  assumes "es_exec st = e @ False # fs" "if_depth1 opcode (length e) = Some m" "op_allowed (opcode, vch)"
    "es_ops st + op_count [(opcode, vch)] \<le> 201" "length (es_stack st) + length (es_alt st) \<le> 1000"
  obtains e' where "eval_step env sv fl opcode vch pc st =
      Some (st\<lparr>es_ops := es_ops st + op_count [(opcode, vch)], es_exec := e' @ False # fs\<rparr>)" "length e' = m"
proof -
  obtain e' where e': "eval_execute env sv fl opcode vch pc (count_op opcode st) =
      Some ((count_op opcode st)\<lparr>es_exec := e' @ False # fs\<rparr>)" "length e' = m"
    using eval_execute_skip [of "count_op opcode st" e fs opcode m vch env sv fl pc] assms(1-3) by auto
  have "(count_op opcode st)\<lparr>es_exec := e' @ False # fs\<rparr> =
      st\<lparr>es_ops := es_ops st + op_count [(opcode, vch)], es_exec := e' @ False # fs\<rparr>"
    by (simp add: count_op_def)
  with e' show thesis
    using that [of e'] assms(3-) by (auto simp: eval_step_Some op_allowed_def split: if_splits)
qed

lemma eval_loop_skip:
  assumes "fst (script_ops body)" "list_all op_allowed (snd (script_ops body))"
    "if_depth (snd (script_ops body)) (length e) = Some m" "es_exec st = e @ False # fs"
    "es_ops st + op_count (snd (script_ops body)) \<le> 201" "length (es_stack st) + length (es_alt st) \<le> 1000"
  shows "\<exists>e'. length e' = m \<and> eval_loop env sv fl (body @ r) st =
    eval_loop env sv fl r (st\<lparr>es_ops := es_ops st + op_count (snd (script_ops body)), es_exec := e' @ False # fs\<rparr>)"
  using assms
proof (induction body arbitrary: st e rule: script_induct)
  case Nil
  then have same: "st\<lparr>es_exec := e @ False # fs\<rparr> = st"
    by (cases st) simp
  show ?case
    using Nil by (intro exI [of _ e]) (simp add: same)
next
  case (Stop pc x)
  then show ?case by (simp add: script_ops_stop)
next
  case (Read pc opcode vch pc')
  note ops = script_ops_read [OF Read(1)]
  obtain n where n: "if_depth1 opcode (length e) = Some n" "if_depth (snd (script_ops pc')) n = Some m"
    using Read.prems(3) by (auto simp: ops bind_eq_Some_conv)
  obtain e1 where e1: "eval_step env sv fl opcode vch (pc' @ r) st =
      Some (st\<lparr>es_ops := es_ops st + op_count [(opcode, vch)], es_exec := e1 @ False # fs\<rparr>)" "length e1 = n"
    using eval_step_skip [OF Read.prems(4) n(1), of vch env sv fl "pc' @ r"] Read.prems(2,5,6) by (auto simp: ops)
  obtain e2 where "length e2 = m" "eval_loop env sv fl (pc' @ r)
        (st\<lparr>es_ops := es_ops st + op_count [(opcode, vch)], es_exec := e1 @ False # fs\<rparr>) =
      eval_loop env sv fl r (st\<lparr>es_ops := es_ops st + op_count [(opcode, vch)] + op_count (snd (script_ops pc')),
        es_exec := e2 @ False # fs\<rparr>)"
    using Read.IH [of e1 "st\<lparr>es_ops := es_ops st + op_count [(opcode, vch)], es_exec := e1 @ False # fs\<rparr>"]
      Read.prems n e1(2) by (auto simp: ops add.assoc)
  then show ?case
    using e1(1) eval_loop_read [OF GetOp2_append [OF Read(1)], of env sv fl r st]
    by (intro exI [of _ e2]) (simp add: ops add.assoc)
qed

section \<open>Conditionals\<close>

lemma eval_step_suffix:
  assumes "eval_step env sv fl opcode vch pc st = Some st'" "es_exec st = e @ fs" "if_depth1 opcode (length e) = Some m"
  shows "\<exists>e'. es_exec st' = e' @ fs \<and> length e' = m"
proof -
  have "eval_execute env sv fl opcode vch pc (count_op opcode st) = Some st'"
    using assms(1) by (simp add: eval_step_Some)
  then have x: "opcode = OP_IF \<or> opcode = OP_NOTIF \<Longrightarrow> \<exists>b. es_exec st' = b # es_exec st"
    "opcode = OP_ELSE \<Longrightarrow> \<exists>b fs. es_exec st = b # fs \<and> es_exec st' = (\<not> b) # fs"
    "opcode = OP_ENDIF \<Longrightarrow> \<exists>b. es_exec st = b # es_exec st'"
    "\<not> (opcode = OP_IF \<or> opcode = OP_NOTIF \<or> opcode = OP_ELSE \<or> opcode = OP_ENDIF) \<Longrightarrow> es_exec st' = es_exec st"
    by (elim eval_execute_elim; auto simp: push_stack_def eval_switch_control dest!: op_control_exec dest: eval_switch_exec)+
  consider "opcode = OP_IF \<or> opcode = OP_NOTIF" | "opcode = OP_ELSE" | "opcode = OP_ENDIF"
    | "\<not> (opcode = OP_IF \<or> opcode = OP_NOTIF \<or> opcode = OP_ELSE \<or> opcode = OP_ENDIF)"
    by blast
  then show ?thesis
  proof cases
    case 1
    then obtain b where "es_exec st' = b # e @ fs"
      using x(1) assms(2) by auto
    then show ?thesis
      using 1 assms(3) by (intro exI [of _ "b # e"]) (auto simp: if_depth1_def)
  next
    case 2
    then obtain b r where "e = b # r"
      using assms(3) by (cases e) (simp_all add: if_depth1_def)
    then show ?thesis
      using 2 x(2) assms(2,3) by (intro exI [of _ "(\<not> b) # r"]) (auto simp: if_depth1_def)
  next
    case 3
    then obtain b r where "e = b # r"
      using assms(3) by (cases e) (simp_all add: if_depth1_def)
    then show ?thesis
      using 3 x(3) assms(2,3) by (intro exI [of _ r]) (auto simp: if_depth1_def)
  next
    case 4
    then show ?thesis
      using x(4) assms(2,3) by (intro exI [of _ e]) (simp add: if_depth1_def)
  qed
qed

lemma eval_loop_suffix:
  "eval_loop env sv fl pc st = Some st' \<Longrightarrow> es_exec st = e @ fs \<Longrightarrow> if_depth (snd (script_ops pc)) (length e) = Some m \<Longrightarrow>
    \<exists>e'. es_exec st' = e' @ fs \<and> length e' = m"
proof (induction pc arbitrary: st e rule: script_induct)
  case (Read pc opcode vch pc')
  from Read.prems obtain st1 n where s: "eval_step env sv fl opcode vch pc' st = Some st1"
    "eval_loop env sv fl pc' st1 = Some st'" "if_depth1 opcode (length e) = Some n"
    "if_depth (snd (script_ops pc')) n = Some m"
    by (auto simp: eval_loop_read [OF Read(1)] script_ops_read [OF Read(1)] bind_eq_Some_conv)
  obtain e1 where "es_exec st1 = e1 @ fs" "length e1 = n"
    using eval_step_suffix [OF s(1) Read.prems(2) s(3)] by auto
  then show ?case
    using Read.IH [OF s(2), of e1] s(4) by simp
qed (auto simp: eval_loop_stop)

lemma eval_loop_sizes:
  "eval_loop env sv fl pc st = Some st' \<Longrightarrow> length (es_stack st) + length (es_alt st) \<le> 1000 \<Longrightarrow>
    length (es_stack st') + length (es_alt st') \<le> 1000"
proof (induction pc arbitrary: st rule: script_induct)
  case (Read pc opcode vch pc')
  then show ?case
    by (auto simp: eval_loop_read [OF Read(1)] bind_eq_Some_conv eval_step_Some)
qed (auto simp: eval_loop_stop)

text \<open>Code that may stand in a branch of a conditional.\<close>

definition branch_code :: "script \<Rightarrow> bool" where
  "branch_code s \<longleftrightarrow> fst (script_ops s) \<and> list_all op_allowed (snd (script_ops s))
     \<and> if_depth (snd (script_ops s)) 0 = Some 0 \<and> no_separator s"

lemma eval_step_control:
  assumes "length (es_stack st) + length (es_alt st) \<le> 1000" "es_ops st < 201"
  shows "list_all id (es_exec st) \<Longrightarrow> es_stack st = v # s \<Longrightarrow> sv = SIGVERSION_BASE \<Longrightarrow> eval_step env sv fl OP_IF [] pc st =
      Some (st\<lparr>es_stack := s, es_exec := CastToBool v # es_exec st, es_ops := es_ops st + 1\<rparr>)"
    and "es_exec st \<noteq> [] \<Longrightarrow> eval_step env sv fl OP_ELSE [] pc st =
      Some (st\<lparr>es_exec := (\<not> hd (es_exec st)) # tl (es_exec st), es_ops := es_ops st + 1\<rparr>)"
    and "es_exec st \<noteq> [] \<Longrightarrow> eval_step env sv fl OP_ENDIF [] pc st =
      Some (st\<lparr>es_exec := tl (es_exec st), es_ops := es_ops st + 1\<rparr>)"
  using assms
  by (auto simp: neq_Nil_conv eval_step_Some eval_execute_def eval_switch_control op_if_def op_else_def op_endif_def
      disabled_op_def count_op_def)

abbreviation if_else :: "script \<Rightarrow> script \<Rightarrow> script" where
  "if_else a b \<equiv> put_op OP_IF @ a @ put_op OP_ELSE @ b @ put_op OP_ENDIF"

lemma if_taken:
  assumes "branch_code a" "branch_code b" "list_all id (es_exec st)" "es_stack st = v # s" "CastToBool v"
    "length (es_stack st) + length (es_alt st) \<le> 1000" "es_ops st < 201"
    "eval_loop env SIGVERSION_BASE fl a (st\<lparr>es_stack := s, es_exec := True # es_exec st, es_ops := es_ops st + 1\<rparr>) = Some st1"
    "es_ops st1 + op_count (snd (script_ops b)) + 2 \<le> 201"
  shows "eval_loop env SIGVERSION_BASE fl (if_else a b @ r) st =
    eval_loop env SIGVERSION_BASE fl r
      (st1\<lparr>es_exec := es_exec st, es_ops := es_ops st1 + op_count (snd (script_ops b)) + 2\<rparr>)"
proof -
  let ?L = "eval_loop env SIGVERSION_BASE fl"
  have x1: "es_exec st1 = True # es_exec st"
    using eval_loop_suffix [OF assms(8), of "[]" "True # es_exec st"] assms(1) by (simp add: branch_code_def)
  have sz: "length (es_stack st1) + length (es_alt st1) \<le> 1000"
    using eval_loop_sizes [OF assms(8)] assms(4,6) by simp
  define st2 where "st2 = st1\<lparr>es_exec := False # es_exec st, es_ops := es_ops st1 + 1\<rparr>"
  have skip: "?L (b @ put_op OP_ENDIF @ r) st2 = ?L (put_op OP_ENDIF @ r)
      (st2\<lparr>es_ops := es_ops st2 + op_count (snd (script_ops b)), es_exec := False # es_exec st\<rparr>)"
    using eval_loop_skip [of b "[]" 0 st2 "es_exec st" env SIGVERSION_BASE fl "put_op OP_ENDIF @ r"]
      assms(2,9) sz by (auto simp: branch_code_def st2_def)
  have "?L (if_else a b @ r) st = ?L (put_op OP_ELSE @ b @ put_op OP_ENDIF @ r) st1"
    using assms eval_step_control(1) [OF assms(6,7,3,4)]
    by (simp add: eval_loop_op eval_loop_append branch_code_def)
  also have "\<dots> = ?L (b @ put_op OP_ENDIF @ r) st2"
    using eval_step_control(2) [OF sz] x1 assms(9) by (simp add: eval_loop_op st2_def)
  also have "\<dots> = ?L r (st1\<lparr>es_exec := es_exec st, es_ops := es_ops st1 + op_count (snd (script_ops b)) + 2\<rparr>)"
    unfolding skip using sz assms(9) by (simp add: eval_loop_op eval_step_control(3) st2_def)
  finally show ?thesis .
qed

lemma if_not_taken:
  assumes "branch_code a" "branch_code b" "list_all id (es_exec st)" "es_stack st = v # s" "\<not> CastToBool v"
    "length (es_stack st) + length (es_alt st) \<le> 1000" "es_ops st + op_count (snd (script_ops a)) + 2 \<le> 201"
    "eval_loop env SIGVERSION_BASE fl b (st\<lparr>es_stack := s, es_exec := True # es_exec st,
       es_ops := es_ops st + op_count (snd (script_ops a)) + 2\<rparr>) = Some st1"
    "es_ops st1 < 201"
  shows "eval_loop env SIGVERSION_BASE fl (if_else a b @ r) st =
    eval_loop env SIGVERSION_BASE fl r (st1\<lparr>es_exec := es_exec st, es_ops := es_ops st1 + 1\<rparr>)"
proof -
  let ?L = "eval_loop env SIGVERSION_BASE fl"
  define st2 where "st2 = st\<lparr>es_stack := s, es_exec := False # es_exec st, es_ops := es_ops st + 1\<rparr>"
  have sz2: "length (es_stack st2) + length (es_alt st2) \<le> 1000"
    using assms(4,6) by (simp add: st2_def)
  have ops: "es_ops st < 201"
    using assms(7) by simp
  have skip: "?L (a @ put_op OP_ELSE @ b @ put_op OP_ENDIF @ r) st2 = ?L (put_op OP_ELSE @ b @ put_op OP_ENDIF @ r)
      (st2\<lparr>es_ops := es_ops st2 + op_count (snd (script_ops a)), es_exec := False # es_exec st\<rparr>)"
    using eval_loop_skip [of a "[]" 0 st2 "es_exec st" env SIGVERSION_BASE fl] assms(1,7) sz2
    by (auto simp: branch_code_def st2_def)
  have x1: "es_exec st1 = True # es_exec st"
    using eval_loop_suffix [OF assms(8), of "[]" "True # es_exec st"] assms(2) by (simp add: branch_code_def)
  have sz: "length (es_stack st1) + length (es_alt st1) \<le> 1000"
    using eval_loop_sizes [OF assms(8)] assms(4,6) by simp
  have "?L (if_else a b @ r) st = ?L (a @ put_op OP_ELSE @ b @ put_op OP_ENDIF @ r) st2"
    using assms(5) eval_step_control(1) [OF assms(6) ops assms(3,4)] by (simp add: eval_loop_op st2_def)
  also have "\<dots> = ?L (put_op OP_ENDIF @ r) st1"
    unfolding skip using assms(2,4,6,7,8)
    by (simp add: eval_loop_op eval_step_control(2) eval_loop_append branch_code_def st2_def)
  also have "\<dots> = ?L r (st1\<lparr>es_exec := es_exec st, es_ops := es_ops st1 + 1\<rparr>)"
    using sz assms(9) x1 by (simp add: eval_loop_op eval_step_control(3))
  finally show ?thesis .
qed

end
