(* ===== verification/Script_Standard.thy ===== *)
theory Script_Standard
  imports Script_Run "HOL-Library.Sublist"
begin

text \<open>
  Runs of the interpreter on the standard scripts: pushes of data, payment to the hash of a
  public key and payment to m of n public keys, with the result of each run on every stack
  that fits the limits.
\<close>

section \<open>Runs over pushes\<close>

definition push_list :: "valtype list \<Rightarrow> script" where
  "push_list vs = concat (map put_vch vs)"

lemma push_list_simps [simp]: "push_list [] = []" "push_list (v # vs) = put_vch v @ push_list vs"
  by (simp_all add: push_list_def)

lemma eval_push_list:
  assumes "list_all id (es_exec st)" "vals_ok vs" "length (es_stack st) + length (es_alt st) + length vs \<le> 1000"
  shows "eval_loop env sv fl (push_list vs @ r) st = eval_loop env sv fl r (st\<lparr>es_stack := rev vs @ es_stack st\<rparr>)"
  using assms
  by (induction vs arbitrary: st) (simp_all add: eval_loop_put_vch eval_step_push push_stack_def)

section \<open>Steps of the operations that standard scripts use\<close>

lemma eval_switch_ops_used:
  "eval_switch env sv fl OP_DUP e pc st = on_stack (stack_op OP_DUP) st"
  "eval_switch env sv fl OP_HASH160 e pc st = on_stack (op_hash env OP_HASH160) st"
  "eval_switch env sv fl OP_EQUALVERIFY e pc st = on_stack (op_equal OP_EQUALVERIFY) st"
  "eval_switch env sv fl OP_EQUAL e pc st = on_stack (op_equal OP_EQUAL) st"
  "eval_switch env sv fl OP_CHECKSIG e pc st = op_checksig env sv fl OP_CHECKSIG st"
  "eval_switch env sv fl OP_CHECKMULTISIG e pc st = op_checkmultisig env sv OP_CHECKMULTISIG st"
  by (simp_all add: eval_switch_def)

lemma eval_loop_op_switch:
  assumes "list_all id (es_exec st)" "OP_16 < opcode" "opcode < 256" "es_ops st < 201" "\<not> disabled_op opcode"
  shows "eval_loop env sv fl (put_op opcode @ r) st =
    (case eval_switch env sv fl opcode True r (st\<lparr>es_ops := es_ops st + 1\<rparr>) of
       None \<Rightarrow> None
     | Some st' \<Rightarrow> if length (es_stack st') + length (es_alt st') > 1000 then None else eval_loop env sv fl r st')"
  using assms by (simp add: eval_loop_op eval_step_def eval_execute_def count_op_def split: option.splits)

definition low_s_ok :: "script_env \<Rightarrow> nat \<Rightarrow> nat \<Rightarrow> valtype \<Rightarrow> bool" where
  "low_s_ok env sv fl sig \<longleftrightarrow>
     (sv \<noteq> 14 \<and> flag_set fl SCRIPT_VERIFY_LOW_S \<longrightarrow> sig \<noteq> [] \<and> CheckLowS env (butlast sig))"

definition sign_code :: "nat \<Rightarrow> valtype \<Rightarrow> script \<Rightarrow> script" where
  "sign_code sv sig code = (if sv = SIGVERSION_BASE then snd (FindAndDelete (put_vch sig) code) else code)"

lemma op_checksig_eq:
  "es_stack st = key # sig # s \<Longrightarrow> op_checksig env sv fl OP_CHECKSIG st =
     (if low_s_ok env sv fl sig
      then Some (st\<lparr>es_stack := bool_vch (e_checksig env sig key (sign_code sv sig (es_code st)) sv) # s\<rparr>)
      else None)"
  by (auto simp: op_checksig_def low_s_ok_def sign_code_def Let_def)

lemma eval_loop_used:
  assumes "list_all id e" "n < 201" "length s + length a < 999"
  shows "eval_loop env sv fl (put_op OP_DUP @ r) \<lparr>es_stack = x # s, es_alt = a, es_exec = e, es_ops = n, es_code = c\<rparr> =
      eval_loop env sv fl r \<lparr>es_stack = x # x # s, es_alt = a, es_exec = e, es_ops = Suc n, es_code = c\<rparr>"
    and "eval_loop env sv fl (put_op OP_HASH160 @ r) \<lparr>es_stack = x # s, es_alt = a, es_exec = e, es_ops = n, es_code = c\<rparr> =
      eval_loop env sv fl r \<lparr>es_stack = e_hash160 env x # s, es_alt = a, es_exec = e, es_ops = Suc n, es_code = c\<rparr>"
    and "eval_loop env sv fl (put_op OP_EQUALVERIFY @ r) \<lparr>es_stack = x # y # s, es_alt = a, es_exec = e, es_ops = n, es_code = c\<rparr> =
      (if y = x then eval_loop env sv fl r \<lparr>es_stack = s, es_alt = a, es_exec = e, es_ops = Suc n, es_code = c\<rparr> else None)"
    and "eval_loop env sv fl (put_op OP_EQUAL @ r) \<lparr>es_stack = x # y # s, es_alt = a, es_exec = e, es_ops = n, es_code = c\<rparr> =
      eval_loop env sv fl r \<lparr>es_stack = bool_vch (y = x) # s, es_alt = a, es_exec = e, es_ops = Suc n, es_code = c\<rparr>"
    and "eval_loop env sv fl (put_op OP_CHECKSIG @ r) \<lparr>es_stack = x # y # s, es_alt = a, es_exec = e, es_ops = n, es_code = c\<rparr> =
      (if low_s_ok env sv fl y
       then eval_loop env sv fl r \<lparr>es_stack = bool_vch (e_checksig env y x (sign_code sv y c) sv) # s, es_alt = a,
         es_exec = e, es_ops = Suc n, es_code = c\<rparr>
       else None)"
  using assms
  by (simp_all add: eval_loop_op_switch eval_switch_ops_used on_stack_def stack_op_def op_hash_def op_equal_def
      op_checksig_eq disabled_op_def)

lemma eval_loop_push:
  "list_all id e \<Longrightarrow> length s + length a < 1000 \<Longrightarrow> length v \<le> 520 \<Longrightarrow>
    eval_loop env sv fl (put_vch v @ r) \<lparr>es_stack = s, es_alt = a, es_exec = e, es_ops = n, es_code = c\<rparr> =
      eval_loop env sv fl r \<lparr>es_stack = v # s, es_alt = a, es_exec = e, es_ops = n, es_code = c\<rparr>"
  by (simp add: eval_loop_put_vch eval_step_push push_stack_def)

lemma eval_step_small:
  assumes "list_all id (es_exec st)" "1 \<le> n" "n \<le> 16" "length (es_stack st) + length (es_alt st) < 1000"
  shows "eval_step env sv fl (OP_1 + n - 1) [] pc st = Some (push_stack (num_vch (int n)) st)"
proof -
  have "\<not> disabled_op (80 + n)"
    using assms(3) by (auto simp: disabled_op_def)
  then show ?thesis
    using assms by (simp add: eval_step_Some eval_execute_def count_op_def push_stack_def eval_switch_def)
qed

section \<open>Pay to public key hash\<close>

definition p2pkh :: "valtype \<Rightarrow> script" where
  "p2pkh h = put_op OP_DUP @ put_op OP_HASH160 @ put_vch h @ put_op OP_EQUALVERIFY @ put_op OP_CHECKSIG"

lemma length_put_vch: "length b \<le> 520 \<Longrightarrow> length (put_vch b) \<le> length b + 3"
  by (auto simp: put_vch_def)

lemma p2pkh_run:
  assumes "length h = 20" "length s \<le> 996"
  shows "EvalScript env sv fl (p2pkh h) (key # sig # s) =
    (if e_hash160 env key = h \<and> low_s_ok env sv fl sig
     then Some (bool_vch (e_checksig env sig key (sign_code sv sig (p2pkh h)) sv) # s) else None)"
proof -
  have len: "\<not> 10000 < length (p2pkh h)"
    using assms(1) length_put_vch [of h] by (simp add: p2pkh_def put_op_def)
  have code: "p2pkh h = put_op OP_DUP @ put_op OP_HASH160 @ put_vch h @ put_op OP_EQUALVERIFY @ put_op OP_CHECKSIG @ []"
    by (simp add: p2pkh_def)
  have run: "eval_loop env sv fl (put_op OP_DUP @ put_op OP_HASH160 @ put_vch h @ put_op OP_EQUALVERIFY @ put_op OP_CHECKSIG @ [])
      \<lparr>es_stack = key # sig # s, es_alt = [], es_exec = [], es_ops = 0, es_code = c\<rparr> =
    (if e_hash160 env key = h \<and> low_s_ok env sv fl sig
     then Some \<lparr>es_stack = bool_vch (e_checksig env sig key (sign_code sv sig c) sv) # s, es_alt = [], es_exec = [],
       es_ops = 4, es_code = c\<rparr>
     else None)" for c
    using assms by (simp add: eval_loop_used eval_loop_push del: append_Nil2)
  show ?thesis
    using run [of "p2pkh h"] unfolding code [symmetric] by (simp add: len EvalScript_def)
qed

section \<open>Multiple signatures\<close>

lemma multisig_loop_subseq:
  "multisig_loop chk sigs keys \<longleftrightarrow> (\<exists>ks. subseq ks keys \<and> list_all2 chk sigs ks)"
proof (induction chk sigs keys rule: multisig_loop.induct)
  case (1 chk keys)
  then show ?case by (auto intro: exI [of _ "[]"])
next
  case (2 chk s sigs)
  then show ?case by (auto simp: list_all2_Cons1)
next
  case (3 chk s sigs k keys)
  let ?left = "if chk s k then sigs else s # sigs"
  have short: "length xs \<le> length keys" if "subseq ks keys" "list_all2 chk xs ks" for xs ks
    using that by (metis list_all2_lengthD list_emb_length)
  have "multisig_loop chk (s # sigs) (k # keys) \<longleftrightarrow> (\<exists>ks. subseq ks keys \<and> list_all2 chk ?left ks)"
    using 3 [OF refl] short [of _ ?left] by (auto simp: Let_def not_less)
  also have "\<dots> \<longleftrightarrow> (\<exists>ks. subseq ks (k # keys) \<and> list_all2 chk (s # sigs) ks)"
  proof (cases "chk s k")
    case True
    show ?thesis
    proof
      assume "\<exists>ks. subseq ks keys \<and> list_all2 chk ?left ks"
      then obtain ks where "subseq ks keys" "list_all2 chk sigs ks"
        using True by auto
      then show "\<exists>ks. subseq ks (k # keys) \<and> list_all2 chk (s # sigs) ks"
        using True by (intro exI [of _ "k # ks"]) simp
    next
      assume "\<exists>ks. subseq ks (k # keys) \<and> list_all2 chk (s # sigs) ks"
      then obtain k1 ks where "subseq (k1 # ks) (k # keys)" "list_all2 chk sigs ks"
        by (auto simp: list_all2_Cons1)
      then have "subseq ks keys"
        by (cases "k1 = k") (auto dest: subseq_Cons')
      with True show "\<exists>ks. subseq ks keys \<and> list_all2 chk ?left ks"
        using \<open>list_all2 chk sigs ks\<close> by auto
    qed
  next
    case False
    have "\<exists>ks. subseq ks keys \<and> list_all2 chk (s # sigs) ks"
      if "subseq ks (k # keys)" "list_all2 chk (s # sigs) ks" for ks
    proof -
      from that(2) obtain z zs where z: "ks = z # zs" "chk s z"
        by (auto simp: list_all2_Cons1)
      then have "z \<noteq> k"
        using False by auto
      with that z show ?thesis by auto
    qed
    moreover have "subseq ks keys \<Longrightarrow> subseq ks (k # keys)" for ks
      by (rule list_emb_Cons)
    ultimately show ?thesis
      using False by (simp only: if_False) blast
  qed
  finally show ?case .
qed

lemma subseq_rev1: "subseq xs ys \<Longrightarrow> subseq (rev xs) (rev ys)"
  by (induction rule: list_emb.induct) (auto intro: list_emb_append2 list_emb_append_mono)

lemma multisig_loop_rev:
  "multisig_loop chk (rev sigs) (rev keys) \<longleftrightarrow> (\<exists>ks. subseq ks keys \<and> list_all2 chk sigs ks)"
proof -
  have "(\<exists>ks. subseq ks (rev keys) \<and> list_all2 chk (rev sigs) ks) \<longleftrightarrow> (\<exists>ks. subseq ks keys \<and> list_all2 chk sigs ks)"
    by (metis list_all2_rev rev_rev_ident subseq_rev1)
  then show ?thesis
    by (simp add: multisig_loop_subseq)
qed

lemma CastToBigNum_small: "n \<le> 127 \<Longrightarrow> CastToBigNum (num_vch (int n)) = Some (bn_of_int (int n))"
  using length_serialize [of "int n" 0] by (simp add: CastToBigNum_eq num_vch_serialize set_vch_serialize)

lemma bn_getint_small: "n \<le> 127 \<Longrightarrow> bn_getint (bn_of_int (int n)) = int n"
  by (simp add: bn_getint_def bn_of_int_def)

definition sign_code_all :: "nat \<Rightarrow> valtype list \<Rightarrow> script \<Rightarrow> script" where
  "sign_code_all sv sigs code =
     (if sv = SIGVERSION_BASE then fold (\<lambda>sig code. snd (FindAndDelete (put_vch sig) code)) sigs code else code)"

lemma op_checkmultisig_eq:
  assumes "es_stack st = num_vch (int (length keys)) # keys @ num_vch (int (length sigs)) # sigs @ dummy # s"
    "length sigs \<le> length keys" "length keys \<le> 20" "es_ops st + length keys \<le> 201"
  shows "op_checkmultisig env sv OP_CHECKMULTISIG st =
    Some (st\<lparr>es_ops := es_ops st + length keys,
      es_stack := bool_vch (multisig_loop (\<lambda>sig key. e_checksig env sig key (sign_code_all sv sigs (es_code st)) sv) sigs keys) # s\<rparr>)"
proof -
  have "drop (3 + length keys + length sigs) (es_stack st) =
      drop (3 + length keys + length sigs)
        ((num_vch (int (length keys)) # keys @ num_vch (int (length sigs)) # sigs @ [dummy]) @ s)"
    by (simp add: assms(1))
  then have "drop (3 + length keys + length sigs) (es_stack st) = s"
    by (simp only: drop_append) simp
  then show ?thesis
    using assms
    by (simp add: op_checkmultisig_def CastToBigNum_small bn_getint_small Let_def nth_append sign_code_all_def)
qed

definition small_op :: "nat \<Rightarrow> script" where
  "small_op n = put_op (OP_1 + n - 1)"

definition multisig :: "nat \<Rightarrow> valtype list \<Rightarrow> script" where
  "multisig m keys = small_op m @ push_list keys @ small_op (length keys) @ put_op OP_CHECKMULTISIG"

lemma eval_loop_small_op:
  "list_all id e \<Longrightarrow> length s + length a < 1000 \<Longrightarrow> 1 \<le> m \<Longrightarrow> m \<le> 16 \<Longrightarrow>
    eval_loop env sv fl (small_op m @ r) \<lparr>es_stack = s, es_alt = a, es_exec = e, es_ops = n, es_code = c\<rparr> =
      eval_loop env sv fl r \<lparr>es_stack = num_vch (int m) # s, es_alt = a, es_exec = e, es_ops = n, es_code = c\<rparr>"
  unfolding small_op_def using eval_step_small [of "\<lparr>es_stack = s, es_alt = a, es_exec = e, es_ops = n, es_code = c\<rparr>" m env sv fl r]
  by (simp add: eval_loop_op push_stack_def)

lemma length_push_list: "vals_ok vs \<Longrightarrow> length (push_list vs) \<le> 523 * length vs"
proof (induction vs)
  case (Cons v vs)
  then show ?case
    using length_put_vch [of v] by simp
qed simp

lemma multisig_run:
  assumes "1 \<le> length sigs" "length sigs \<le> length keys" "length keys \<le> 16" "vals_ok keys"
    "length keys + length sigs + length s + 3 \<le> 1000"
  shows "EvalScript env sv fl (multisig (length sigs) keys) (rev sigs @ dummy # s) =
    Some (bool_vch (multisig_loop (\<lambda>sig key. e_checksig env sig key
        (sign_code_all sv (rev sigs) (multisig (length sigs) keys)) sv) (rev sigs) (rev keys)) # s)"
proof -
  let ?n = "length keys" and ?m = "length sigs" and ?c = "multisig (length sigs) keys"
  have len: "\<not> 10000 < length ?c"
    using length_push_list [OF assms(4)] assms(3) by (simp add: multisig_def small_op_def put_op_def)
  let ?st = "\<lparr>es_stack = rev sigs @ dummy # s, es_alt = [], es_exec = [], es_ops = 0, es_code = ?c\<rparr>"
  let ?st1 = "\<lparr>es_stack = num_vch (int ?n) # rev keys @ num_vch (int ?m) # rev sigs @ dummy # s,
      es_alt = [], es_exec = [], es_ops = 0, es_code = ?c\<rparr>"
  have "eval_loop env sv fl ?c ?st = eval_loop env sv fl (put_op OP_CHECKMULTISIG @ []) ?st1"
    unfolding multisig_def using assms by (simp add: eval_loop_small_op eval_push_list)
  also have "\<dots> = Some (?st1\<lparr>es_ops := 1 + ?n, es_stack := bool_vch (multisig_loop (\<lambda>sig key. e_checksig env sig key
        (sign_code_all sv (rev sigs) ?c) sv) (rev sigs) (rev keys)) # s\<rparr>)"
    using assms op_checkmultisig_eq [of "?st1\<lparr>es_ops := 1\<rparr>" "rev keys" "rev sigs" dummy s env sv]
    by (simp add: eval_loop_op_switch eval_switch_ops_used disabled_op_def del: append_Nil2)
  finally show ?thesis
    by (simp add: EvalScript_def len)
qed

end
