(* ===== verification/Script_Verify.thy ===== *)
theory Script_Verify
  imports Script_Standard
begin

text \<open>
  \<open>VerifyScript\<close> and \<open>VerifyWitnessProgram\<close> of server/script.cpp, and what they decide for the
  standard outputs: payment to a key hash, to a script hash and to a witness program.

  \<open>max_elem\<close> is the \<open>max_script_element_size\<close> of the coin interface. The result is an outcome
  (\<open>res\<close>), because the source reads the top of a stack it has not checked to be non-empty.
\<close>

section \<open>Witness programs\<close>

text \<open>
  The witness stack is the vector of the source, its top last. \<open>witness_input\<close> is the script and
  the stack (top first) the program is run with.
\<close>

definition witness_input ::
  "script_env \<Rightarrow> valtype list \<Rightarrow> valtype \<Rightarrow> (script \<times> valtype list) option" where
  "witness_input env witness program =
     (if length program = 32
      then (if length witness = 0 then None
            else (let scriptPubKey = last witness; stack = butlast witness in
                  if e_sha256 env scriptPubKey \<noteq> program then None else Some (scriptPubKey, rev stack)))
      else if length program = 20
      then (if length witness \<noteq> 2 then None
            else Some (put_op OP_DUP @ put_op OP_HASH160 @ put_vch program @ put_op OP_EQUALVERIFY @ put_op OP_CHECKSIG,
                       rev witness))
      else None)"

definition VerifyWitnessProgram ::
  "script_env \<Rightarrow> nat \<Rightarrow> valtype list \<Rightarrow> nat \<Rightarrow> valtype \<Rightarrow> nat \<Rightarrow> bool" where
  "VerifyWitnessProgram env max_script_element_size witness witversion program flags =
     (if witversion = 0 \<or> witversion = 14
      then (case witness_input env witness program of
              None \<Rightarrow> False
            | Some (scriptPubKey, stack) \<Rightarrow>
              (let sigver = (if witversion = 0 then SIGVERSION_WITNESS_V0 else SIGVERSION_WITNESS_V14) in
               if list_ex (\<lambda>v. length v > max_script_element_size) stack then False
               else (case EvalScript env sigver (or SCRIPT_VERIFY_MINIMALIF flags) scriptPubKey stack of
                       None \<Rightarrow> False
                     | Some stack' \<Rightarrow> length stack' = 1 \<and> CastToBool (hd stack'))))
      else \<not> flag_set flags SCRIPT_VERIFY_DISCOURAGE_WITNESS)"

section \<open>VerifyScript\<close>

text \<open>
  The last step for an output that pays to a script hash. \<open>stackCopy\<close> is the stack the signature
  script left; reading the top of an empty one is undefined.
\<close>

definition verify_p2sh ::
  "script_env \<Rightarrow> nat \<Rightarrow> script \<Rightarrow> valtype list \<Rightarrow> nat \<Rightarrow> valtype list \<Rightarrow> (bool \<times> bool) res" where
  "verify_p2sh env max_elem scriptSig witness flags stackCopy =
     (if \<not> IsPushOnly scriptSig then Ret (False, False)
      else (case stackCopy of
              [] \<Rightarrow> Segv
            | pubKey2 # stack \<Rightarrow>
              (case EvalScript env SIGVERSION_BASE 0 pubKey2 stack of
                 None \<Rightarrow> Ret (False, False)
               | Some stack' \<Rightarrow>
                 if stack' = [] then Ret (False, False)
                 else if \<not> CastToBool (hd stack') then Ret (False, False)
                 else if \<not> flag_set flags SCRIPT_VERIFY_WITNESS then Ret (True, False)
                 else (case IsWitnessProgram pubKey2 of
                         None \<Rightarrow> Ret (True, False)
                       | Some (version, program) \<Rightarrow>
                         if scriptSig \<noteq> put_vch pubKey2 then Ret (False, True)
                         else Ret (VerifyWitnessProgram env max_elem witness version program flags, True)))))"

definition VerifyScript ::
  "script_env \<Rightarrow> nat \<Rightarrow> script \<Rightarrow> valtype list \<Rightarrow> script \<Rightarrow> nat \<Rightarrow> bool res" where
  "VerifyScript env max_elem scriptSig witness scriptPubKey flags =
     (if flag_set flags SCRIPT_VERIFY_SIGPUSHONLY \<and> \<not> IsPushOnly scriptSig then Ret False
      else (case EvalScript env SIGVERSION_BASE flags scriptSig [] of
              None \<Rightarrow> Ret False
            | Some stackCopy \<Rightarrow>
              (case EvalScript env SIGVERSION_BASE flags scriptPubKey stackCopy of
                 None \<Rightarrow> Ret False
               | Some stack \<Rightarrow>
                 if stack = [] then Ret False
                 else if \<not> CastToBool (hd stack) then Ret False
                 else
                   (let prog = (if flag_set flags SCRIPT_VERIFY_WITNESS then IsWitnessProgram scriptPubKey else None);
                        bare = (case prog of
                                  None \<Rightarrow> True
                                | Some (version, program) \<Rightarrow>
                                  length scriptSig = 0
                                  \<and> VerifyWitnessProgram env max_elem witness version program flags) in
                    if \<not> bare then Ret False
                    else andThen
                      (if flag_set flags SCRIPT_VERIFY_P2SH \<and> IsPayToScriptHash scriptPubKey
                       then verify_p2sh env max_elem scriptSig witness flags stackCopy
                       else Ret (True, False))
                      (\<lambda>(ok, had).
                         if \<not> ok then Ret False
                         else if flag_set flags SCRIPT_VERIFY_WITNESS \<and> \<not> (prog \<noteq> None \<or> had) \<and> witness \<noteq> []
                         then Ret False
                         else Ret True)))))"

section \<open>Scripts of standard outputs\<close>

definition p2sh :: "valtype \<Rightarrow> script" where
  "p2sh h = put_op OP_HASH160 @ put_vch h @ put_op OP_EQUAL"

lemma put_vch_20: "length h = 20 \<Longrightarrow> put_vch h = 20 # h"
  by (simp add: put_vch_def byte_of_def)

lemma form_p2pkh:
  assumes "length h = 20"
  shows "IsWitnessProgram (p2pkh h) = None" "\<not> IsPayToScriptHash (p2pkh h)"
  using assms GetOp2_op [of OP_DUP]
  by (simp_all add: p2pkh_def put_vch_20 IsWitnessProgram_def wit_version_def IsPayToScriptHash_def put_op_def)

lemma form_p2sh:
  assumes "length h = 20"
  shows "IsWitnessProgram (p2sh h) = None" "IsPayToScriptHash (p2sh h)"
  using assms GetOp2_op [of OP_HASH160]
  by (simp_all add: p2sh_def put_vch_20 IsWitnessProgram_def wit_version_def IsPayToScriptHash_def put_op_def nth_append)

lemma script_ops_push_list:
  "vals_ok vs \<Longrightarrow> script_ops (push_list vs) = (True, map (\<lambda>v. (vch_opcode v, v)) vs)"
proof (induction vs)
  case (Cons v vs)
  then show ?case
    using script_ops_read [OF GetOp2_put_vch [of v "push_list vs"]] by simp
qed simp

lemma IsPushOnly_push_list: "vals_ok vs \<Longrightarrow> IsPushOnly (push_list vs)"
  using vch_opcode_enabled(2) by (auto simp: IsPushOnly_ops script_ops_push_list not_less)

lemma push_list_run:
  assumes "vals_ok vs" "length vs + length s \<le> 1000" "length (push_list vs) \<le> 10000"
  shows "EvalScript env sv fl (push_list vs) s = Some (rev vs @ s)"
  using eval_push_list [of "\<lparr>es_stack = s, es_alt = [], es_exec = [], es_ops = 0, es_code = push_list vs\<rparr>" vs env sv fl "[]"] assms
  by (simp add: EvalScript_def)

lemma p2sh_run:
  assumes "length h = 20" "length s \<le> 998"
  shows "EvalScript env sv fl (p2sh h) (x # s) = Some (bool_vch (e_hash160 env x = h) # s)"
proof -
  have len: "\<not> 10000 < length (p2sh h)"
    using assms(1) by (simp add: p2sh_def put_op_def put_vch_20)
  have code: "p2sh h = put_op OP_HASH160 @ put_vch h @ put_op OP_EQUAL @ []"
    by (simp add: p2sh_def)
  have "eval_loop env sv fl (put_op OP_HASH160 @ put_vch h @ put_op OP_EQUAL @ [])
      \<lparr>es_stack = x # s, es_alt = [], es_exec = [], es_ops = 0, es_code = c\<rparr> =
    Some \<lparr>es_stack = bool_vch (e_hash160 env x = h) # s, es_alt = [], es_exec = [], es_ops = 2, es_code = c\<rparr>" for c
    using assms by (simp add: eval_loop_used eval_loop_push del: append_Nil2)
  from this [of "p2sh h"] show ?thesis
    unfolding code [symmetric] by (simp add: len EvalScript_def)
qed

section \<open>Spending\<close>

lemma verify_p2pkh:
  assumes "length h = 20" "length sig \<le> 520" "length key \<le> 520"
  shows "VerifyScript env me (push_list [sig, key]) [] (p2pkh h) fl =
    Ret (e_hash160 env key = h \<and> low_s_ok env SIGVERSION_BASE fl sig
      \<and> e_checksig env sig key (sign_code SIGVERSION_BASE sig (p2pkh h)) SIGVERSION_BASE)"
proof -
  have v: "vals_ok [sig, key]"
    using assms by simp
  have "EvalScript env SIGVERSION_BASE fl (push_list [sig, key]) [] = Some [key, sig]"
    using push_list_run [OF v, of "[]" env SIGVERSION_BASE fl] length_push_list [OF v] by simp
  then show ?thesis
    using IsPushOnly_push_list [OF v] form_p2pkh [OF assms(1)] p2pkh_run [OF assms(1), of "[]" env SIGVERSION_BASE fl key sig]
    by (auto simp: VerifyScript_def Let_def)
qed

lemma verify_p2sh_spend:
  assumes "length h = 20" "vals_ok (args @ [redeem])" "length args \<le> 998" "length (push_list (args @ [redeem])) \<le> 10000"
    "flag_set fl SCRIPT_VERIFY_P2SH" "IsWitnessProgram redeem = None"
  shows "VerifyScript env me (push_list (args @ [redeem])) [] (p2sh h) fl =
    Ret (e_hash160 env redeem = h
      \<and> (case EvalScript env SIGVERSION_BASE 0 redeem (rev args) of Some (v # _) \<Rightarrow> CastToBool v | _ \<Rightarrow> False))"
proof -
  have "EvalScript env SIGVERSION_BASE fl (push_list (args @ [redeem])) [] = Some (redeem # rev args)"
    using push_list_run [OF assms(2), of "[]" env SIGVERSION_BASE fl] assms(3,4) by simp
  then show ?thesis
    using IsPushOnly_push_list [OF assms(2)] form_p2sh [OF assms(1)] assms
      p2sh_run [OF assms(1), of "rev args" env SIGVERSION_BASE fl redeem]
    by (auto simp: VerifyScript_def verify_p2sh_def Let_def split: option.splits list.splits)
qed

text \<open>The output script of a witness program: its version and its program.\<close>

definition wit_script :: "nat \<Rightarrow> valtype \<Rightarrow> script" where
  "wit_script v program = (if v = 0 then put_op OP_0 else small_op v) @ put_vch program"

lemma wit_script_run:
  assumes "v \<le> 16" "length program \<le> 40"
  shows "EvalScript env sv fl (wit_script v program) [] = Some [program, num_vch (int v)]"
proof -
  have len: "\<not> 10000 < length (wit_script v program)"
    using length_put_vch [of program] assms(2) by (simp add: wit_script_def small_op_def put_op_def)
  have zero: "put_op OP_0 = put_vch []" "num_vch 0 = []"
    by (simp_all add: put_op_def put_vch_def num_vch_serialize scriptnum_serialize_def)
  have "eval_loop env sv fl ((if v = 0 then put_op OP_0 else small_op v) @ put_vch program @ [])
      \<lparr>es_stack = [], es_alt = [], es_exec = [], es_ops = 0, es_code = c\<rparr> =
    Some \<lparr>es_stack = [program, num_vch (int v)], es_alt = [], es_exec = [], es_ops = 0, es_code = c\<rparr>" for c
    using assms by (simp add: zero eval_loop_small_op eval_loop_push del: append_Nil2)
  from this [of "wit_script v program"] show ?thesis
    unfolding append_Nil2 wit_script_def [symmetric] by (simp add: len EvalScript_def)
qed

lemma form_wit_script:
  assumes "v \<le> 16" "2 \<le> length program" "length program \<le> 40"
  shows "IsWitnessProgram (wit_script v program) = Some (v, program)" "\<not> IsPayToScriptHash (wit_script v program)"
proof -
  let ?op = "if v = 0 then OP_0 else OP_1 + v - 1"
  have s: "wit_script v program = byte_of ?op # byte_of (length program) # program"
    using assms(3) by (simp add: wit_script_def small_op_def put_op_def put_vch_def)
  have g: "GetOp2 (wit_script v program) = (True, ?op, [], byte_of (length program) # program)"
  proof (cases "v = 0")
    case True
    have "put_vch [] = [byte_of 0]"
      by (simp add: put_vch_def)
    then show ?thesis
      using True GetOp2_put_vch [of "[]" "byte_of (length program) # program"] s by (simp add: vch_opcode_def)
  next
    case False
    then show ?thesis
      using GetOp2_op [of ?op "byte_of (length program) # program"] s assms(1) by (simp add: put_op_def)
  qed
  have "DecodeOP_N ?op = Some v"
    using assms(1) by (auto simp: DecodeOP_N_def)
  then show "IsWitnessProgram (wit_script v program) = Some (v, program)"
    using assms g by (auto simp: IsWitnessProgram_def wit_version_def s)
  show "\<not> IsPayToScriptHash (wit_script v program)"
    using assms(1) by (auto simp: IsPayToScriptHash_def s)
qed

lemma flag_minimalif: "flag_set (or SCRIPT_VERIFY_MINIMALIF fl) SCRIPT_VERIFY_LOW_S = flag_set fl SCRIPT_VERIFY_LOW_S"
proof -
  have "and (or a b) c = or (and a c) (and b c)" for a b c :: nat
    by (rule bit_eqI) (auto simp: bit_simps)
  from this [of 8192 fl 8] show ?thesis
    by (simp add: flag_set_def)
qed

lemma verify_witness_keyhash:
  assumes "v = 0 \<or> v = 14" "length h = 20" "length sig \<le> me" "length key \<le> me"
    "flag_set fl SCRIPT_VERIFY_WITNESS" 
  shows "VerifyScript env me [] [sig, key] (wit_script v h) fl =
    Ret (CastToBool h \<and> e_hash160 env key = h \<and> low_s_ok env SIGVERSION_WITNESS_V0 fl sig
      \<and> e_checksig env sig key (p2pkh h) (if v = 0 then SIGVERSION_WITNESS_V0 else SIGVERSION_WITNESS_V14))"
proof -
  let ?sv = "if v = 0 then SIGVERSION_WITNESS_V0 else SIGVERSION_WITNESS_V14"
  have low: "low_s_ok env ?sv (or SCRIPT_VERIFY_MINIMALIF fl) sig \<longleftrightarrow> low_s_ok env SIGVERSION_WITNESS_V0 fl sig"
    using assms(1) by (auto simp: low_s_ok_def flag_minimalif)
  have inp: "witness_input env [sig, key] h = Some (p2pkh h, [key, sig])"
    using assms(2) by (simp add: witness_input_def p2pkh_def)
  have wp: "VerifyWitnessProgram env me [sig, key] v h fl \<longleftrightarrow> e_hash160 env key = h \<and> low_s_ok env SIGVERSION_WITNESS_V0 fl sig
      \<and> e_checksig env sig key (p2pkh h) ?sv"
    using assms(1,3,4) p2pkh_run [OF assms(2), of "[]" env ?sv "or SCRIPT_VERIFY_MINIMALIF fl" key sig]
    by (auto simp: VerifyWitnessProgram_def inp low sign_code_def)
  have e: "EvalScript env SIGVERSION_BASE fl [] [] = Some []"
    by (simp add: EvalScript_def)
  have "IsPushOnly []"
    by (simp add: IsPushOnly.simps)
  then show ?thesis
    using assms wit_script_run [of v h env SIGVERSION_BASE fl] form_wit_script [of v h] e wp
    by (auto simp: VerifyScript_def Let_def)
qed

lemma verify_unknown_witness:
  assumes "v \<le> 16" "v \<noteq> 0" "v \<noteq> 14" "2 \<le> length program" "length program \<le> 40"
    "flag_set fl SCRIPT_VERIFY_WITNESS"
  shows "VerifyScript env me [] witness (wit_script v program) fl =
    Ret (CastToBool program \<and> \<not> flag_set fl SCRIPT_VERIFY_DISCOURAGE_WITNESS)"
proof -
  have "EvalScript env SIGVERSION_BASE fl [] [] = Some []" "IsPushOnly []"
    by (simp_all add: EvalScript_def IsPushOnly.simps)
  then show ?thesis
    using assms wit_script_run [of v program env SIGVERSION_BASE fl] form_wit_script [of v program]
    by (auto simp: VerifyScript_def VerifyWitnessProgram_def Let_def)
qed

section \<open>What acceptance means\<close>

lemma VerifyScript_accepts:
  assumes "VerifyScript env me scriptSig witness scriptPubKey fl = Ret True"
  obtains stk v s where "EvalScript env SIGVERSION_BASE fl scriptSig [] = Some stk"
    "EvalScript env SIGVERSION_BASE fl scriptPubKey stk = Some (v # s)" "CastToBool v"
    "flag_set fl SCRIPT_VERIFY_P2SH \<and> IsPayToScriptHash scriptPubKey \<Longrightarrow> IsPushOnly scriptSig \<and>
       (\<exists>redeem args w ws. stk = redeem # args \<and> EvalScript env SIGVERSION_BASE 0 redeem args = Some (w # ws) \<and> CastToBool w)"
    "\<forall>ver prog. flag_set fl SCRIPT_VERIFY_WITNESS \<and> IsWitnessProgram scriptPubKey = Some (ver, prog) \<longrightarrow>
       scriptSig = [] \<and> VerifyWitnessProgram env me witness ver prog fl"
proof -
  obtain stk where stk: "EvalScript env SIGVERSION_BASE fl scriptSig [] = Some stk"
    using assms by (auto simp: VerifyScript_def split: if_splits option.splits)
  obtain stk2 where stk2: "EvalScript env SIGVERSION_BASE fl scriptPubKey stk = Some stk2" "stk2 \<noteq> []" "CastToBool (hd stk2)"
    using assms stk by (auto simp: VerifyScript_def split: if_splits option.splits)
  have p: "IsPushOnly scriptSig \<and> (\<exists>redeem args w ws. stk = redeem # args
      \<and> EvalScript env SIGVERSION_BASE 0 redeem args = Some (w # ws) \<and> CastToBool w)"
    if "flag_set fl SCRIPT_VERIFY_P2SH \<and> IsPayToScriptHash scriptPubKey"
    using assms that stk stk2
    by (auto simp: VerifyScript_def verify_p2sh_def Let_def neq_Nil_conv andThen_Ret_iff split: if_splits option.splits list.splits)
  have w: "scriptSig = [] \<and> VerifyWitnessProgram env me witness ver prog fl"
    if "flag_set fl SCRIPT_VERIFY_WITNESS \<and> IsWitnessProgram scriptPubKey = Some (ver, prog)" for ver prog
    using assms that stk stk2 by (auto simp: VerifyScript_def Let_def split: if_splits)
  show thesis
    by (rule that [OF stk, of "hd stk2" "tl stk2"]) (use stk2 p w in auto)
qed

section \<open>The missing guard on the copied stack\<close>

definition ext_p2sh :: "valtype \<Rightarrow> script" where
  "ext_p2sh h = [0xf0, 0x51, 0x51, 0x51, 0x51, 0x6d] @ p2sh h"

lemma num_vch_1: "num_vch 1 = [1]"
  by (simp add: num_vch_serialize scriptnum_serialize_def le_bytes_step byte_of_def top_bit_unat)

lemma ext_p2sh_code:
  "ext_p2sh h = put_op 0xf0 @ small_op 1 @ small_op 1 @ small_op 1 @ small_op 1 @ put_op OP_2DROP
     @ put_op OP_HASH160 @ put_vch h @ put_op OP_EQUAL @ []"
  by (simp add: ext_p2sh_def p2sh_def small_op_def put_op_def byte_of_def)

lemma ext_p2sh_run:
  assumes "length h = 20"
  shows "EvalScript env sv fl (ext_p2sh h) [] = Some [bool_vch (e_hash160 env [1] = h), [1]]"
proof -
  have len: "\<not> 10000 < length (ext_p2sh h)"
    using assms by (simp add: ext_p2sh_def p2sh_def put_op_def put_vch_20)
  have ops: "eval_switch env sv fl 0xf0 e pc st = Some st"
    "eval_switch env sv fl OP_2DROP e pc st = on_stack (stack_op OP_2DROP) st" for e pc st
    by (simp_all add: eval_switch_def)
  have "eval_loop env sv fl (put_op 0xf0 @ small_op 1 @ small_op 1 @ small_op 1 @ small_op 1 @ put_op OP_2DROP
     @ put_op OP_HASH160 @ put_vch h @ put_op OP_EQUAL @ []) \<lparr>es_stack = [], es_alt = [], es_exec = [], es_ops = 0, es_code = c\<rparr> =
    Some \<lparr>es_stack = [bool_vch (e_hash160 env [1] = h), [1]], es_alt = [], es_exec = [], es_ops = 4, es_code = c\<rparr>" for c
    using assms
    by (simp add: eval_loop_op_switch ops disabled_op_def eval_loop_small_op on_stack_def stack_op_def num_vch_1
        eval_switch_ops_used op_hash_def op_equal_def eval_loop_push del: append_Nil2)
  from this [of "ext_p2sh h"] show ?thesis
    unfolding ext_p2sh_code [symmetric] by (simp add: len EvalScript_def)
qed

lemma seek_2drop_op:
  "OP_PUSHDATA4 < opcode \<Longrightarrow> opcode < 256 \<Longrightarrow>
    seek_2drop (put_op opcode @ r) = (if opcode = OP_2DROP then Some r else seek_2drop r)"
  by (subst seek_2drop.simps) (simp add: GetOp2_op)

lemma form_ext_p2sh:
  assumes "length h = 20"
  shows "IsPayToScriptHash (ext_p2sh h)"
proof -
  have "drop 2 (ext_p2sh h) = small_op 1 @ small_op 1 @ small_op 1 @ put_op OP_2DROP @ p2sh h"
    by (simp add: ext_p2sh_def small_op_def put_op_def byte_of_def)
  then have "seek_2drop (drop 2 (ext_p2sh h)) = Some (p2sh h)"
    by (simp add: small_op_def seek_2drop_op)
  moreover have "p2sh_form (p2sh h)"
    using assms by (simp add: p2sh_form_def p2sh_def put_vch_20 put_op_def nth_append)
  ultimately show ?thesis
    using assms by (simp add: IsPayToScriptHash_def) (simp add: ext_p2sh_def p2sh_def put_vch_20 put_op_def)
qed

lemma verify_ext_p2sh_empty:
  assumes "length h = 20" "e_hash160 env [1] = h"
  shows "VerifyScript env me [] [] (ext_p2sh h) SCRIPT_VERIFY_P2SH = Segv"
proof -
  have "EvalScript env SIGVERSION_BASE fl [] [] = Some []" "IsPushOnly []" for fl
    by (simp_all add: EvalScript_def IsPushOnly.simps)
  then show ?thesis
    using ext_p2sh_run [OF assms(1), of env] form_ext_p2sh [OF assms(1)] assms(2)
    by (simp add: VerifyScript_def verify_p2sh_def Let_def flag_set_def)
qed

lemma hash160_needs_input:
  assumes "p2sh_form s"
  shows "EvalScript env sv fl s [] = None"
proof -
  from assms obtain b r where s: "s = b # r" "unat b = OP_HASH160"
    by (cases s) (auto simp: p2sh_form_def)
  then have "byte_of OP_HASH160 = b"
    by (simp add: unat_byte_eq_iff [symmetric])
  with s have "s = put_op OP_HASH160 @ r"
    by (simp add: put_op_def)
  then show ?thesis
    by (simp add: EvalScript_def eval_loop_op_switch disabled_op_def eval_switch_ops_used on_stack_def op_hash_def)
qed

definition returns :: "'a res \<Rightarrow> bool" where
  "returns r \<longleftrightarrow> wp r (\<lambda>_. True)"

lemma returns_rules:
  "returns (Ret x)"
  "(c \<Longrightarrow> returns a) \<Longrightarrow> (\<not> c \<Longrightarrow> returns b) \<Longrightarrow> returns (if c then a else b)"
  "(opt = None \<Longrightarrow> returns a) \<Longrightarrow> (\<And>x. opt = Some x \<Longrightarrow> returns (f x)) \<Longrightarrow>
     returns (case opt of None \<Rightarrow> a | Some x \<Rightarrow> f x)"
  "returns m \<Longrightarrow> (\<And>x. returns (k x)) \<Longrightarrow> returns (andThen m k)"
  "returns (case z of (x, y) \<Rightarrow> if \<not> x then Ret False else if g y then Ret False else Ret True)"
  by (auto simp: returns_def wp_iff split: option.splits prod.splits)

lemma verify_returns:
  assumes "scriptPubKey = [] \<or> unat (hd scriptPubKey) < 0xf0 \<or> unat (hd scriptPubKey) > 0xf9"
  shows "returns (VerifyScript env me scriptSig witness scriptPubKey fl)"
proof -
  have p2sh: "returns (verify_p2sh env me scriptSig witness fl stk)"
    if "EvalScript env SIGVERSION_BASE fl scriptPubKey stk = Some y" "IsPayToScriptHash scriptPubKey" for stk y
  proof -
    have "23 \<le> length scriptPubKey"
      using that(2) by (simp add: IsPayToScriptHash_def split: if_splits)
    then have "unat (scriptPubKey ! 0) < 0xf0 \<or> unat (scriptPubKey ! 0) > 0xf9"
      using assms by (cases scriptPubKey) simp_all
    with that(2) have "length scriptPubKey = 23"
      unfolding IsPayToScriptHash_def by metis
    with that(2) have "p2sh_form scriptPubKey"
      by (simp add: IsPayToScriptHash_def p2sh_form_def)
    from hash160_needs_input [OF this, of env SIGVERSION_BASE fl] that(1) show ?thesis
      by (cases stk) (auto simp: verify_p2sh_def returns_def split: option.splits)
  qed
  show ?thesis
    unfolding VerifyScript_def Let_def by (intro returns_rules; (elim conjE)?; (rule p2sh)?; assumption?)
qed

end
