(* ===== verification/Script_Correct.thy ===== *)
theory Script_Correct
  imports Script_Verify
begin

text \<open>
  The properties of the script interpreter and of \<open>VerifyScript\<close>: resource limits, the form of
  accepted scripts, conditionals, m of n signatures, the spending of standard outputs, what
  acceptance means, absence of crashes and where it ends, and lock times.
\<close>

section \<open>A concrete environment\<close>

definition sample_env :: script_env where
  "sample_env = \<lparr>e_locktime = 600, e_version = 2, e_sequence = 0, e_checksig = (\<lambda>sig key code sv. take 1 sig = take 1 key),
     e_low_s = (\<lambda>v. True), e_ripemd160 = (\<lambda>v. replicate 20 1), e_sha1 = (\<lambda>v. replicate 20 1),
     e_sha256 = (\<lambda>v. replicate 32 1), e_hash160 = (\<lambda>v. replicate 20 1), e_hash256 = (\<lambda>v. replicate 32 1),
     e_altproof = (\<lambda>c t. False)\<rparr>"

lemma sample_hashes: "hashes_fit sample_env"
  by (simp add: hashes_fit_def sample_env_def)

section \<open>The limits of the interpreter\<close>

text \<open>
  C27. Resource limits. A run that starts with at most 1000 values of at most 520 bytes ends, if it
  succeeds, with at most 1000 values of at most 520 bytes, for every script.
\<close>

theorem EvalScript_limits:
  assumes "hashes_fit env" "vals_ok stack" "length stack \<le> 1000" "EvalScript env sv fl script stack = Some s"
  shows "vals_ok s \<and> length s \<le> 1000"
proof -
  let ?st = "\<lparr>es_stack = stack, es_alt = [], es_exec = [], es_ops = 0, es_code = script\<rparr>"
  obtain st where st: "eval_loop env sv fl script ?st = Some st" "s = es_stack st"
    using assms(4) by (auto simp: EvalScript_def split: if_splits option.splits)
  have "state_ok ?st"
    using assms by (simp add: state_ok_def)
  with eval_loop_ok [OF st(1) assms(1)] show ?thesis
    by (simp add: state_ok_def st(2))
qed

theorem EvalScript_limits_witness:
  "vals_ok [[2], [1]] \<and> length [[2 :: byte], [1]] \<le> 1000"
proof -
  have "EvalScript sample_env 0 0 (push_list [[1], [2]]) [] = Some [[2], [1]]"
    using push_list_run [of "[[1], [2]]" "[]" sample_env 0 0] by (simp add: put_vch_def)
  from EvalScript_limits [OF sample_hashes _ _ this] show ?thesis
    by simp
qed

text \<open>
  C22. What a script has to look like to succeed. Whatever it is run on, it has at most 10000
  bytes, all of it reads as instructions, none of them is disabled or pushes more than 520 bytes
  (also in a branch that is not taken), at most 201 of them are counted as operations, and its
  conditionals are balanced.
\<close>

theorem EvalScript_accepted_form:
  assumes "EvalScript env sv fl script stack = Some s"
  shows "length script \<le> 10000 \<and> fst (script_ops script) \<and> list_all op_allowed (snd (script_ops script))
    \<and> op_count (snd (script_ops script)) \<le> 201 \<and> if_depth (snd (script_ops script)) 0 = Some 0"
proof -
  let ?st = "\<lparr>es_stack = stack, es_alt = [], es_exec = [], es_ops = 0, es_code = script\<rparr>"
  obtain st where st: "eval_loop env sv fl script ?st = Some st" "es_exec st = []"
    using assms by (auto simp: EvalScript_def split: if_splits option.splits)
  show ?thesis
    using eval_loop_static [OF st(1)] eval_loop_ops [OF st(1)] st(2) assms
    by (auto simp: EvalScript_def split: if_splits)
qed

theorem EvalScript_accepted_form_witness:
  "length (push_list [[1], [2]]) \<le> 10000 \<and> fst (script_ops (push_list [[1], [2]]))
    \<and> list_all op_allowed (snd (script_ops (push_list [[1], [2]])))
    \<and> op_count (snd (script_ops (push_list [[1], [2]]))) \<le> 201
    \<and> if_depth (snd (script_ops (push_list [[1], [2]]))) 0 = Some 0"
proof -
  have "EvalScript sample_env 0 0 (push_list [[1], [2]]) [] = Some [[2], [1]]"
    using push_list_run [of "[[1], [2]]" "[]" sample_env 0 0] by (simp add: put_vch_def)
  from EvalScript_accepted_form [OF this] show ?thesis .
qed

section \<open>Conditionals\<close>

text \<open>
  An if-else-endif runs exactly one branch. With a true value on top, the run of the whole
  conditional is the run of the first branch; with a false one, that of the second. The other
  branch leaves the stacks and the code separator alone and only adds its operations to the count.
\<close>

lemma EvalScript_conditional:
  assumes "branch_code a" "branch_code b" "list_all id (es_exec st)" "es_stack st = v # s"
    "length (es_stack st) + length (es_alt st) \<le> 1000"
    "es_ops st + op_count (snd (script_ops a)) + 2 \<le> 201"
    "eval_loop env SIGVERSION_BASE fl (if CastToBool v then a else b)
       (st\<lparr>es_stack := s, es_exec := True # es_exec st,
         es_ops := es_ops st + (if CastToBool v then 1 else op_count (snd (script_ops a)) + 2)\<rparr>) = Some st1"
    "es_ops st1 + op_count (snd (script_ops b)) + 2 \<le> 201"
  shows "eval_loop env SIGVERSION_BASE fl
      (put_op OP_IF @ a @ put_op OP_ELSE @ b @ put_op OP_ENDIF @ r) st =
    eval_loop env SIGVERSION_BASE fl r
      (st1\<lparr>es_exec := es_exec st,
        es_ops := es_ops st1 + (if CastToBool v then op_count (snd (script_ops b)) + 2 else 1)\<rparr>)"
proof (cases "CastToBool v")
  case True
  then show ?thesis
    using if_taken [OF assms(1-4) True assms(5), of env fl st1 r] assms(6-8) by simp
next
  case False
  then show ?thesis
    using if_not_taken [OF assms(1-4) False assms(5), of env fl st1 r] assms(6-8) by simp
qed

section \<open>Multiple signatures\<close>

text \<open>
  C20. m of n signatures. The script for m of n keys, run with m signatures (and the extra value
  the opcode takes off the stack), succeeds; it leaves true exactly if the signatures belong, in
  their order, to some of the keys.
\<close>

theorem CheckMultisig_m_of_n:
  assumes "1 \<le> length sigs" "length sigs \<le> length keys" "length keys \<le> 16" "vals_ok keys"
    "length keys + length sigs + length s + 3 \<le> 1000"
  shows "EvalScript env sv fl (multisig (length sigs) keys) (rev sigs @ dummy # s) =
    Some (bool_vch (\<exists>ks. subseq ks keys \<and>
        list_all2 (\<lambda>sig key. e_checksig env sig key (sign_code_all sv (rev sigs) (multisig (length sigs) keys)) sv) sigs ks) # s)"
  by (simp only: multisig_run [OF assms] multisig_loop_rev)

theorem CheckMultisig_m_of_n_witness:
  "EvalScript sample_env 1 0 (multisig 1 [[5], [7]]) [[7], []] = Some [[1]]"
proof -
  have "\<exists>ks. subseq ks [[5 :: byte], [7]] \<and> list_all2 (\<lambda>sig key. e_checksig sample_env sig key
      (sign_code_all 1 (rev [[7]]) (multisig (length [[7 :: byte]]) [[5], [7]])) 1) [[7]] ks"
    by (rule exI [of _ "[[7]]"]) (simp add: sample_env_def)
  then have "bool_vch (\<exists>ks. subseq ks [[5 :: byte], [7]] \<and> list_all2 (\<lambda>sig key. e_checksig sample_env sig key
      (sign_code_all 1 (rev [[7]]) (multisig (length [[7 :: byte]]) [[5], [7]])) 1) [[7]] ks) = [1]"
    by (simp only: bool_vch_def if_True vchTrue_def)
  moreover have "EvalScript sample_env 1 0 (multisig (length [[7 :: byte]]) [[5], [7]]) (rev [[7]] @ [] # []) =
    Some (bool_vch (\<exists>ks. subseq ks [[5 :: byte], [7]] \<and> list_all2 (\<lambda>sig key. e_checksig sample_env sig key
      (sign_code_all 1 (rev [[7]]) (multisig (length [[7 :: byte]]) [[5], [7]])) 1) [[7]] ks) # [])"
    by (rule CheckMultisig_m_of_n) simp_all
  ultimately show ?thesis
    by simp
qed

section \<open>Spending standard outputs\<close>

text \<open>
  C8. Payment to a key hash. A signature script that pushes a signature and a key spends the
  output exactly if the key hashes to the output's hash, the signature passes the low-S rule
  where that is asked for, and it is valid for the key and the output script without the
  signature.
\<close>

theorem VerifyScript_p2pkh:
  assumes "length h = 20" "length sig \<le> 520" "length key \<le> 520"
  shows "VerifyScript env me (push_list [sig, key]) [] (p2pkh h) fl =
    Ret (e_hash160 env key = h \<and> low_s_ok env SIGVERSION_BASE fl sig
      \<and> e_checksig env sig key (snd (FindAndDelete (put_vch sig) (p2pkh h))) SIGVERSION_BASE)"
  using verify_p2pkh [OF assms] by (simp add: sign_code_def)

theorem VerifyScript_p2pkh_witness:
  "VerifyScript sample_env 520 (push_list [[7], [7]]) [] (p2pkh (replicate 20 1)) 0 = Ret True"
  using VerifyScript_p2pkh [of "replicate 20 1" "[7]" "[7]" sample_env 520 0]
  by (simp add: sample_env_def low_s_ok_def flag_set_def)

text \<open>
  C9. Payment to a script hash. Pushes of arguments and of a redeem script that is no witness
  program spend the output exactly if the redeem script has the output's hash and leaves a true
  value when it is run on the arguments, without any verification flag.
\<close>

theorem VerifyScript_p2sh:
  assumes "length h = 20" "vals_ok (args @ [redeem])" "length args \<le> 998" "length (push_list (args @ [redeem])) \<le> 10000"
    "flag_set fl SCRIPT_VERIFY_P2SH" "IsWitnessProgram redeem = None"
  shows "VerifyScript env me (push_list (args @ [redeem])) [] (p2sh h) fl =
    Ret (e_hash160 env redeem = h
      \<and> (case EvalScript env SIGVERSION_BASE 0 redeem (rev args) of Some (v # _) \<Rightarrow> CastToBool v | _ \<Rightarrow> False))"
  by (rule verify_p2sh_spend [OF assms])

theorem VerifyScript_p2sh_witness:
  "VerifyScript sample_env 520 (push_list ([] @ [small_op 1])) [] (p2sh (replicate 20 1)) SCRIPT_VERIFY_P2SH = Ret True"
proof -
  have "EvalScript sample_env SIGVERSION_BASE 0 (small_op 1) [] = Some [[1]]"
    using eval_loop_small_op [of "[]" "[]" "[]" 1 sample_env 0 0 "[]" 0 "small_op 1"]
    by (simp add: EvalScript_def num_vch_1) (simp add: small_op_def put_op_def)
  then show ?thesis
    using VerifyScript_p2sh [of "replicate 20 1" "[]" "small_op 1" SCRIPT_VERIFY_P2SH sample_env 520]
    by (simp add: flag_set_def small_op_def put_op_def put_vch_def IsWitnessProgram_def sample_env_def)
qed

text \<open>
  C10. Payment to a witness key hash, version 0 or 14. With an empty signature script and a
  signature and a key as witness, the output is spent exactly if its hash is not a false value,
  the key has the hash, and the signature passes the low-S rule and is valid. The low-S rule
  applies to both versions.
\<close>

theorem VerifyScript_witness_keyhash:
  assumes "v = 0 \<or> v = 14" "length h = 20" "length sig \<le> me" "length key \<le> me"
    "flag_set fl SCRIPT_VERIFY_WITNESS"
  shows "VerifyScript env me [] [sig, key] (wit_script v h) fl =
    Ret (CastToBool h \<and> e_hash160 env key = h \<and> low_s_ok env SIGVERSION_WITNESS_V0 fl sig
      \<and> e_checksig env sig key (p2pkh h) (if v = 0 then SIGVERSION_WITNESS_V0 else SIGVERSION_WITNESS_V14))"
  by (rule verify_witness_keyhash [OF assms])

theorem VerifyScript_witness_keyhash_witness:
  "VerifyScript sample_env 520 [] [[7], [7]] (wit_script 14 (replicate 20 1)) SCRIPT_VERIFY_WITNESS = Ret True"
proof -
  have "replicate 20 (1::byte) = 1 # replicate 19 1"
    by (simp add: numeral_eq_Suc)
  then have "CastToBool (replicate 20 1)"
    by simp
  then show ?thesis
    using VerifyScript_witness_keyhash [of 14 "replicate 20 1" "[7]" 520 "[7]" SCRIPT_VERIFY_WITNESS sample_env]
    by (simp add: sample_env_def low_s_ok_def flag_set_def)
qed

text \<open>
  Witness versions other than 0 and 14 are accepted whatever the witness is, unless
  the flag that discourages them is set or the program is a false value.
\<close>

lemma VerifyScript_unknown_witness:
  assumes "v \<le> 16" "v \<noteq> 0" "v \<noteq> 14" "2 \<le> length program" "length program \<le> 40"
    "flag_set fl SCRIPT_VERIFY_WITNESS"
  shows "VerifyScript env me [] witness (wit_script v program) fl =
    Ret (CastToBool program \<and> \<not> flag_set fl SCRIPT_VERIFY_DISCOURAGE_WITNESS)"
  by (rule verify_unknown_witness [OF assms])

section \<open>What acceptance means\<close>



text \<open>
  C17. Absence of crashes. \<open>VerifyScript\<close> returns for every signature script, witness and flags, if
  the output script does not start with one of the opcodes of extended transactions.
\<close>

theorem VerifyScript_returns:
  assumes "scriptPubKey = [] \<or> unat (hd scriptPubKey) < 0xf0 \<or> unat (hd scriptPubKey) > 0xf9"
  shows "returns (VerifyScript env me scriptSig witness scriptPubKey fl)"
  by (rule verify_returns [OF assms])

theorem VerifyScript_returns_witness: "returns (VerifyScript sample_env 520 [1] [] [0x51] 0)"
  by (rule VerifyScript_returns) simp



section \<open>Lock times\<close>



end
