(* ===== verification/Script_Solver.thy ===== *)
theory Script_Solver
  imports Script_Verify
begin

text \<open>
  \<open>Solver\<close> of server/script.cpp and the destinations of server/coinaddr.cpp: which kind of
  output a script is, the data in it, and the way from a destination to its script and back.

  The template loop is split into rounds (\<open>template_step\<close>); iterators into the script and the
  template are the bytes behind them. \<open>alt\<close> stands for the lookup of a transaction in another
  chain and \<open>hash160\<close> for the hash of a public key.
\<close>

abbreviation (input) OP_SMALLINTEGER :: opcode where "OP_SMALLINTEGER \<equiv> 0xfa"
abbreviation (input) OP_PUBKEYS :: opcode where "OP_PUBKEYS \<equiv> 0xfb"
abbreviation (input) OP_EXT_HASH :: opcode where "OP_EXT_HASH \<equiv> 0xfc"
abbreviation (input) OP_PUBKEYHASH :: opcode where "OP_PUBKEYHASH \<equiv> 0xfd"
abbreviation (input) OP_PUBKEY :: opcode where "OP_PUBKEY \<equiv> 0xfe"

datatype txnouttype =
    TX_NONSTANDARD | TX_PUBKEY | TX_PUBKEYHASH | TX_SCRIPTHASH | TX_MULTISIG | TX_RETURN
  | TX_WITNESS_V0_SCRIPTHASH | TX_WITNESS_V0_KEYHASH | TX_WITNESS_UNKNOWN
  | TX_WITNESS_V14_SCRIPTHASH | TX_WITNESS_V14_KEYHASH

section \<open>Matching a template\<close>

text \<open>The instruction at an iterator: opcode, data and the iterator behind it.\<close>

type_synonym instr = "opcode \<times> valtype \<times> script"

function seek_op :: "opcode \<Rightarrow> instr \<Rightarrow> instr" where
  "seek_op target (opcode, vch, pc) =
     (if opcode = target then (opcode, vch, pc)
      else (case GetOp2 pc of
              (False, i) \<Rightarrow> i
            | (True, i) \<Rightarrow> seek_op target i))"
  by pat_completeness auto
termination
  by (relation "measure (\<lambda>(t, i). length (snd (snd i)))") (auto dest: GetOp2_shorter [OF sym])

declare seek_op.simps [simp del]

definition RemoveSolverDropPrefix :: "instr \<Rightarrow> instr" where
  "RemoveSolverDropPrefix i =
     (case i of (opcode1, vch1, pc1) \<Rightarrow>
        (case (if vch1 \<noteq> [] then GetOp2 pc1 else (True, opcode1, vch1, pc1)) of (ok, opcode, _, pc) \<Rightarrow>
           if \<not> ok \<or> opcode = OP_0 then i
           else (case GetOp2 pc of (ok', opcode', _, pc') \<Rightarrow>
             if \<not> ok' then i
             else if opcode' = OP_DROP then snd (GetOp2 pc')
             else i)))"

function take_pubkeys :: "instr \<Rightarrow> valtype list \<Rightarrow> instr \<times> valtype list" where
  "take_pubkeys (opcode, vch, pc) sols =
     (if 33 \<le> length vch \<and> length vch \<le> 120
      then (case GetOp2 pc of
              (False, i) \<Rightarrow> (i, sols @ [vch])
            | (True, i) \<Rightarrow> take_pubkeys i (sols @ [vch]))
      else ((opcode, vch, pc), sols))"
  by pat_completeness auto
termination
  by (relation "measure (\<lambda>(i, s). length (snd (snd i)))") (auto dest: GetOp2_shorter [OF sym])

declare take_pubkeys.simps [simp del]

text \<open>The branch of a conditional that the last solution selects; \<open>Inl\<close> leaves the matching.\<close>

definition solver_if :: "instr \<Rightarrow> valtype list \<Rightarrow> valtype list + (instr \<times> valtype list)" where
  "solver_if i sols =
     (if fst i \<noteq> OP_IF then Inr (i, sols)
      else if sols = [] then Inl sols
      else (let j = (if last sols = vchTrue then i else seek_op OP_ELSE i) in
            (case GetOp2 (snd (snd j)) of
               (False, _) \<Rightarrow> Inl (butlast sols)
             | (True, k) \<Rightarrow> Inr (k, butlast sols))))"

definition match_op :: "opcode \<Rightarrow> valtype \<Rightarrow> opcode \<Rightarrow> valtype \<Rightarrow> valtype list \<Rightarrow> valtype list option" where
  "match_op opcode2 vch2 opcode1 vch1 sols =
     (if opcode2 = OP_PUBKEY
      then (if length vch1 < 33 \<or> length vch1 > 120 then None else Some (sols @ [vch1]))
      else if opcode2 = OP_PUBKEYHASH
      then (if length vch1 \<noteq> 20 then None else Some (sols @ [vch1]))
      else if opcode2 = OP_EXT_HASH
      then (if length vch1 \<noteq> 20 then None else Some sols)
      else if opcode2 = OP_SMALLINTEGER
      then (if opcode1 = OP_0 \<or> (OP_1 \<le> opcode1 \<and> opcode1 \<le> OP_16)
            then map_option (\<lambda>n. sols @ [[byte_of n]]) (DecodeOP_N opcode1) else None)
      else if opcode1 \<noteq> opcode2 \<or> vch1 \<noteq> vch2 then None
      else Some sols)"

text \<open>The keys of a multiple signature script stand for one opcode of the template.\<close>

definition template_keys :: "instr \<Rightarrow> instr \<Rightarrow> valtype list \<Rightarrow> valtype list + (instr \<times> instr \<times> valtype list)" where
  "template_keys i t sols =
     (if fst t \<noteq> OP_PUBKEYS then Inr (i, t, sols)
      else (case take_pubkeys i sols of (i', s) \<Rightarrow>
              (case GetOp2 (snd (snd t)) of
                 (False, _) \<Rightarrow> Inl s
               | (True, t') \<Rightarrow> Inr (i', t', s))))"

text \<open>
  One round of the loop over script and template. \<open>Inl\<close> ends the loop with the verdict and the
  solutions found so far; \<open>Inr\<close> goes on with the iterators into the script and the template.
\<close>

type_synonym round_result = "(bool \<times> valtype list) + (script \<times> script \<times> valtype list)"

definition template_match :: "instr \<Rightarrow> script \<Rightarrow> valtype list \<Rightarrow> round_result" where
  "template_match i pc2 sols =
     (case GetOp2 pc2 of
        (False, _) \<Rightarrow> Inl (False, sols)
      | (True, t) \<Rightarrow>
        (case template_keys (RemoveSolverDropPrefix i) t sols of
           Inl s \<Rightarrow> Inl (False, s)
         | Inr ((opcode1, vch1, pc1'), (opcode2, vch2, pc2'), s) \<Rightarrow>
           (case match_op opcode2 vch2 opcode1 vch1 s of
              None \<Rightarrow> Inl (False, s)
            | Some s' \<Rightarrow> Inr (pc1', pc2', s'))))"

definition template_step :: "script \<Rightarrow> script \<Rightarrow> valtype list \<Rightarrow> round_result" where
  "template_step pc1 pc2 sols =
     (if pc1 = [] \<and> pc2 = [] then Inl (True, sols)
      else (case GetOp2 pc1 of
        (False, _) \<Rightarrow> Inl (False, sols)
      | (True, i0) \<Rightarrow>
        (case solver_if i0 sols of
           Inl s \<Rightarrow> Inl (False, s)
         | Inr (i1, sols1) \<Rightarrow>
           (let i2 = (if fst i1 = OP_ELSE then seek_op OP_ENDIF i1 else i1) in
            if fst i2 = OP_ENDIF then Inr (snd (snd (snd (GetOp2 (snd (snd i2))))), pc2, sols1)
            else template_match i2 pc2 sols1))))"

lemma GetOp2_le: "length (snd (snd (snd (GetOp2 pc)))) \<le> length pc"
  by (auto simp: GetOp2_def op_size_def Let_def split: list.splits option.splits if_splits)

lemma seek_op_le: "length (snd (snd (seek_op t i))) \<le> length (snd (snd i))"
proof (induction t i rule: seek_op.induct)
  case (1 target opcode vch pc)
  obtain ok i where g: "GetOp2 pc = (ok, i)"
    by (cases "GetOp2 pc")
  have "length (snd (snd i)) \<le> length pc"
    using GetOp2_le [of pc] by (simp add: g)
  moreover have "ok \<Longrightarrow> opcode \<noteq> target \<Longrightarrow> length (snd (snd (seek_op target i))) \<le> length (snd (snd i))"
    using 1 [of ok i] g by simp
  ultimately show ?case
    by (subst seek_op.simps) (cases ok, auto simp: g)
qed

lemma take_pubkeys_le: "length (snd (snd (fst (take_pubkeys i s)))) \<le> length (snd (snd i))"
proof (induction i s rule: take_pubkeys.induct)
  case (1 opcode vch pc sols)
  obtain ok i where g: "GetOp2 pc = (ok, i)"
    by (cases "GetOp2 pc")
  have "length (snd (snd i)) \<le> length pc"
    using GetOp2_le [of pc] by (simp add: g)
  moreover have "ok \<Longrightarrow> 33 \<le> length vch \<and> length vch \<le> 120 \<Longrightarrow>
      length (snd (snd (fst (take_pubkeys i (sols @ [vch]))))) \<le> length (snd (snd i))"
    using 1 [of ok i] g by simp
  ultimately show ?case
    by (subst take_pubkeys.simps) (cases ok, auto simp: g)
qed

lemma drop_prefix_le: "length (snd (snd (RemoveSolverDropPrefix i))) \<le> length (snd (snd i))"
proof (cases i)
  case (fields opcode1 vch1 pc1)
  obtain ok opcode v pc where g: "(if vch1 \<noteq> [] then GetOp2 pc1 else (True, opcode1, vch1, pc1)) = (ok, opcode, v, pc)"
    by (metis prod_cases4)
  then have "length pc \<le> length pc1"
    using GetOp2_le [of pc1] by (auto split: if_splits)
  then show ?thesis
    using GetOp2_le [of pc] GetOp2_le [of "snd (snd (snd (GetOp2 pc)))"]
    by (auto simp: RemoveSolverDropPrefix_def fields g split: prod.splits)
qed

lemma solver_if_le:
  assumes "solver_if i sols = Inr (k, s)"
  shows "length (snd (snd k)) \<le> length (snd (snd i))"
proof -
  let ?j = "if last sols = vchTrue then i else seek_op OP_ELSE i"
  have j: "length (snd (snd ?j)) \<le> length (snd (snd i))"
    by (simp add: seek_op_le)
  consider "k = i" | "snd (GetOp2 (snd (snd ?j))) = k"
    using assms by (auto simp: solver_if_def Let_def split: if_splits prod.splits bool.splits)
  then show ?thesis
  proof cases
    case 2
    with GetOp2_le [of "snd (snd ?j)"] j show ?thesis
      by simp
  qed simp
qed

lemma template_keys_le:
  "template_keys i t sols = Inr (i', t', s) \<Longrightarrow> length (snd (snd i')) \<le> length (snd (snd i))"
  using take_pubkeys_le [of i sols] by (auto simp: template_keys_def split: if_splits prod.splits bool.splits)

lemma template_match_le:
  assumes "template_match i pc2 sols = Inr (pc1', pc2', s)"
  shows "length pc1' \<le> length (snd (snd i))"
proof -
  from assms obtain t where "GetOp2 pc2 = (True, t)"
    by (auto simp: template_match_def split: prod.splits bool.splits)
  moreover from this assms obtain i' t' s' where k: "template_keys (RemoveSolverDropPrefix i) t sols = Inr (i', t', s')"
    by (auto simp: template_match_def split: sum.splits)
  ultimately have "pc1' = snd (snd i')"
    using assms by (auto simp: template_match_def split: prod.splits option.splits)
  with template_keys_le [OF k] drop_prefix_le [of i] show ?thesis
    by simp
qed

lemma template_step_shorter:
  assumes "template_step pc1 pc2 sols = Inr (pc1', pc2', sols')"
  shows "length pc1' < length pc1"
proof -
  from assms obtain i0 where g0: "GetOp2 pc1 = (True, i0)"
    by (auto simp: template_step_def split: if_splits prod.splits bool.splits)
  then have l0: "length (snd (snd i0)) < length pc1"
    using GetOp2_shorter [of pc1 "fst i0" "fst (snd i0)" "snd (snd i0)"] by simp
  from assms g0 obtain i1 sols1 where g1: "solver_if i0 sols = Inr (i1, sols1)"
    by (auto simp: template_step_def split: if_splits sum.splits)
  note l1 = solver_if_le [OF g1]
  let ?i2 = "if fst i1 = OP_ELSE then seek_op OP_ENDIF i1 else i1"
  have l2: "length (snd (snd ?i2)) \<le> length (snd (snd i1))"
    by (simp add: seek_op_le)
  show ?thesis
  proof (cases "fst ?i2 = OP_ENDIF")
    case True
    then have "pc1' = snd (snd (snd (GetOp2 (snd (snd ?i2)))))"
      using assms by (simp add: template_step_def g0 g1 Let_def split: if_splits)
    then show ?thesis
      using GetOp2_le [of "snd (snd ?i2)"] l0 l1 l2 by simp
  next
    case False
    then have "template_match ?i2 pc2 sols1 = Inr (pc1', pc2', sols')"
      using assms by (simp add: template_step_def g0 g1 Let_def split: if_splits)
    with template_match_le [OF this] l0 l1 l2 show ?thesis
      by simp
  qed
qed

function match_template :: "script \<Rightarrow> script \<Rightarrow> valtype list \<Rightarrow> bool \<times> valtype list" where
  "match_template pc1 pc2 sols =
     (case template_step pc1 pc2 sols of
        Inl r \<Rightarrow> r
      | Inr (pc1', pc2', sols') \<Rightarrow> match_template pc1' pc2' sols')"
  by pat_completeness auto
termination
  by (relation "measure (\<lambda>(a, b, s). length a)") (auto dest: template_step_shorter)

declare match_template.simps [simp del]

section \<open>Solver\<close>

definition mTemplates :: "(txnouttype \<times> script) list" where
  "mTemplates =
     [(TX_PUBKEY, put_op OP_PUBKEY @ put_op OP_CHECKSIG),
      (TX_PUBKEYHASH, put_op OP_DUP @ put_op OP_HASH160 @ put_op OP_PUBKEYHASH @ put_op OP_EQUALVERIFY @ put_op OP_CHECKSIG),
      (TX_MULTISIG, put_op OP_SMALLINTEGER @ put_op OP_PUBKEYS @ put_op OP_SMALLINTEGER @ put_op OP_CHECKMULTISIG),
      (TX_RETURN, put_op OP_RETURN)]"

text \<open>
  What the other chains say about a transaction: for the hash of a coin and of a transaction
  whether the transaction exists, \<open>None\<close> if there is no interface for the coin.
\<close>

type_synonym alt_chains = "valtype \<Rightarrow> valtype \<Rightarrow> bool option"

definition SolverCheckAltProof :: "alt_chains \<Rightarrow> script \<Rightarrow> valtype list \<Rightarrow> script \<times> valtype list" where
  "SolverCheckAltProof alt script sols =
     (case GetOp2 script of (ok1, _, vchTx, pc1) \<Rightarrow>
        if \<not> ok1 \<or> length vchTx \<noteq> 32 then (script, sols)
        else (case GetOp2 pc1 of (ok2, _, vchColor, pc2) \<Rightarrow>
          if \<not> ok2 \<or> length vchColor \<noteq> 20 then (script, sols)
          else (case GetOp2 pc2 of (ok3, opcode, _, pc3) \<Rightarrow>
            if \<not> ok3 \<or> opcode \<noteq> OP_CHECKALTPROOF then (script, sols)
            else (pc3, case alt vchColor vchTx of None \<Rightarrow> sols | Some ok \<Rightarrow> sols @ [bool_vch ok]))))"

fun scan_templates ::
  "(txnouttype \<times> script) list \<Rightarrow> script \<Rightarrow> valtype list \<Rightarrow> valtype list \<Rightarrow> (txnouttype \<times> valtype list) + valtype list" where
  "scan_templates [] script vSolutions solsRet = Inr solsRet"
| "scan_templates ((typ, tplate) # ts) script vSolutions solsRet =
     (case match_template script tplate vSolutions of
        (True, sols) \<Rightarrow> Inl (typ, sols)
      | (False, sols) \<Rightarrow> scan_templates ts script vSolutions sols)"

definition multisig_check :: "valtype list \<Rightarrow> bool res" where
  "multisig_check sols =
     (if sols = [] \<or> hd sols = [] \<or> last sols = [] then Segv
      else (let m = unat (hd (hd sols)); n = unat (hd (last sols)) in
            Ret (\<not> (m < 1 \<or> n < 1 \<or> m > n \<or> length sols \<noteq> n + 2))))"

definition witness_type :: "nat \<Rightarrow> valtype \<Rightarrow> txnouttype option" where
  "witness_type version program =
     (if version = 0 \<and> length program = 20 then Some TX_WITNESS_V0_KEYHASH
      else if version = 0 \<and> length program = 32 then Some TX_WITNESS_V0_SCRIPTHASH
      else if version = 14 \<and> length program = 20 then Some TX_WITNESS_V14_KEYHASH
      else if version = 14 \<and> length program = 32 then Some TX_WITNESS_V14_SCRIPTHASH
      else None)"

definition core_CScript_IsPushOnly :: "script \<Rightarrow> nat \<Rightarrow> bool" where
  "core_CScript_IsPushOnly script offs = IsPushOnly (drop offs script)"

text \<open>
  The result is the value returned and what the two reference parameters hold afterwards. Reading
  the first byte of an empty solution is undefined.
\<close>

definition Solver :: "alt_chains \<Rightarrow> script \<Rightarrow> txnouttype \<Rightarrow> valtype list \<Rightarrow> (bool \<times> txnouttype \<times> valtype list) res" where
  "Solver alt scriptPubKey typeRet vSolutionsRet =
     (let scriptPubKeyCopy = snd (RemoveExtOutputPrefix scriptPubKey) in
      if IsPayToScriptHash scriptPubKeyCopy
      then Ret (True, TX_SCRIPTHASH, vSolutionsRet @ [take 20 (drop 2 scriptPubKeyCopy)])
      else (case IsWitnessProgram scriptPubKeyCopy of
        Some (version, program) \<Rightarrow>
          (case witness_type version program of
             None \<Rightarrow> Ret (False, typeRet, vSolutionsRet)
           | Some typ \<Rightarrow> Ret (True, typ, vSolutionsRet @ [program]))
      | None \<Rightarrow>
        (case SolverCheckAltProof alt scriptPubKeyCopy [] of (script1, vSolutions) \<Rightarrow>
          (case scan_templates mTemplates script1 vSolutions vSolutionsRet of
             Inl (typ, sols) \<Rightarrow>
               (if typ = TX_MULTISIG then andThen (multisig_check sols) (\<lambda>ok. Ret (ok, typ, sols))
                else Ret (True, typ, sols))
           | Inr sols \<Rightarrow>
               (if length script1 \<ge> 1 \<and> unat (hd script1) = OP_RETURN \<and> core_CScript_IsPushOnly script1 1
                then Ret (True, TX_RETURN, sols)
                else Ret (False, TX_NONSTANDARD, []))))))"

definition ScriptSigArgsExpected :: "txnouttype \<Rightarrow> valtype list \<Rightarrow> int" where
  "ScriptSigArgsExpected t vSolutions =
     (case t of
        TX_NONSTANDARD \<Rightarrow> -1
      | TX_PUBKEY \<Rightarrow> 1
      | TX_PUBKEYHASH \<Rightarrow> 2
      | TX_MULTISIG \<Rightarrow>
          (if length vSolutions < 1 \<or> length (vSolutions ! 0) < 1 then -1 else int (unat (vSolutions ! 0 ! 0)) + 1)
      | TX_SCRIPTHASH \<Rightarrow> 1
      | TX_WITNESS_V0_SCRIPTHASH \<Rightarrow> 0
      | TX_WITNESS_V0_KEYHASH \<Rightarrow> 0
      | TX_WITNESS_V14_SCRIPTHASH \<Rightarrow> 0
      | TX_WITNESS_V14_KEYHASH \<Rightarrow> 0
      | _ \<Rightarrow> -1)"

definition IsStandard :: "alt_chains \<Rightarrow> script \<Rightarrow> bool res" where
  "IsStandard alt scriptPubKey =
     andThen (Solver alt scriptPubKey TX_NONSTANDARD [])
       (\<lambda>(ok, whichType, vSolutions).
          if \<not> ok then Ret False
          else if whichType = TX_MULTISIG
          then (let m = unat (hd (hd vSolutions)); n = unat (hd (last vSolutions)) in
                Ret (\<not> (n < 1 \<or> n > 20 \<or> m < 1 \<or> m > n)))
          else Ret (whichType \<noteq> TX_NONSTANDARD))"

section \<open>Destinations\<close>

datatype CTxDestination =
    CNoDestination
  | CKeyID valtype
  | CScriptID valtype
  | WitnessV0ScriptHash valtype
  | WitnessV0KeyHash valtype
  | WitnessV14ScriptHash valtype
  | WitnessV14KeyHash valtype
  | WitnessUnknown nat valtype

definition GetScriptForDestination :: "CTxDestination \<Rightarrow> script option" where
  "GetScriptForDestination dest =
     (case dest of
        CNoDestination \<Rightarrow> Some []
      | CKeyID keyID \<Rightarrow> Some (put_op OP_DUP @ put_op OP_HASH160 @ put_vch keyID @ put_op OP_EQUALVERIFY @ put_op OP_CHECKSIG)
      | CScriptID scriptID \<Rightarrow> Some (put_op OP_HASH160 @ put_vch scriptID @ put_op OP_EQUAL)
      | WitnessV0KeyHash h \<Rightarrow> Some (put_op OP_0 @ put_vch h)
      | WitnessV0ScriptHash h \<Rightarrow> Some (put_op OP_0 @ put_vch h)
      | WitnessV14KeyHash h \<Rightarrow> Some (put_op OP_14 @ put_vch h)
      | WitnessV14ScriptHash h \<Rightarrow> Some (put_op OP_14 @ put_vch h)
      | WitnessUnknown version program \<Rightarrow> map_option (\<lambda>opcode. put_op opcode @ put_vch program) (EncodeOP_N (int version)))"

definition SetMultisig :: "nat \<Rightarrow> valtype list \<Rightarrow> script option" where
  "SetMultisig nRequired keys =
     (case (EncodeOP_N (int nRequired), EncodeOP_N (int (length keys))) of
        (Some m, Some n) \<Rightarrow> Some (put_op m @ concat (map put_vch keys) @ put_op n @ put_op OP_CHECKMULTISIG)
      | _ \<Rightarrow> None)"

definition uint160_vch :: "valtype \<Rightarrow> valtype" where
  "uint160_vch vch = (if length vch = 20 then vch else replicate 20 0)"

definition ExtractDestination :: "alt_chains \<Rightarrow> (valtype \<Rightarrow> valtype) \<Rightarrow> script \<Rightarrow> CTxDestination option res" where
  "ExtractDestination alt hash160 scriptPubKey =
     andThen (Solver alt scriptPubKey TX_NONSTANDARD [])
       (\<lambda>(ok, whichType, vSolutions).
          if \<not> ok then Ret None
          else (case whichType of
             TX_PUBKEY \<Rightarrow> Ret (Some (CKeyID (hash160 (vSolutions ! 0))))
           | TX_PUBKEYHASH \<Rightarrow> Ret (Some (CKeyID (uint160_vch (vSolutions ! 0))))
           | TX_SCRIPTHASH \<Rightarrow> Ret (Some (CScriptID (uint160_vch (vSolutions ! 0))))
           | TX_RETURN \<Rightarrow> Ret (Some (CKeyID (replicate 20 0)))
           | TX_WITNESS_V0_KEYHASH \<Rightarrow> Ret (Some (WitnessV0KeyHash (vSolutions ! 0)))
           | TX_WITNESS_V0_SCRIPTHASH \<Rightarrow> Ret (Some (WitnessV0ScriptHash (vSolutions ! 0)))
           | TX_WITNESS_V14_KEYHASH \<Rightarrow> Ret (Some (WitnessV14KeyHash (vSolutions ! 0)))
           | TX_WITNESS_V14_SCRIPTHASH \<Rightarrow> Ret (Some (WitnessV14ScriptHash (vSolutions ! 0)))
           | TX_WITNESS_UNKNOWN \<Rightarrow> Ret (Some (WitnessUnknown (unat (vSolutions ! 0 ! 0)) (vSolutions ! 1)))
           | _ \<Rightarrow> Ret None))"

text \<open>The type, the number of signatures and the destinations.\<close>

definition ExtractDestinations ::
  "alt_chains \<Rightarrow> (valtype \<Rightarrow> valtype) \<Rightarrow> script \<Rightarrow> (txnouttype \<times> nat \<times> CTxDestination list) option res" where
  "ExtractDestinations alt hash160 scriptPubKey =
     andThen (Solver alt scriptPubKey TX_NONSTANDARD [])
       (\<lambda>(ok, typeRet, vSolutions).
          if \<not> ok then Ret None
          else if typeRet = TX_MULTISIG
          then Ret (Some (typeRet, unat (hd (hd vSolutions)), map (\<lambda>v. CKeyID (hash160 v)) (butlast (tl vSolutions))))
          else andThen (ExtractDestination alt hash160 scriptPubKey)
            (\<lambda>addr. Ret (map_option (\<lambda>address. (typeRet, 1, [address])) addr)))"

end
