(* ===== verification/Script_Dest.thy ===== *)
theory Script_Dest
  imports Script_Solver
begin

text \<open>
  What \<open>Solver\<close> and the destinations give for the standard outputs: rounds over known
  instructions, each kind of output, and the properties (round trips of destinations, multiple
  signatures, prefixes of extended transactions, and the crash on a failed proof).
\<close>

section \<open>Rounds over known instructions\<close>

lemma GetOp2_Nil [simp]: "GetOp2 [] = (False, OP_INVALIDOPCODE, [], [])"
  by (simp add: GetOp2_def)

lemma put_op_nonempty [simp]: "put_op opcode \<noteq> []"
  by (simp add: put_op_def)

lemma match_template_round:
  "template_step a b s = Inr (a', b', s') \<Longrightarrow> match_template a b s = match_template a' b' s'"
  "template_step a b s = Inl r \<Longrightarrow> match_template a b s = r"
  by (simp_all add: match_template.simps)

text \<open>An opcode without data, that is not followed by OP_DROP.\<close>

definition plain_op :: "opcode \<Rightarrow> bool" where
  "plain_op opcode \<longleftrightarrow> OP_PUSHDATA4 < opcode \<and> opcode < 256 \<and> opcode \<noteq> OP_IF \<and> opcode \<noteq> OP_ELSE \<and> opcode \<noteq> OP_ENDIF"

definition drop_free :: "script \<Rightarrow> bool" where
  "drop_free pc \<longleftrightarrow> fst (GetOp2 pc) \<longrightarrow> fst (snd (GetOp2 pc)) \<noteq> OP_DROP"

lemma drop_free_simps [simp]: "drop_free []"
  "OP_PUSHDATA4 < opcode \<Longrightarrow> opcode < 256 \<Longrightarrow> drop_free (put_op opcode @ r) \<longleftrightarrow> opcode \<noteq> OP_DROP"
  "length b < 4294967296 \<Longrightarrow> drop_free (put_vch b @ r)"
  using vch_opcode_le [of b] by (auto simp: drop_free_def GetOp2_op GetOp2_put_vch)

lemma template_step_op:
  assumes "plain_op opcode" "drop_free r" "GetOp2 tp = (True, opcode2, vch2, tp')" "opcode2 \<noteq> OP_PUBKEYS"
  shows "template_step (put_op opcode @ r) tp sols =
    (case match_op opcode2 vch2 opcode [] sols of None \<Rightarrow> Inl (False, sols) | Some s \<Rightarrow> Inr (r, tp', s))"
proof -
  have g: "GetOp2 (put_op opcode @ r) = (True, opcode, [], r)" "put_op opcode @ r \<noteq> []"
    using assms(1) by (simp_all add: GetOp2_op plain_op_def)
  have "RemoveSolverDropPrefix (opcode, [], r) = (opcode, [], r)"
    using assms(2) by (auto simp: RemoveSolverDropPrefix_def drop_free_def split: prod.splits)
  then show ?thesis
    using assms g by (simp add: template_step_def solver_if_def template_match_def template_keys_def plain_op_def Let_def)
qed

lemma template_step_vch:
  assumes "b \<noteq> []" "length b < 4294967296" "plain_op opcode" "drop_free r" "GetOp2 tp = (True, opcode2, vch2, tp')" "opcode2 \<noteq> OP_PUBKEYS"
  shows "template_step (put_vch b @ put_op opcode @ r) tp sols =
    (case match_op opcode2 vch2 (vch_opcode b) b sols of None \<Rightarrow> Inl (False, sols) | Some s \<Rightarrow> Inr (put_op opcode @ r, tp', s))"
proof -
  have g: "GetOp2 (put_vch b @ put_op opcode @ r) = (True, vch_opcode b, b, put_op opcode @ r)"
    "put_vch b @ put_op opcode @ r \<noteq> []" "GetOp2 (put_op opcode @ r) = (True, opcode, [], r)"
    using assms(2,3) by (simp_all add: GetOp2_op GetOp2_put_vch plain_op_def)
  have n: "vch_opcode b \<le> OP_PUSHDATA4" "vch_opcode b \<noteq> OP_IF" "vch_opcode b \<noteq> OP_ELSE" "vch_opcode b \<noteq> OP_ENDIF"
    using vch_opcode_le [of b] by auto
  have "RemoveSolverDropPrefix (vch_opcode b, b, put_op opcode @ r) = (vch_opcode b, b, put_op opcode @ r)"
    using assms(1,4) g(3) by (auto simp: RemoveSolverDropPrefix_def drop_free_def split: prod.splits)
  then show ?thesis
    using assms g n by (simp add: template_step_def solver_if_def template_match_def template_keys_def Let_def)
qed

lemma template_GetOp2: "GetOp2 (put_op opcode) = (True, opcode, [], [])" if "OP_PUSHDATA4 < opcode" "opcode < 256"
  using GetOp2_op [OF that, of "[]"] by simp

lemma template_step_end: "template_step [] [] sols = Inl (True, sols)"
  by (simp add: template_step_def)

lemmas round_simps = match_template_round template_step_op template_step_vch template_step_end template_GetOp2 GetOp2_op
  plain_op_def match_op_def

section \<open>Payment to a key hash\<close>

lemma Solver_p2pkh:
  assumes "length h = 20"
  shows "Solver alt (p2pkh h) typ [] = Ret (True, TX_PUBKEYHASH, [h])"
proof -
  let ?s = "put_op OP_DUP @ put_op OP_HASH160 @ put_vch h @ put_op OP_EQUALVERIFY @ put_op OP_CHECKSIG @ []"
  have s: "p2pkh h = ?s"
    by (simp add: p2pkh_def)
  have g: "GetOp2 ?s = (True, OP_DUP, [], put_op OP_HASH160 @ put_vch h @ put_op OP_EQUALVERIFY @ put_op OP_CHECKSIG @ [])"
    by (rule GetOp2_op) simp_all
  have ext: "RemoveExtOutputPrefix ?s = (False, ?s)" "SolverCheckAltProof alt ?s [] = (?s, [])"
    by (simp_all add: RemoveExtOutputPrefix_def SolverCheckAltProof_def g del: append_Nil2)
  have "h \<noteq> []"
    using assms by auto
  then have m: "match_template ?s (put_op OP_PUBKEY @ put_op OP_CHECKSIG) [] = (False, [])"
    "match_template ?s (put_op OP_DUP @ put_op OP_HASH160 @ put_op OP_PUBKEYHASH @ put_op OP_EQUALVERIFY @ put_op OP_CHECKSIG) [] = (True, [h])"
    using assms by (simp_all add: round_simps del: append_Nil2)
  show ?thesis
    unfolding Solver_def s ext Let_def using form_p2pkh [OF assms, unfolded s] m
    by (simp add: ext mTemplates_def del: append_Nil2)
qed

section \<open>Payment to a script hash and to witness programs\<close>

lemma no_ext_prefix: "s \<noteq> [] \<Longrightarrow> unat (hd s) < 0xf0 \<Longrightarrow> RemoveExtOutputPrefix s = (False, s)"
  by (cases s) (auto simp: RemoveExtOutputPrefix_def GetOp2_def Let_def split: option.splits)

lemma Solver_p2sh:
  assumes "length h = 20"
  shows "Solver alt (p2sh h) typ [] = Ret (True, TX_SCRIPTHASH, [h])"
proof -
  have "RemoveExtOutputPrefix (p2sh h) = (False, p2sh h)"
    by (rule no_ext_prefix) (simp_all add: p2sh_def put_op_def)
  moreover have "take 20 (drop 2 (p2sh h)) = h"
    using assms by (simp add: p2sh_def put_op_def put_vch_20)
  ultimately show ?thesis
    using form_p2sh(2) [OF assms] by (simp add: Solver_def)
qed

lemma Solver_wit_script:
  assumes "v \<le> 16" "2 \<le> length program" "length program \<le> 40"
  shows "Solver alt (wit_script v program) typ [] =
    (case witness_type v program of None \<Rightarrow> Ret (False, typ, []) | Some t \<Rightarrow> Ret (True, t, [program]))"
proof -
  have "RemoveExtOutputPrefix (wit_script v program) = (False, wit_script v program)"
    using assms(1) by (intro no_ext_prefix) (simp_all add: wit_script_def small_op_def put_op_def)
  then show ?thesis
    using form_wit_script [OF assms] by (simp add: Solver_def split: option.splits)
qed

section \<open>Multiple signatures\<close>

definition key_sizes :: "valtype list \<Rightarrow> bool" where
  "key_sizes keys \<longleftrightarrow> list_all (\<lambda>k. 33 \<le> length k \<and> length k \<le> 120) keys"

lemma take_pubkeys_all:
  assumes "key_sizes (k # ks)" "OP_PUSHDATA4 < opcode" "opcode < 256"
  shows "take_pubkeys (vch_opcode k, k, push_list ks @ put_op opcode @ r) sols = ((opcode, [], r), sols @ k # ks)"
  using assms
proof (induction ks arbitrary: k sols)
  case Nil
  then show ?case
    by (subst take_pubkeys.simps) (simp add: GetOp2_op take_pubkeys.simps key_sizes_def)
next
  case (Cons k' ks)
  then show ?case
    by (subst take_pubkeys.simps) (simp add: GetOp2_put_vch key_sizes_def)
qed

lemma keys_drop_prefix:
  assumes "key_sizes ks" "k \<noteq> []" "OP_PUSHDATA4 < opcode" "opcode < 256" "opcode \<noteq> OP_DROP" "drop_free r"
  shows "RemoveSolverDropPrefix (vch_opcode k, k, push_list ks @ put_op opcode @ r) =
    (vch_opcode k, k, push_list ks @ put_op opcode @ r)"
proof (cases ks)
  case Nil
  then show ?thesis
    using assms by (auto simp: RemoveSolverDropPrefix_def GetOp2_op drop_free_def split: prod.splits)
next
  case (Cons k' ks')
  have "drop_free (push_list ks' @ put_op opcode @ r)"
    using assms Cons by (cases ks') (simp_all add: key_sizes_def)
  then show ?thesis
    using assms(1,2) Cons
    by (auto simp: RemoveSolverDropPrefix_def GetOp2_put_vch key_sizes_def drop_free_def split: prod.splits)
qed

lemma template_step_keys:
  assumes "key_sizes (k # ks)" "OP_PUSHDATA4 < opcode" "opcode < 256" "opcode \<noteq> OP_DROP" "drop_free r"
  shows "template_step (put_vch k @ push_list ks @ put_op opcode @ r)
      (put_op OP_PUBKEYS @ put_op OP_SMALLINTEGER @ tp) sols =
    (case match_op OP_SMALLINTEGER [] opcode [] (sols @ k # ks) of
       None \<Rightarrow> Inl (False, sols @ k # ks) | Some s \<Rightarrow> Inr (r, tp, s))"
proof -
  have k: "k \<noteq> []" "length k < 4294967296" "put_vch k @ push_list ks @ put_op opcode @ r \<noteq> []"
    using assms(1) by (auto simp: key_sizes_def)
  have ks: "key_sizes ks"
    using assms(1) by (simp add: key_sizes_def)
  have n: "vch_opcode k \<noteq> OP_IF" "vch_opcode k \<noteq> OP_ELSE" "vch_opcode k \<noteq> OP_ENDIF"
    using vch_opcode_le [of k] by auto
  show ?thesis
    using k n take_pubkeys_all [OF assms(1-3)] keys_drop_prefix [OF ks k(1) assms(2-5)]
    by (simp add: template_step_def GetOp2_put_vch solver_if_def template_match_def template_keys_def GetOp2_op Let_def)
qed

lemma form_multisig:
  assumes "key_sizes keys" "keys \<noteq> []" "1 \<le> m" "m \<le> 16"
  shows "IsWitnessProgram (multisig m keys) = None" "\<not> IsPayToScriptHash (multisig m keys)"
    "RemoveExtOutputPrefix (multisig m keys) = (False, multisig m keys)"
    "SolverCheckAltProof alt (multisig m keys) [] = (multisig m keys, [])"
proof -
  obtain k ks where ks: "keys = k # ks" "33 \<le> length k" "length k \<le> 120"
    using assms(1,2) by (cases keys) (auto simp: key_sizes_def)
  define r where "r = push_list ks @ small_op (length keys) @ put_op OP_CHECKMULTISIG"
  have s: "multisig m keys = put_op (80 + m) @ put_vch k @ r"
    using assms(3) by (simp add: multisig_def small_op_def ks r_def)
  have g: "GetOp2 (multisig m keys) = (True, 80 + m, [], put_vch k @ r)"
    unfolding s using assms(3,4) by (intro GetOp2_op) simp_all
  have r: "2 \<le> length r"
    by (simp add: r_def small_op_def put_op_def)
  have hd: "unat (hd (multisig m keys)) = 80 + m"
    using assms(4) by (simp add: s put_op_def)
  show "IsWitnessProgram (multisig m keys) = None"
  proof (cases "length k < 76")
    case True
    then have "put_vch k = byte_of (length k) # k"
      by (simp add: put_vch_def)
    then show ?thesis
      using assms(4) True r by (simp add: IsWitnessProgram_def wit_version_def g) (auto simp: s put_op_def Let_def)
  next
    case False
    then have "42 < length (put_vch k)"
      by (simp add: put_vch_def)
    then show ?thesis
      using assms(4) by (simp add: IsWitnessProgram_def wit_version_def g)
  qed
  show "\<not> IsPayToScriptHash (multisig m keys)"
    using assms(3,4) ks(2) by (auto simp: IsPayToScriptHash_def s put_op_def put_vch_def)
  show "RemoveExtOutputPrefix (multisig m keys) = (False, multisig m keys)"
    using assms(4) hd by (intro no_ext_prefix) (simp_all add: s)
  show "SolverCheckAltProof alt (multisig m keys) [] = (multisig m keys, [])"
    by (simp add: SolverCheckAltProof_def g)
qed

lemma multisig_templates:
  assumes "key_sizes keys" "1 \<le> m" "m \<le> length keys" "length keys \<le> 16"
  shows "scan_templates mTemplates (multisig m keys) sols s0 =
    Inl (TX_MULTISIG, sols @ [byte_of m] # keys @ [[byte_of (length keys)]])"
proof -
  let ?n = "length keys"
  obtain k ks where ks: "keys = k # ks"
    using assms(2,3) by (cases keys) auto
  have s: "multisig m keys = put_op (80 + m) @ put_vch k @ push_list ks @ put_op (80 + ?n) @ put_op OP_CHECKMULTISIG @ []"
    using assms(2,3) by (simp add: multisig_def small_op_def ks)
  have klen: "length k < 4294967296"
    using assms(1) ks by (simp add: key_sizes_def)
  have m1: "match_template (multisig m keys) (put_op OP_PUBKEY @ put_op OP_CHECKSIG) sols = (False, sols)"
    unfolding s using assms(2-4) klen by (simp add: round_simps del: append_Nil2)
  have m2: "match_template (multisig m keys) (put_op OP_DUP @ put_op OP_HASH160 @ put_op OP_PUBKEYHASH @ put_op OP_EQUALVERIFY @ put_op OP_CHECKSIG) sols = (False, sols)"
    unfolding s using assms(2-4) klen by (simp add: round_simps del: append_Nil2)
  have "match_template (multisig m keys) (put_op OP_SMALLINTEGER @ put_op OP_PUBKEYS @ put_op OP_SMALLINTEGER @ put_op OP_CHECKMULTISIG) sols =
      match_template (put_vch k @ push_list ks @ put_op (80 + ?n) @ put_op OP_CHECKMULTISIG @ [])
        (put_op OP_PUBKEYS @ put_op OP_SMALLINTEGER @ put_op OP_CHECKMULTISIG) (sols @ [[byte_of m]])"
    unfolding s using assms(2-4) klen by (subst match_template_round(1)) (simp_all add: round_simps DecodeOP_N_def del: append_Nil2)
  also have "\<dots> = match_template (put_op OP_CHECKMULTISIG @ []) (put_op OP_CHECKMULTISIG) (sols @ [byte_of m] # keys @ [[byte_of ?n]])"
    using assms ks by (subst match_template_round(1)) (simp_all add: template_step_keys match_op_def DecodeOP_N_def del: append_Nil2)
  also have "\<dots> = (True, sols @ [byte_of m] # keys @ [[byte_of ?n]])"
    by (simp add: round_simps del: append_Nil2)
  finally show ?thesis
    using m1 m2 by (simp add: mTemplates_def)
qed

lemma Solver_multisig:
  assumes "key_sizes keys" "1 \<le> m" "m \<le> length keys" "length keys \<le> 16"
  shows "Solver alt (multisig m keys) typ [] = Ret (True, TX_MULTISIG, [byte_of m] # keys @ [[byte_of (length keys)]])"
proof -
  have k: "keys \<noteq> []" "m \<le> 16"
    using assms(2-4) by auto
  from form_multisig [OF assms(1) k(1) assms(2) k(2)] show ?thesis
    using assms k multisig_templates [OF assms] by (simp add: Solver_def multisig_check_def Let_def)
qed

lemma SetMultisig_eq:
  assumes "1 \<le> m" "m \<le> length keys" "length keys \<le> 16"
  shows "SetMultisig m keys = Some (multisig m keys)"
proof -
  have "EncodeOP_N (int m) = Some (80 + m)" "EncodeOP_N (int (length keys)) = Some (80 + length keys)"
    using assms by (auto simp: EncodeOP_N_def)
  then show ?thesis
    using assms by (simp add: SetMultisig_def multisig_def small_op_def push_list_def)
qed

lemma Solver_altproof_multisig:
  assumes "key_sizes keys" "1 \<le> m" "m \<le> length keys" "length keys \<le> 16"
    "length tx = 32" "length color = 20" "alt color tx = Some False"
  shows "Solver alt (put_vch tx @ put_vch color @ put_op OP_CHECKALTPROOF @ multisig m keys) typ [] = Segv"
proof -
  let ?s = "put_vch tx @ put_vch color @ put_op OP_CHECKALTPROOF @ multisig m keys"
  have s: "?s = 32 # tx @ put_vch color @ put_op OP_CHECKALTPROOF @ multisig m keys"
    using assms(5) by (simp add: put_vch_def byte_of_def)
  have g: "GetOp2 ?s = (True, 32, tx, put_vch color @ put_op OP_CHECKALTPROOF @ multisig m keys)"
    "GetOp2 (put_vch color @ put_op OP_CHECKALTPROOF @ multisig m keys) = (True, 20, color, put_op OP_CHECKALTPROOF @ multisig m keys)"
    "GetOp2 (put_op OP_CHECKALTPROOF @ multisig m keys) = (True, OP_CHECKALTPROOF, [], multisig m keys)"
    using GetOp2_put_vch [of tx] GetOp2_put_vch [of color] assms(5,6) by (simp_all add: vch_opcode_def GetOp2_op)
  have "RemoveExtOutputPrefix ?s = (False, ?s)" "IsWitnessProgram ?s = None"
    by (simp_all add: RemoveExtOutputPrefix_def IsWitnessProgram_def wit_version_def g)
  moreover have "\<not> IsPayToScriptHash ?s"
    using assms(5) by (simp add: s IsPayToScriptHash_def)
  moreover have "SolverCheckAltProof alt ?s [] = (multisig m keys, [[]])"
    using assms(5-) by (simp add: SolverCheckAltProof_def g bool_vch_def vchFalse_def)
  ultimately show ?thesis
    using multisig_templates [OF assms(1-4), of "[[]]" "[]"] by (simp add: Solver_def multisig_check_def Let_def)
qed

section \<open>The prefix of an extended transaction\<close>

lemma seek_2drop_mid:
  "fst (script_ops mid) \<Longrightarrow> list_all (\<lambda>x. fst x \<noteq> OP_2DROP) (snd (script_ops mid)) \<Longrightarrow>
    seek_2drop (mid @ put_op OP_2DROP @ s) = Some s"
proof (induction mid rule: script_induct)
  case Nil
  then show ?case by (simp add: seek_2drop_op)
next
  case (Stop pc x)
  then show ?case by (simp add: script_ops_stop)
next
  case (Read pc opcode vch pc')
  then show ?case
    by (subst seek_2drop.simps) (simp add: GetOp2_append [OF Read(1)] script_ops_read [OF Read(1)])
qed

lemma RemoveExtOutputPrefix_prefix:
  assumes "0xf0 \<le> e" "e \<le> 0xf9" "1 \<le> k" "k \<le> 15" "fst (script_ops mid)"
    "list_all (\<lambda>x. fst x \<noteq> OP_2DROP) (snd (script_ops mid))"
  shows "RemoveExtOutputPrefix (put_op e @ small_op k @ mid @ put_op OP_2DROP @ s) = (True, s)"
  using assms seek_2drop_mid [OF assms(5,6)] by (simp add: RemoveExtOutputPrefix_def GetOp2_op small_op_def)

section \<open>Properties\<close>

definition dest_ok :: "CTxDestination \<Rightarrow> bool" where
  "dest_ok d =
     (case d of
        CKeyID h \<Rightarrow> length h = 20
      | CScriptID h \<Rightarrow> length h = 20
      | WitnessV0KeyHash h \<Rightarrow> length h = 20
      | WitnessV0ScriptHash h \<Rightarrow> length h = 32
      | WitnessV14KeyHash h \<Rightarrow> length h = 20
      | WitnessV14ScriptHash h \<Rightarrow> length h = 32
      | _ \<Rightarrow> False)"

lemma GetScriptForDestination_forms:
  "GetScriptForDestination (CKeyID h) = Some (p2pkh h)"
  "GetScriptForDestination (CScriptID h) = Some (p2sh h)"
  "GetScriptForDestination (WitnessV0KeyHash h) = Some (wit_script 0 h)"
  "GetScriptForDestination (WitnessV0ScriptHash h) = Some (wit_script 0 h)"
  "GetScriptForDestination (WitnessV14KeyHash h) = Some (wit_script 14 h)"
  "GetScriptForDestination (WitnessV14ScriptHash h) = Some (wit_script 14 h)"
  "1 \<le> v \<Longrightarrow> v \<le> 16 \<Longrightarrow> GetScriptForDestination (WitnessUnknown v h) = Some (wit_script v h)"
  by (simp_all add: GetScriptForDestination_def p2pkh_def p2sh_def wit_script_def small_op_def EncodeOP_N_def)

lemma ExtractDestination_dest:
  assumes "dest_ok d" "GetScriptForDestination d = Some s"
  shows "ExtractDestination alt hash160 s = Ret (Some d)"
proof (cases d)
  case (CKeyID h)
  then have "s = p2pkh h" "length h = 20"
    using assms by (simp_all add: GetScriptForDestination_forms dest_ok_def)
  then show ?thesis
    by (simp add: ExtractDestination_def Solver_p2pkh uint160_vch_def CKeyID)
next
  case (CScriptID h)
  then have "s = p2sh h" "length h = 20"
    using assms by (simp_all add: GetScriptForDestination_forms dest_ok_def)
  then show ?thesis
    by (simp add: ExtractDestination_def Solver_p2sh uint160_vch_def CScriptID)
qed (use assms in \<open>auto simp: GetScriptForDestination_forms dest_ok_def ExtractDestination_def Solver_wit_script witness_type_def\<close>)

text \<open>
  C34. From a destination to its script and back. For a key hash, a script hash and the witness
  hashes of versions 0 and 14, the destination read from the script that pays to it is the
  destination itself.
\<close>

theorem destination_roundtrip:
  assumes "dest_ok d" "GetScriptForDestination d = Some s"
  shows "ExtractDestination alt hash160 s = Ret (Some d)"
  using assms by (rule ExtractDestination_dest)

theorem destination_roundtrip_witness:
  "ExtractDestination (\<lambda>c t. None) (\<lambda>v. v) (put_op OP_14 @ put_vch (replicate 32 7)) =
    Ret (Some (WitnessV14ScriptHash (replicate 32 7)))"
  by (rule destination_roundtrip) (simp_all add: dest_ok_def GetScriptForDestination_def)

text \<open>
  Witness programs of other versions have no destination: the script of a
  \<open>WitnessUnknown\<close> destination is not recognised, although the code for that type is there.
\<close>

lemma destination_unknown_lost:
  assumes "v \<le> 16" "v \<noteq> 0" "v \<noteq> 14" "2 \<le> length program" "length program \<le> 40"
    "GetScriptForDestination (WitnessUnknown v program) = Some s"
  shows "ExtractDestination alt hash160 s = Ret None"
  using assms by (auto simp: GetScriptForDestination_forms ExtractDestination_def Solver_wit_script witness_type_def)

text \<open>
  Multiple signatures: the script made for m of n keys of 33 to 120 bytes is recognised, with the
  number m and the destinations of all keys in their order.
\<close>

lemma multisig_destinations:
  assumes "key_sizes keys" "1 \<le> m" "m \<le> length keys" "length keys \<le> 16" "SetMultisig m keys = Some s"
  shows "ExtractDestinations alt hash160 s = Ret (Some (TX_MULTISIG, m, map (\<lambda>k. CKeyID (hash160 k)) keys))"
  using assms by (auto simp: SetMultisig_eq ExtractDestinations_def Solver_multisig)

text \<open>
  The prefix of an extended transaction does not change what \<open>Solver\<close> finds: it gives the
  result for the script behind the prefix.
\<close>

lemma Solver_ext_prefix:
  assumes "0xf0 \<le> e" "e \<le> 0xf9" "1 \<le> k" "k \<le> 15" "fst (script_ops mid)"
    "list_all (\<lambda>x. fst x \<noteq> OP_2DROP) (snd (script_ops mid))" "RemoveExtOutputPrefix s = (False, s)"
  shows "Solver alt (put_op e @ small_op k @ mid @ put_op OP_2DROP @ s) typ sols = Solver alt s typ sols"
  using assms(7) RemoveExtOutputPrefix_prefix [OF assms(1-6)] by (simp add: Solver_def)

text \<open>
  C38. The crash of \<open>Solver\<close>: behind a proof of another chain that does not hold, a script for
  multiple signatures is matched with an empty first solution, whose first byte is then read.
\<close>

theorem Solver_altproof_crash:
  assumes "key_sizes keys" "1 \<le> m" "m \<le> length keys" "length keys \<le> 16"
    "length tx = 32" "length color = 20" "alt color tx = Some False"
  shows "Solver alt (put_vch tx @ put_vch color @ put_op OP_CHECKALTPROOF @ multisig m keys) typ [] = Segv"
  using assms by (rule Solver_altproof_multisig)

theorem Solver_altproof_crash_witness:
  "Solver (\<lambda>c t. Some False) (put_vch (replicate 32 1) @ put_vch (replicate 20 2) @ put_op OP_CHECKALTPROOF
     @ multisig 1 [replicate 33 3]) TX_NONSTANDARD [] = Segv"
  by (rule Solver_altproof_crash) (simp_all add: key_sizes_def)

end
