(* ===== verification/Base58.thy ===== *)
theory Base58
  imports Script_Num
begin

text \<open>
  Base58 and Base58Check (server/base58.cpp, server/base58.h): the conversion between bytes and
  text, with its big numbers, and the round trips.
\<close>

section \<open>The encoding\<close>

definition pszBase58 :: string where
  "pszBase58 = ''123456789ABCDEFGHJKLMNPQRSTUVWXYZabcdefghijkmnopqrstuvwxyz''"

text \<open>The digits of a number, the lowest first.\<close>

function base58_digits :: "nat \<Rightarrow> string" where
  "base58_digits bn = (if bn > 0 then pszBase58 ! (bn mod 58) # base58_digits (bn div 58) else [])"
  by pat_completeness auto
termination
  by (relation "measure id") auto

declare base58_digits.simps [simp del]

definition EncodeBase58 :: "byte list \<Rightarrow> string" where
  "EncodeBase58 vch =
     (let bn = snd (bn_setvch (rev vch @ [0]));
          str = base58_digits bn @ map (\<lambda>_. pszBase58 ! 0) (takeWhile (\<lambda>b. b = 0) vch)
      in rev str)"

definition c_isspace :: "char \<Rightarrow> bool" where
  "c_isspace c \<longleftrightarrow> c = CHR '' '' \<or> (9 \<le> (of_char c :: nat) \<and> (of_char c :: nat) \<le> 13)"

fun strchr_pos :: "string \<Rightarrow> char \<Rightarrow> nat option" where
  "strchr_pos [] c = None"
| "strchr_pos (x # xs) c = (if x = c then Some 0 else map_option Suc (strchr_pos xs c))"

fun base58_value :: "string \<Rightarrow> nat \<Rightarrow> nat option" where
  "base58_value [] bn = Some bn"
| "base58_value (c # p) bn =
     (case strchr_pos pszBase58 c of
        None \<Rightarrow> if dropWhile c_isspace (c # p) \<noteq> [] then None else Some bn
      | Some d \<Rightarrow> base58_value p (bn * 58 + d))"

definition DecodeBase58 :: "string \<Rightarrow> byte list option" where
  "DecodeBase58 str =
     (let psz = dropWhile c_isspace str in
      case base58_value psz 0 of
        None \<Rightarrow> None
      | Some bn \<Rightarrow>
        (let vch = bn_getvch (False, bn);
             vchTmp = (if length vch \<ge> 2 \<and> last vch = 0 \<and> top_bit (vch ! (length vch - 2)) then butlast vch else vch);
             nLeadingZeros = length (takeWhile (\<lambda>c. c = pszBase58 ! 0) psz)
         in Some (replicate nLeadingZeros 0 @ rev vchTmp)))"

section \<open>The checksum\<close>

text \<open>\<open>hash\<close> is the double SHA-256 of the crypto library.\<close>

definition EncodeBase58Check :: "(byte list \<Rightarrow> byte list) \<Rightarrow> byte list \<Rightarrow> string" where
  "EncodeBase58Check hash vchIn = EncodeBase58 (vchIn @ take 4 (hash vchIn))"

definition DecodeBase58Check :: "(byte list \<Rightarrow> byte list) \<Rightarrow> string \<Rightarrow> byte list option" where
  "DecodeBase58Check hash psz =
     (case DecodeBase58 psz of
        None \<Rightarrow> None
      | Some vch \<Rightarrow>
        if length vch < 4 then None
        else (let dat = take (length vch - 4) vch in
              if take 4 (hash dat) \<noteq> drop (length vch - 4) vch then None else Some dat))"

section \<open>Digits\<close>

lemma length_base58: "length pszBase58 = 58"
  by (simp add: pszBase58_def)

lemma distinct_base58: "distinct pszBase58"
  by (simp add: pszBase58_def)

lemma strchr_pos_nth: "distinct s \<Longrightarrow> i < length s \<Longrightarrow> strchr_pos s (s ! i) = Some i"
  by (induction s arbitrary: i) (auto simp: less_Suc_eq_0_disj)

lemma base58_pos: "d < 58 \<Longrightarrow> strchr_pos pszBase58 (pszBase58 ! d) = Some d"
  by (rule strchr_pos_nth) (simp_all add: length_base58 distinct_base58)

lemma base58_value_snoc:
  "base58_value p bn = Some n \<Longrightarrow> \<forall>c \<in> set p. strchr_pos pszBase58 c \<noteq> None \<Longrightarrow> d < 58 \<Longrightarrow>
    base58_value (p @ [pszBase58 ! d]) bn = Some (n * 58 + d)"
  by (induction p bn rule: base58_value.induct) (auto simp: base58_pos split: option.splits)

lemma base58_digits_0 [simp]: "base58_digits 0 = []"
  by (simp add: base58_digits.simps)

lemma base58_digits_chars: "c \<in> set (base58_digits n) \<Longrightarrow> c \<in> set pszBase58"
proof (induction n rule: base58_digits.induct)
  case (1 bn)
  have "pszBase58 ! (bn mod 58) \<in> set pszBase58"
    by (rule nth_mem) (simp add: length_base58)
  then show ?case
    using 1 by (subst (asm) base58_digits.simps) (auto split: if_splits)
qed

lemma strchr_pos_mem: "c \<in> set s \<Longrightarrow> strchr_pos s c \<noteq> None"
  by (induction s) auto

lemma base58_value_digits: "base58_value (rev (base58_digits n)) 0 = Some n"
proof (induction n rule: base58_digits.induct)
  case (1 bn)
  show ?case
  proof (cases "bn = 0")
    case False
    then have "base58_value (rev (base58_digits (bn div 58))) 0 = Some (bn div 58)"
      using 1 by simp
    then have "base58_value (rev (base58_digits (bn div 58)) @ [pszBase58 ! (bn mod 58)]) 0 = Some (bn div 58 * 58 + bn mod 58)"
      by (rule base58_value_snoc) (auto dest!: base58_digits_chars dest: strchr_pos_mem)
    moreover have "base58_digits bn = pszBase58 ! (bn mod 58) # base58_digits (bn div 58)"
      using False by (simp add: base58_digits.simps)
    ultimately show ?thesis
      by simp
  qed simp
qed

lemma last_base58_digits: "0 < n \<Longrightarrow> last (base58_digits n) \<noteq> pszBase58 ! 0"
proof (induction n rule: base58_digits.induct)
  case (1 bn)
  have d: "base58_digits bn = pszBase58 ! (bn mod 58) # base58_digits (bn div 58)"
    using 1(2) by (simp add: base58_digits.simps)
  show ?case
  proof (cases "bn div 58 = 0")
    case True
    then have "0 < bn mod 58"
      using 1(2) by (cases "bn mod 58 = 0") auto
    then have "pszBase58 ! (bn mod 58) \<noteq> pszBase58 ! 0"
      by (simp add: nth_eq_iff_index_eq distinct_base58 length_base58)
    with True show ?thesis by (simp add: d)
  next
    case False
    then have "base58_digits (bn div 58) \<noteq> []"
      by (simp add: base58_digits.simps)
    then show ?thesis
      using 1 False by (simp add: d)
  qed
qed

section \<open>Bytes\<close>

definition trim_sign :: "byte list \<Rightarrow> byte list" where
  "trim_sign vch = (if length vch \<ge> 2 \<and> last vch = 0 \<and> top_bit (vch ! (length vch - 2)) then butlast vch else vch)"

lemma trim_sign_getvch: "trim_sign (bn_getvch (False, n)) = le_bytes n"
proof (cases "n = 0")
  case True
  then show ?thesis
    by (simp add: trim_sign_def bn_getvch_def bn_num_bits.simps)
next
  case False
  have v: "bn_getvch (False, n) = (if top_bit (last (le_bytes n)) then le_bytes n @ [0] else le_bytes n)"
    using bn_getvch_int [of "int n"] False by (simp add: bn_of_int_def scriptnum_serialize_def Let_def)
  obtain xs b where x: "le_bytes n = xs @ [b]"
    using False by (cases "le_bytes n" rule: rev_cases) auto
  have "b \<noteq> 0"
    using last_le_bytes [of n] False by (simp add: x)
  then show ?thesis
    by (auto simp: v x trim_sign_def butlast_append)
qed

lemma vch_value_zeros [simp]: "vch_value (xs @ replicate k 0) = vch_value xs"
  by (induction k) (simp_all add: vch_value_append del: vch_value_snoc_0)

lemma lead_zeros: "replicate (length (takeWhile (\<lambda>b. b = c) v)) c @ dropWhile (\<lambda>b. b = c) v = v"
proof -
  have "takeWhile (\<lambda>b. b = c) v = replicate (length (takeWhile (\<lambda>b. b = c) v)) c"
    by (rule replicate_eqI [symmetric, THEN sym]) (auto dest: set_takeWhileD)
  then show ?thesis
    by (metis takeWhile_dropWhile_id)
qed

lemma value_rev_bytes: "le_bytes (vch_value (rev v)) = rev (dropWhile (\<lambda>b. b = 0) v)"
proof -
  let ?w = "dropWhile (\<lambda>b. b = 0) v"
  have "rev v = rev ?w @ replicate (length (takeWhile (\<lambda>b. b = 0) v)) 0"
    by (metis lead_zeros rev_append rev_replicate)
  then have "vch_value (rev v) = vch_value (rev ?w)"
    by simp
  moreover have "rev ?w = [] \<or> last (rev ?w) \<noteq> 0"
    using hd_dropWhile [of "\<lambda>b. b = 0" v] by (auto simp: last_rev)
  ultimately show ?thesis
    using le_bytes_vch_value [of "rev ?w"] by simp
qed

lemma setvch_positive: "snd (bn_setvch (rev v @ [0])) = vch_value (rev v)"
  by (simp add: bn_setvch_snoc)

lemma base58_value_ones: "base58_value (replicate k (pszBase58 ! 0) @ p) 0 = base58_value p 0"
  by (induction k) (simp_all add: base58_pos)

lemma not_space: "c \<in> set pszBase58 \<Longrightarrow> \<not> c_isspace c"
  by (auto simp: pszBase58_def c_isspace_def)

lemma Encode_shape:
  "EncodeBase58 v = replicate (length (takeWhile (\<lambda>b. b = 0) v)) (pszBase58 ! 0) @ rev (base58_digits (vch_value (rev v)))"
  by (simp add: EncodeBase58_def setvch_positive map_replicate_const rev_replicate)

lemma Encode_chars: "c \<in> set (EncodeBase58 v) \<Longrightarrow> c \<in> set pszBase58"
  using nth_mem [of 0 pszBase58] by (auto simp: Encode_shape length_base58 dest: base58_digits_chars)

lemma takeWhile_lead: "(ys = [] \<or> hd ys \<noteq> c) \<Longrightarrow> takeWhile (\<lambda>x. x = c) (replicate k c @ ys) = replicate k c"
  by (induction k) (cases ys, auto)

lemma base58_decode_encode: "DecodeBase58 (EncodeBase58 v) = Some v"
proof -
  let ?z = "length (takeWhile (\<lambda>b. b = 0) v)" and ?n = "vch_value (rev v)"
  have "dropWhile c_isspace (EncodeBase58 v) = EncodeBase58 v"
    using Encode_chars not_space by (metis dropWhile_eq_self_iff hd_in_set)
  moreover have "base58_value (EncodeBase58 v) 0 = Some ?n"
    by (simp add: Encode_shape base58_value_ones base58_value_digits)
  moreover have "takeWhile (\<lambda>c. c = pszBase58 ! 0) (EncodeBase58 v) = replicate ?z (pszBase58 ! 0)"
    unfolding Encode_shape
    by (rule takeWhile_lead, cases "?n = 0") (use last_base58_digits [of ?n] in \<open>auto simp: hd_rev\<close>)
  ultimately have "DecodeBase58 (EncodeBase58 v) = Some (replicate ?z 0 @ rev (trim_sign (bn_getvch (False, ?n))))"
    by (simp add: DecodeBase58_def trim_sign_def Let_def)
  also have "\<dots> = Some v"
    by (simp add: trim_sign_getvch value_rev_bytes lead_zeros)
  finally show ?thesis .
qed

text \<open>
  Base58 with checksum: what was encoded is decoded, and whatever text is accepted decodes to
  data followed by the first four bytes of their hash. The hash has at least four bytes.
\<close>

lemma base58check_correct:
  assumes "\<forall>v. 4 \<le> length (hash v)"
  shows "DecodeBase58Check hash (EncodeBase58Check hash v) = Some v
    \<and> (DecodeBase58Check hash str = Some dat \<longleftrightarrow> DecodeBase58 str = Some (dat @ take 4 (hash dat)))"
proof -
  have len: "length (take 4 (hash x)) = 4" for x
    using assms by simp
  have "DecodeBase58Check hash str = Some dat \<longleftrightarrow> DecodeBase58 str = Some (dat @ take 4 (hash dat))" for str dat
  proof
    assume "DecodeBase58Check hash str = Some dat"
    then obtain v where v: "DecodeBase58 str = Some v" "4 \<le> length v" "dat = take (length v - 4) v"
      "take 4 (hash dat) = drop (length v - 4) v"
      by (auto simp: DecodeBase58Check_def Let_def split: option.splits if_splits)
    then show "DecodeBase58 str = Some (dat @ take 4 (hash dat))"
      by simp
  next
    assume "DecodeBase58 str = Some (dat @ take 4 (hash dat))"
    then show "DecodeBase58Check hash str = Some dat"
      using assms by (simp add: DecodeBase58Check_def Let_def)
  qed
  then show ?thesis
    by (simp add: EncodeBase58Check_def base58_decode_encode)
qed

end
