(* ===== verification/Bech32.thy ===== *)
theory Bech32
  imports Script_Num
begin

text \<open>
  The bech32 texts of libcoin/bech32.cpp: the checksum polynomial on 32-bit words, the expansion
  of the readable prefix, encoding and decoding.

  The checksum is shown to be linear over XOR, from which follow that a created checksum is
  accepted and that a single wrong value is found.
\<close>

unbundle bit_operations_syntax

type_synonym w32 = "32 word"

section \<open>The checksum\<close>

definition CHARSET :: string where
  "CHARSET = ''qpzry9x8gf2tvdw0s3jn54khce6mua7l''"

definition CHARSET_REV :: "int list" where
  "CHARSET_REV =
     [-1, -1, -1, -1, -1, -1, -1, -1, -1, -1, -1, -1, -1, -1, -1, -1,
      -1, -1, -1, -1, -1, -1, -1, -1, -1, -1, -1, -1, -1, -1, -1, -1,
      -1, -1, -1, -1, -1, -1, -1, -1, -1, -1, -1, -1, -1, -1, -1, -1,
      15, -1, 10, 17, 21, 20, 26, 30,  7,  5, -1, -1, -1, -1, -1, -1,
      -1, 29, -1, 24, 13, 25,  9,  8, 23, -1, 18, 22, 31, 27, 19, -1,
       1,  0,  3, 16, 11, 28, 12, 14,  6,  4,  2, -1, -1, -1, -1, -1,
      -1, 29, -1, 24, 13, 25,  9,  8, 23, -1, 18, 22, 31, 27, 19, -1,
       1,  0,  3, 16, 11, 28, 12, 14,  6,  4,  2, -1, -1, -1, -1, -1]"

definition polymod_step :: "w32 \<Rightarrow> byte \<Rightarrow> w32" where
  "polymod_step c v_i =
     (let c0 = drop_bit 25 c;
          c = push_bit 5 (c AND 0x1ffffff) XOR ucast v_i;
          c = (if c0 AND 1 \<noteq> 0 then c XOR 0x3b6a57b2 else c);
          c = (if c0 AND 2 \<noteq> 0 then c XOR 0x26508e6d else c);
          c = (if c0 AND 4 \<noteq> 0 then c XOR 0x1ea119fa else c);
          c = (if c0 AND 8 \<noteq> 0 then c XOR 0x3d4233dd else c);
          c = (if c0 AND 16 \<noteq> 0 then c XOR 0x2a1462b3 else c)
      in c)"

definition PolyMod :: "byte list \<Rightarrow> w32" where
  "PolyMod v = foldl polymod_step 1 v"

definition LowerCase :: "char \<Rightarrow> char" where
  "LowerCase c =
     (let n = of_char c :: nat in if 65 \<le> n \<and> n \<le> 90 then char_of (n - 65 + 97) else c)"

definition ExpandHRP :: "string \<Rightarrow> byte list" where
  "ExpandHRP hrp =
     map (\<lambda>c. drop_bit 5 (of_char c)) hrp @ [0] @ map (\<lambda>c. of_char c AND 0x1f) hrp"

definition VerifyChecksum :: "string \<Rightarrow> byte list \<Rightarrow> bool" where
  "VerifyChecksum hrp values \<longleftrightarrow> PolyMod (ExpandHRP hrp @ values) = 1"

definition CreateChecksum :: "string \<Rightarrow> byte list \<Rightarrow> byte list" where
  "CreateChecksum hrp values =
     (let enc = ExpandHRP hrp @ values @ replicate 6 0;
          md = PolyMod enc XOR 1
      in map (\<lambda>i. ucast (drop_bit (5 * (5 - i)) md AND 31)) [0..<6])"

section \<open>Text\<close>

text \<open>
  Index 32 reads the byte 0 that ends the character set; a larger one reads past it, for which
  \<open>None\<close> stands.
\<close>

definition charset_at :: "byte \<Rightarrow> char" where
  "charset_at c = (if unat c < 32 then CHARSET ! unat c else CHR 0x00)"

definition bech32_Encode :: "string \<Rightarrow> byte list \<Rightarrow> string option" where
  "bech32_Encode hrp values =
     (let combined = values @ CreateChecksum hrp values in
      if list_all (\<lambda>c. unat c \<le> 32) combined
      then Some (hrp @ ''1'' @ map charset_at combined) else None)"

definition char_ord :: "char \<Rightarrow> nat" where
  "char_ord c = of_char c"

definition rfind :: "char \<Rightarrow> string \<Rightarrow> nat option" where
  "rfind x str = (if x \<in> set str then Some (length str - 1 - length (takeWhile (\<lambda>c. c \<noteq> x) (rev str))) else None)"

fun bech32_values :: "string \<Rightarrow> byte list option" where
  "bech32_values [] = Some []"
| "bech32_values (ch # str) =
     (let c = char_ord ch;
          rv = (if c < 33 \<or> c > 126 then -1 else CHARSET_REV ! c)
      in if rv = -1 then None else map_option (\<lambda>vs. word_of_int rv # vs) (bech32_values str))"

text \<open>The empty pair stands for a failure.\<close>

definition bech32_Decode :: "string \<Rightarrow> string \<times> byte list" where
  "bech32_Decode str =
     (let lower = list_ex (\<lambda>c. 97 \<le> char_ord c \<and> char_ord c \<le> 122) str;
          upper = list_ex (\<lambda>c. 65 \<le> char_ord c \<and> char_ord c \<le> 90) str in
      if list_ex (\<lambda>c. char_ord c < 33 \<or> char_ord c > 126) str then ([], [])
      else if lower \<and> upper then ([], [])
      else (case rfind CHR ''1'' str of
              None \<Rightarrow> ([], [])
            | Some pos \<Rightarrow>
              if length str > 90 \<or> pos = 0 \<or> pos + 7 > length str then ([], [])
              else (case bech32_values (drop (pos + 1) str) of
                      None \<Rightarrow> ([], [])
                    | Some values \<Rightarrow>
                      (let hrp = map LowerCase (take pos str) in
                       if \<not> VerifyChecksum hrp values then ([], [])
                       else (hrp, take (length values - 6) values)))))"

section \<open>The checksum is linear\<close>

definition lin :: "w32 \<Rightarrow> w32" where
  "lin c = push_bit 5 (c AND 0x1ffffff)
     XOR (if bit c 25 then 0x3b6a57b2 else 0) XOR (if bit c 26 then 0x26508e6d else 0)
     XOR (if bit c 27 then 0x1ea119fa else 0) XOR (if bit c 28 then 0x3d4233dd else 0)
     XOR (if bit c 29 then 0x2a1462b3 else 0)"

lemma and_exp_bit: "a AND 2 ^ n \<noteq> 0 \<longleftrightarrow> bit a n" for a :: w32
  by (simp add: and_exp_eq_0_iff_not_bit)

lemma c0_bits: "drop_bit 25 c AND 1 \<noteq> 0 \<longleftrightarrow> bit c 25" "drop_bit 25 c AND 2 \<noteq> 0 \<longleftrightarrow> bit c 26"
  "drop_bit 25 c AND 4 \<noteq> 0 \<longleftrightarrow> bit c 27" "drop_bit 25 c AND 8 \<noteq> 0 \<longleftrightarrow> bit c 28"
  "drop_bit 25 c AND 16 \<noteq> 0 \<longleftrightarrow> bit c 29" for c :: w32
  using and_exp_bit [of "drop_bit 25 c" 0] and_exp_bit [of "drop_bit 25 c" 1] and_exp_bit [of "drop_bit 25 c" 2]
    and_exp_bit [of "drop_bit 25 c" 3] and_exp_bit [of "drop_bit 25 c" 4]
  by (simp_all add: bit_drop_bit_eq)

lemma xor_if: "(if b then x XOR k else x) = x XOR (if b then k else 0)" for x :: w32
  by simp

lemma polymod_step_lin: "polymod_step c v = lin c XOR ucast v"
  unfolding polymod_step_def Let_def c0_bits xor_if lin_def by (simp only: xor.assoc xor.left_commute xor.commute)

lemma if_xor: "(if a \<noteq> b then k else 0) = (if a then k else 0) XOR (if b then k else (0::w32))"
  by simp

lemma lin_xor: "lin (a XOR b) = lin a XOR lin b"
proof -
  have "push_bit 5 ((a XOR b) AND 0x1ffffff) = push_bit 5 (a AND 0x1ffffff) XOR push_bit 5 (b AND 0x1ffffff)"
    by (rule bit_eqI) (auto simp: bit_simps)
  then show ?thesis
    unfolding lin_def bit_xor_iff if_xor by (simp only: xor.assoc xor.left_commute xor.commute)
qed

lemma lin_0 [simp]: "lin 0 = 0"
  by (simp add: lin_def)

lemma linpow_0 [simp]: "(lin ^^ k) 0 = 0"
  by (induction k) simp_all

lemma foldl_lin: "foldl polymod_step (a XOR b) vs = (lin ^^ length vs) a XOR foldl polymod_step b vs"
proof (induction vs arbitrary: a b)
  case (Cons v vs)
  have "polymod_step (a XOR b) v = lin a XOR polymod_step b v"
    by (simp add: polymod_step_lin lin_xor xor.assoc)
  then show ?case
    using Cons by (simp add: funpow_swap1)
qed simp

lemma foldl_lin_0: "foldl polymod_step a vs = (lin ^^ length vs) a XOR foldl polymod_step 0 vs"
  using foldl_lin [of a 0 vs] by simp

lemma foldl_zeros: "foldl polymod_step 0 (replicate k 0) = 0"
  by (induction k) (simp_all add: polymod_step_lin)

text \<open>Words of 30 bits.\<close>

definition small :: "w32 \<Rightarrow> bool" where
  "small w \<longleftrightarrow> w AND mask 30 = w"

lemma small_bit: "small w \<longleftrightarrow> (\<forall>n \<ge> 30. \<not> bit w n)"
proof
  assume "small w"
  then show "\<forall>n \<ge> 30. \<not> bit w n"
    unfolding small_def by (metis bit_and_iff bit_mask_iff not_le)
next
  assume "\<forall>n \<ge> 30. \<not> bit w n"
  then show "small w"
    unfolding small_def by (intro bit_eqI) (auto simp: bit_simps not_le)
qed

lemma small_xor: "small a \<Longrightarrow> small b \<Longrightarrow> small (a XOR b)"
  by (simp add: small_bit bit_simps)

lemma small_consts: "small 0" "small 1" "small 0x3b6a57b2" "small 0x26508e6d" "small 0x1ea119fa" "small 0x3d4233dd" "small 0x2a1462b3"
  by (simp_all add: small_def mask_eq_exp_minus_1)

lemma small_if: "small k \<Longrightarrow> small (if b then k else 0)"
  by (simp add: small_consts)

lemma mask25: "(0x1ffffff :: w32) = mask 25"
  by (simp add: mask_eq_exp_minus_1)

lemma small_lin: "small (lin c)"
proof -
  have "small (push_bit 5 (c AND mask 25))"
    by (auto simp: small_bit bit_simps)
  then show ?thesis
    unfolding lin_def mask25 by (intro small_xor small_if small_consts)
qed

lemma small_byte: "small (ucast (v :: byte))"
  by (auto simp: small_bit bit_simps dest: bit_imp_le_length)

lemma lin_shift: "(\<And>n. bit w n \<Longrightarrow> n < 25) \<Longrightarrow> lin w = push_bit 5 w"
proof -
  assume w: "\<And>n. bit w n \<Longrightarrow> n < 25"
  have "w AND mask 25 = w"
    by (rule bit_eqI) (auto simp: bit_simps dest: w)
  moreover have "\<not> bit w 25" "\<not> bit w 26" "\<not> bit w 27" "\<not> bit w 28" "\<not> bit w 29"
    using w by force+
  ultimately show ?thesis
    by (simp add: lin_def mask25)
qed

section \<open>The checksum that is made is accepted\<close>

definition five :: "w32 \<Rightarrow> nat \<Rightarrow> w32" where
  "five md k = drop_bit k md AND mask 5"

lemma bit_five: "bit (five md k) n \<longleftrightarrow> n < 5 \<and> bit md (k + n)"
  by (auto simp: five_def bit_simps)

lemma lin_five: "k \<le> 20 \<Longrightarrow> lin (push_bit k (five md j)) = push_bit (k + 5) (five md j)"
  by (subst lin_shift) (auto simp: bit_simps bit_five push_bit_push_bit add.commute)

lemma bit_push_five: "k + 5 \<le> 30 \<Longrightarrow> bit (push_bit k (five md k)) n \<longleftrightarrow> k \<le> n \<and> n < k + 5 \<and> bit md n"
  by (auto simp: bit_simps bit_five)

lemma five_sum:
  assumes "small md"
  shows "push_bit 25 (five md 25) XOR (push_bit 20 (five md 20) XOR (push_bit 15 (five md 15) XOR
    (push_bit 10 (five md 10) XOR (push_bit 5 (five md 5) XOR five md 0)))) = md"
proof (rule bit_eqI)
  fix n
  have n: "\<not> bit md n" if "30 \<le> n"
    using assms that by (simp add: small_bit)
  have zero: "bit (five md 0) n \<longleftrightarrow> n < 5 \<and> bit md n"
    by (simp add: bit_five)
  consider "n < 5" | "5 \<le> n" "n < 10" | "10 \<le> n" "n < 15" | "15 \<le> n" "n < 20" | "20 \<le> n" "n < 25" | "25 \<le> n" "n < 30" | "30 \<le> n"
    by linarith
  then show "bit (push_bit 25 (five md 25) XOR (push_bit 20 (five md 20) XOR (push_bit 15 (five md 15) XOR
    (push_bit 10 (five md 10) XOR (push_bit 5 (five md 5) XOR five md 0))))) n = bit md n"
    by cases (simp_all add: bit_xor_iff bit_push_five zero n)
qed

lemma foldl_checksum:
  "foldl polymod_step 0 (map (\<lambda>k. ucast (five md k)) [25, 20, 15, 10, 5, 0]) =
    push_bit 25 (five md 25) XOR (push_bit 20 (five md 20) XOR (push_bit 15 (five md 15) XOR
    (push_bit 10 (five md 10) XOR (push_bit 5 (five md 5) XOR five md 0))))"
proof -
  have u: "ucast (ucast (five md k) :: byte) = five md k" for k
    by (rule bit_eqI) (auto simp: bit_simps bit_five)
  have l: "lin (five md k) = push_bit 5 (five md k)" for k
    using lin_five [of 0 md k] by simp
  show ?thesis
    by (simp add: polymod_step_lin u lin_xor l lin_five xor.assoc)
qed

lemma CreateChecksum_eq:
  "CreateChecksum hrp values =
     map (\<lambda>k. ucast (five (PolyMod (ExpandHRP hrp @ values @ replicate 6 0) XOR 1) k)) [25, 20, 15, 10, 5, 0]"
proof -
  have "(31 :: w32) = mask 5"
    by (simp add: mask_eq_exp_minus_1)
  then show ?thesis
    by (simp add: CreateChecksum_def five_def Let_def upt_rec)
qed

lemma length_CreateChecksum: "length (CreateChecksum hrp values) = 6"
  by (simp add: CreateChecksum_def)

lemma checksum_accepted: "VerifyChecksum hrp (values @ CreateChecksum hrp values)"
proof -
  let ?c = "foldl polymod_step 1 (ExpandHRP hrp @ values)"
  let ?p = "(lin ^^ 6) ?c"
  have p: "PolyMod (ExpandHRP hrp @ values @ replicate 6 0) = ?p"
    using foldl_lin_0 [of ?c "replicate 6 0"] foldl_zeros [of 6] by (simp add: PolyMod_def)
  have "small ?p"
    using small_lin [of "(lin ^^ 5) ?c"] by (simp add: numeral_eq_Suc)
  then have sm: "small (?p XOR 1)"
    by (intro small_xor small_consts)
  have "PolyMod (ExpandHRP hrp @ values @ CreateChecksum hrp values) =
      ?p XOR foldl polymod_step 0 (CreateChecksum hrp values)"
    using foldl_lin_0 [of ?c "CreateChecksum hrp values"] by (simp add: PolyMod_def length_CreateChecksum)
  also have "foldl polymod_step 0 (CreateChecksum hrp values) = ?p XOR 1"
    by (simp only: CreateChecksum_eq p foldl_checksum five_sum [OF sm])
  finally show ?thesis
    by (simp add: VerifyChecksum_def xor.assoc [symmetric])
qed

section \<open>A wrong character is found\<close>

lemma low_bits:
  "lin w AND 31 = (if bit w 25 then 18 else 0) XOR (if bit w 26 then 13 else 0) XOR (if bit w 27 then 26 else 0)
     XOR (if bit w 28 then 29 else 0) XOR (if bit w 29 then 19 else 0)"
proof -
  have "(a XOR b) AND 31 = (a AND 31) XOR (b AND 31)" for a b :: w32
    by (rule bit_eqI) (auto simp: bit_simps)
  moreover have "push_bit 5 (w AND 0x1ffffff) AND 31 = 0"
  proof (rule bit_eqI)
    fix n
    have "bit (31 :: w32) n \<longleftrightarrow> n < 5"
      using bit_mask_iff [of 5 n, where ?'a = w32] by (auto simp: mask_eq_exp_minus_1)
    then show "bit (push_bit 5 (w AND 0x1ffffff) AND 31) n = bit 0 n"
      by (auto simp: bit_simps)
  qed
  ultimately show ?thesis
    by (simp add: lin_def if_distrib [of "\<lambda>x. x AND 31"])
qed

lemma lin_zero:
  assumes "lin w = 0" "small w"
  shows "w = 0"
proof -
  have b: "\<not> bit w 25 \<and> \<not> bit w 26 \<and> \<not> bit w 27 \<and> \<not> bit w 28 \<and> \<not> bit w 29"
    using low_bits [of w] assms(1)
    by (cases "bit w 25"; cases "bit w 26"; cases "bit w 27"; cases "bit w 28"; cases "bit w 29") simp_all
  have "push_bit 5 (w AND mask 25) = 0"
    using assms(1) b by (simp add: lin_def mask25)
  then have p: "bit (push_bit 5 (w AND mask 25)) n \<longleftrightarrow> False" for n
    by simp
  show "w = 0"
  proof (rule bit_eqI)
    fix n :: nat
    consider "n < 25" | "n = 25" | "n = 26" | "n = 27" | "n = 28" | "n = 29" | "30 \<le> n"
      by linarith
    then show "bit w n = bit 0 n"
    proof cases
      case 1
      then show ?thesis
        using p [of "n + 5"] by (simp add: bit_simps)
    next
      case 7
      then show ?thesis
        using assms(2) by (simp add: small_bit)
    qed (use b in simp_all)
  qed
qed

lemma linpow_nonzero: "small w \<Longrightarrow> w \<noteq> 0 \<Longrightarrow> (lin ^^ k) w \<noteq> 0 \<and> small ((lin ^^ k) w)"
  by (induction k) (auto simp: small_lin dest: lin_zero)

lemma substitution_found:
  assumes "VerifyChecksum hrp (xs @ a # ys)" "a \<noteq> b"
  shows "\<not> VerifyChecksum hrp (xs @ b # ys)"
proof
  assume "VerifyChecksum hrp (xs @ b # ys)"
  let ?c = "foldl polymod_step 1 (ExpandHRP hrp @ xs)"
  let ?d = "ucast (a XOR b) :: w32"
  have "polymod_step ?c a = ?d XOR polymod_step ?c b"
    by (rule bit_eqI) (auto simp: polymod_step_lin bit_simps)
  then have "PolyMod (ExpandHRP hrp @ xs @ a # ys) = (lin ^^ length ys) ?d XOR PolyMod (ExpandHRP hrp @ xs @ b # ys)"
    by (simp add: PolyMod_def foldl_lin)
  then have one: "(lin ^^ length ys) ?d XOR 1 = 1"
    using assms(1) \<open>VerifyChecksum hrp (xs @ b # ys)\<close> by (simp add: VerifyChecksum_def)
  have "x = 0" if "x XOR 1 = 1" for x :: w32
  proof -
    have "x = (x XOR 1) XOR 1"
      by (simp add: xor.assoc)
    then show ?thesis
      by (simp add: that)
  qed
  from this [OF one] have "(lin ^^ length ys) ?d = 0" .
  moreover have "?d \<noteq> 0"
  proof
    assume "?d = 0"
    then have d: "bit ?d n \<longleftrightarrow> False" for n
      by simp
    have "bit a n \<longleftrightarrow> bit b n" if "n < 8" for n
      using d [of n] that by (simp add: bit_simps)
    then have "a = b"
      by (intro bit_word_eqI) simp
    with assms(2) show False
      by simp
  qed
  ultimately show False
    using linpow_nonzero [OF small_byte, of "a XOR b" "length ys"] by simp
qed

section \<open>Text and back\<close>

text \<open>The characters that texts consist of: printable and not upper case.\<close>

definition plain_char :: "char \<Rightarrow> bool" where
  "plain_char c \<longleftrightarrow> 33 \<le> char_ord c \<and> char_ord c \<le> 126 \<and> \<not> (65 \<le> char_ord c \<and> char_ord c \<le> 90)"

lemma charset_rev:
  assumes "unat v < 32"
  shows "plain_char (charset_at v) \<and> CHARSET_REV ! char_ord (charset_at v) = int (unat v) \<and> charset_at v \<noteq> CHR ''1''"
proof -
  have "\<forall>d \<in> set [0..<32]. plain_char (CHARSET ! d) \<and> CHARSET_REV ! char_ord (CHARSET ! d) = int d \<and> CHARSET ! d \<noteq> CHR ''1''"
    by (simp add: upt_rec CHARSET_def CHARSET_REV_def char_ord_def plain_char_def)
  then show ?thesis
    using assms by (simp add: charset_at_def)
qed

definition five_bits :: "byte list \<Rightarrow> bool" where
  "five_bits vs \<longleftrightarrow> list_all (\<lambda>v. unat v < 32) vs"

lemma five_bits_simps [simp]: "five_bits []" "five_bits (v # vs) \<longleftrightarrow> unat v < 32 \<and> five_bits vs"
  "five_bits (vs @ ws) \<longleftrightarrow> five_bits vs \<and> five_bits ws"
  by (simp_all add: five_bits_def)

lemma bech32_values_map: "five_bits vs \<Longrightarrow> bech32_values (map charset_at vs) = Some vs"
proof (induction vs)
  case (Cons v vs)
  have "int (unat v) \<noteq> -1"
    by linarith
  then show ?case
    using Cons charset_rev [of v] by (simp add: Let_def plain_char_def)
qed simp

lemma five_bits_checksum: "five_bits (CreateChecksum hrp values)"
proof -
  have "unat (ucast (w AND 31) :: byte) < 32" for w :: w32
  proof -
    have "(ucast (w AND mask 5) :: byte) = take_bit 5 (ucast w)"
      by (rule bit_eqI) (auto simp: bit_simps)
    then have "(ucast (w AND 31) :: byte) = take_bit 5 (ucast w)"
      by (simp add: mask_eq_exp_minus_1)
    then show ?thesis
      using take_bit_nat_less_exp [of 5 "unat (ucast w :: byte)"] by (simp only: unsigned_take_bit_eq) simp
  qed
  then show ?thesis
    by (simp add: CreateChecksum_def five_bits_def list_all_iff Let_def)
qed

lemma rfind_last: "x \<notin> set ys \<Longrightarrow> rfind x (xs @ x # ys) = Some (length xs)"
proof -
  assume "x \<notin> set ys"
  then have "takeWhile (\<lambda>c. c \<noteq> x) (rev (xs @ x # ys)) = rev ys"
    by (simp, subst takeWhile_append2) auto
  then show ?thesis
    by (simp add: rfind_def del: rev_append)
qed

definition hrp_ok :: "string \<Rightarrow> bool" where
  "hrp_ok hrp \<longleftrightarrow> hrp \<noteq> [] \<and> list_all plain_char hrp"

lemma map_LowerCase: "hrp_ok hrp \<Longrightarrow> map LowerCase hrp = hrp"
  by (auto simp: hrp_ok_def list_all_iff plain_char_def LowerCase_def char_ord_def Let_def intro!: map_idI)

lemma plain_text:
  assumes "list_all plain_char str"
  shows "list_ex (\<lambda>c. char_ord c < 33 \<or> char_ord c > 126) str = False"
    and "list_ex (\<lambda>c. 65 \<le> char_ord c \<and> char_ord c \<le> 90) str = False"
  using assms by (induction str) (auto simp: plain_char_def)

lemma data_text:
  assumes "five_bits vs"
  shows "list_all plain_char (map charset_at vs)" "CHR ''1'' \<notin> set (map charset_at vs)"
  using assms by (induction vs) (auto dest: charset_rev)

lemma Decode_data:
  assumes "hrp_ok hrp" "five_bits vs" "6 \<le> length vs" "length hrp + length vs + 1 \<le> 90"
  shows "bech32_Decode (hrp @ ''1'' @ map charset_at vs) =
    (if VerifyChecksum hrp vs then (hrp, take (length vs - 6) vs) else ([], []))"
proof -
  let ?s = "hrp @ CHR ''1'' # map charset_at vs"
  have "list_all plain_char ?s"
    using assms(1) data_text(1) [OF assms(2)] by (simp add: hrp_ok_def plain_char_def char_ord_def)
  note plain = plain_text [OF this]
  have "rfind CHR ''1'' ?s = Some (length hrp)"
    by (rule rfind_last) (rule data_text(2) [OF assms(2)])
  then show ?thesis
    using assms bech32_values_map [OF assms(2)]
    by (simp add: bech32_Decode_def plain map_LowerCase hrp_ok_def [of hrp] del: list_ex_append list.pred_inject)
qed

lemma Encode_eq: "five_bits values \<Longrightarrow> bech32_Encode hrp values = Some (hrp @ ''1'' @ map charset_at (values @ CreateChecksum hrp values))"
  using five_bits_checksum [of hrp "values"]
  by (auto simp: bech32_Encode_def five_bits_def Let_def list_all_iff order_less_imp_le)

lemma bech32_decode_encode:
  assumes "hrp_ok hrp" "five_bits vs" "length hrp + length vs + 7 \<le> 90"
  shows "\<exists>str. bech32_Encode hrp vs = Some str \<and> bech32_Decode str = (hrp, vs)"
proof -
  let ?v = "vs @ CreateChecksum hrp vs"
  have "bech32_Decode (hrp @ ''1'' @ map charset_at ?v) = (hrp, vs)"
    using Decode_data [of hrp ?v] assms five_bits_checksum [of hrp vs] checksum_accepted [of hrp vs]
    by (simp add: length_CreateChecksum del: map_append)
  with Encode_eq [OF assms(2)] show ?thesis
    by blast
qed

lemma length_CHARSET: "length CHARSET = 32"
  by (simp add: CHARSET_def)

lemma charset_char: "c \<in> set CHARSET \<Longrightarrow> \<exists>v. unat v < 32 \<and> c = charset_at v"
proof -
  assume "c \<in> set CHARSET"
  then obtain d where d: "d < 32" "c = CHARSET ! d"
    unfolding in_set_conv_nth by (auto simp: length_CHARSET)
  then have "unat (of_nat d :: byte) = d"
    by (simp add: unat_of_nat)
  with d show ?thesis
    by (intro exI [of _ "of_nat d"]) (simp add: charset_at_def)
qed

lemma update_found:
  assumes "VerifyChecksum hrp vs" "k < length vs" "v \<noteq> vs ! k"
  shows "\<not> VerifyChecksum hrp (vs[k := v])"
  using assms substitution_found [of hrp "take k vs" "vs ! k" "drop (Suc k) vs" v]
  by (simp add: upd_conv_take_nth_drop id_take_nth_drop [symmetric])

lemma five_bits_update: "five_bits vs \<Longrightarrow> unat v < 32 \<Longrightarrow> five_bits (vs[i := v])"
  by (auto simp: five_bits_def list_all_iff dest!: set_update_subset_insert [THEN subsetD])

section \<open>Properties\<close>

text \<open>
  Bech32 round trip: a lower case prefix and values of five bits that fit into 90 characters
  are encoded, and decoding the text gives them back.
\<close>
lemma bech32_roundtrip:
  assumes "hrp_ok hrp" "five_bits vs" "length hrp + length vs + 7 \<le> 90"
  shows "\<exists>str. bech32_Encode hrp vs = Some str \<and> bech32_Decode str = (hrp, vs)"
  using assms by (rule bech32_decode_encode)

text \<open>
  C31. A mistyped address is refused: replacing one character behind the separator of an encoded
  text by another one of the character set makes decoding fail.
\<close>
theorem bech32_detects_substitution:
  assumes "hrp_ok hrp" "five_bits vs" "length hrp + length vs + 7 \<le> 90"
    and str: "bech32_Encode hrp vs = Some str"
    and i: "length hrp < i" "i < length str" and c: "c \<in> set CHARSET" "c \<noteq> str ! i"
  shows "bech32_Decode (str[i := c]) = ([], [])"
proof -
  let ?v = "vs @ CreateChecksum hrp vs"
  define k where "k = i - length hrp - 1"
  from str Encode_eq [OF assms(2)] have s: "str = hrp @ ''1'' @ map charset_at ?v"
    by simp
  from c(1) obtain v where v: "unat v < 32" "c = charset_at v"
    using charset_char by blast
  have ki: "i = length hrp + Suc k" "k < length ?v"
    using i by (auto simp: k_def s)
  have five: "five_bits ?v"
    using assms(2) five_bits_checksum by simp
  have "str[i := c] = hrp @ ''1'' @ map charset_at (?v[k := v])"
    by (simp add: s ki v map_update list_update_append)
  moreover have "v \<noteq> ?v ! k"
    using c(2) ki by (auto simp: s v nth_append)
  then have "\<not> VerifyChecksum hrp (?v[k := v])"
    by (rule update_found [OF checksum_accepted ki(2)])
  ultimately show ?thesis
    using Decode_data [of hrp "?v[k := v]"] five_bits_update [OF five v(1)] assms(1,3)
    by (simp add: length_CreateChecksum del: map_append)
qed

theorem bech32_detects_substitution_witness:
  "bech32_Encode ''shc'' [0, 14] = Some ''shc1qwu2ynch'' \<and> bech32_Decode ''shc1qeu2ynch'' = ([], [])"
proof -
  have enc: "bech32_Encode ''shc'' [0, 14] = Some ''shc1qwu2ynch''"
    by code_simp
  have "bech32_Decode (''shc1qwu2ynch''[5 := CHR ''e'']) = ([], [])"
    by (rule bech32_detects_substitution [OF _ _ _ enc]) code_simp+
  with enc show ?thesis
    by simp
qed

end
