(* ===== verification/Convert_Bits.thy ===== *)
theory Convert_Bits
  imports Script_Num
begin

text \<open>
  \<open>ConvertBits\<close> of server/coinaddr.cpp: regrouping the bits of a byte string, 8 to 5 for the
  text of a witness address and 5 to 8 for reading it. The way there and back is the identity,
  shown over the number that the digits stand for.
\<close>

unbundle bit_operations_syntax

section \<open>Converting between widths\<close>

text \<open>
  The inner loop emits values of \<open>tobits\<close> bits while there are enough. The widths are template
  parameters, 8 and 5 or 5 and 8, so the guard against width 0 is always true.
\<close>

function emit_bits :: "nat \<Rightarrow> nat \<Rightarrow> nat \<Rightarrow> byte list \<Rightarrow> nat \<times> byte list" where
  "emit_bits tobits acc bits out =
     (if tobits \<le> bits \<and> 0 < tobits
      then emit_bits tobits acc (bits - tobits)
             (out @ [byte_of (drop_bit (bits - tobits) acc AND mask tobits)])
      else (bits, out))"
  by pat_completeness auto
termination
  by (relation "measure (\<lambda>(t, a, b, out). b)") auto

declare emit_bits.simps [simp del]

fun convert_loop :: "nat \<Rightarrow> nat \<Rightarrow> nat \<Rightarrow> nat \<Rightarrow> byte list \<Rightarrow> byte list \<Rightarrow> nat \<times> nat \<times> byte list" where
  "convert_loop frombits tobits acc bits out [] = (acc, bits, out)"
| "convert_loop frombits tobits acc bits out (x # it) =
     (let acc' = (push_bit frombits acc OR unat x) AND mask (frombits + tobits - 1);
          (bits', out') = emit_bits tobits acc' (bits + frombits) out
      in convert_loop frombits tobits acc' bits' out' it)"

text \<open>The result is what was appended to \<open>out\<close> and the value returned.\<close>

definition ConvertBits :: "nat \<Rightarrow> nat \<Rightarrow> bool \<Rightarrow> byte list \<Rightarrow> byte list \<Rightarrow> byte list \<times> bool" where
  "ConvertBits frombits tobits pad out it =
     (case convert_loop frombits tobits 0 0 out it of (acc, bits, out) \<Rightarrow>
        if pad
        then (if bits \<noteq> 0 then out @ [byte_of (push_bit (tobits - bits) acc AND mask tobits)] else out, True)
        else (out, \<not> (bits \<ge> frombits \<or> push_bit (tobits - bits) acc AND mask tobits \<noteq> 0)))"

section \<open>The number a list of digits stands for\<close>

definition digits_val :: "nat \<Rightarrow> byte list \<Rightarrow> nat" where
  "digits_val w xs = foldl (\<lambda>v x. v * 2 ^ w + unat x) 0 xs"

definition fits :: "nat \<Rightarrow> byte list \<Rightarrow> bool" where
  "fits w xs \<longleftrightarrow> list_all (\<lambda>x. unat x < 2 ^ w) xs"

lemma digits_val_snoc [simp]: "digits_val w [] = 0" "digits_val w (xs @ [x]) = digits_val w xs * 2 ^ w + unat x"
  by (simp_all add: digits_val_def)

lemma fits_simps [simp]: "fits w []" "fits w (x # xs) \<longleftrightarrow> unat x < 2 ^ w \<and> fits w xs" "fits w (xs @ ys) \<longleftrightarrow> fits w xs \<and> fits w ys"
  by (simp_all add: fits_def)

lemma digits_val_inj:
  assumes "length xs = length ys" "fits w xs" "fits w ys" "digits_val w xs = digits_val w ys"
  shows "xs = ys"
  using assms
proof (induction xs arbitrary: ys rule: rev_induct)
  case (snoc x xs)
  then obtain zs z where ys: "ys = zs @ [z]"
    by (metis length_0_conv rev_exhaust snoc_eq_iff_butlast)
  have eq: "digits_val w xs * 2 ^ w + unat x = digits_val w zs * 2 ^ w + unat z" and lt: "unat x < 2 ^ w" "unat z < 2 ^ w"
    using snoc.prems by (simp_all add: ys)
  have "unat x = unat z"
    using arg_cong [OF eq, of "\<lambda>n. n mod 2 ^ w"] lt by simp
  moreover have "digits_val w xs = digits_val w zs"
    using arg_cong [OF eq, of "\<lambda>n. n div 2 ^ w"] lt by simp
  ultimately show ?case
    using snoc.IH [of zs] snoc.prems by (simp add: ys word_unat_eq_iff)
qed simp

lemma foldl_digits: "foldl (\<lambda>v x. v * 2 ^ w + unat x) a xs = a * 2 ^ (w * length xs) + digits_val w xs" for xs :: "byte list"
proof (induction xs arbitrary: a)
  case (Cons x xs)
  show ?case
    unfolding digits_val_def foldl_Cons Cons.IH [of "a * 2 ^ w + unat x"] Cons.IH [of "0 * 2 ^ w + unat x"]
    by (simp add: power_add algebra_simps)
qed simp

lemma digits_val_Cons: "digits_val w (x # xs) = unat x * 2 ^ (w * length xs) + digits_val w xs"
  using foldl_digits [of w "unat x" xs] by (simp add: digits_val_def)

section \<open>The value kept by the conversion\<close>

text \<open>What was emitted together with the bits that are still kept.\<close>

definition kept :: "nat \<Rightarrow> nat \<Rightarrow> nat \<Rightarrow> byte list \<Rightarrow> nat" where
  "kept tobits acc bits out = digits_val tobits out * 2 ^ bits + acc mod 2 ^ bits"

lemma emit_step:
  assumes "t \<le> bits" "t \<le> 8"
  shows "kept t acc (bits - t) (out @ [byte_of (drop_bit (bits - t) acc AND mask t)]) = kept t acc bits out"
    and "unat (byte_of (drop_bit (bits - t) acc AND mask t)) < 2 ^ t"
proof -
  let ?k = "bits - t" and ?x = "acc div 2 ^ (bits - t) mod 2 ^ t"
  have p: "(2::nat) ^ bits = 2 ^ ?k * 2 ^ t"
    using assms by (simp flip: power_add)
  have le: "(2::nat) ^ t \<le> 2 ^ 8"
    using assms(2) by (rule power_increasing) simp
  have x: "drop_bit ?k acc AND mask t = ?x"
    by (simp add: drop_bit_eq_div take_bit_eq_mod flip: take_bit_eq_mask)
  have lt: "?x < 2 ^ t"
    by simp
  then have u: "unat (byte_of ?x) = ?x"
    using le by (simp add: less_le_trans [OF lt])
  show "unat (byte_of (drop_bit ?k acc AND mask t)) < 2 ^ t"
    using lt by (simp only: x u)
  have "acc mod 2 ^ bits = ?x * 2 ^ ?k + acc mod 2 ^ ?k"
    by (simp only: p mod_mult2_eq) (simp only: mult.commute)
  then show "kept t acc ?k (out @ [byte_of (drop_bit ?k acc AND mask t)]) = kept t acc bits out"
    by (simp only: kept_def digits_val_snoc x u) (simp add: p algebra_simps)
qed

lemma emit_bits_kept:
  assumes "0 < t" "t \<le> 8" "fits t out"
  shows "\<exists>ys. emit_bits t acc bits out = (bits mod t, out @ ys) \<and> fits t (out @ ys) \<and> length ys = bits div t
    \<and> kept t acc (bits mod t) (out @ ys) = kept t acc bits out"
  using assms(3)
proof (induction bits arbitrary: out rule: less_induct)
  case (less bits)
  show ?case
  proof (cases "t \<le> bits")
    case False
    then show ?thesis
      using less.prems by (simp add: emit_bits.simps)
  next
    case True
    let ?y = "byte_of (drop_bit (bits - t) acc AND mask t)"
    note step = emit_step [OF True assms(2), of acc]
    have "fits t (out @ [?y])"
      using less.prems step(2) by simp
    then obtain ys where ys: "emit_bits t acc (bits - t) (out @ [?y]) = ((bits - t) mod t, (out @ [?y]) @ ys)"
      "fits t ((out @ [?y]) @ ys)" "length ys = (bits - t) div t"
      "kept t acc ((bits - t) mod t) ((out @ [?y]) @ ys) = kept t acc (bits - t) (out @ [?y])"
      using less.IH [of "bits - t" "out @ [?y]"] True assms(1) by auto
    have m: "(bits - t) mod t = bits mod t" "bits div t = Suc ((bits - t) div t)"
      using True assms(1) by (simp_all add: le_mod_geq le_div_geq)
    show ?thesis
      using ys True assms(1) step(1) [of out] m
      by (intro exI [of _ "?y # ys"]) (simp add: emit_bits.simps [of t acc bits])
  qed
qed

lemma input_step:
  assumes "unat x < 2 ^ f" "bits < t"
  shows "kept t ((push_bit f acc OR unat x) AND mask (f + t - 1)) (bits + f) out = kept t acc bits out * 2 ^ f + unat x"
proof -
  let ?a = "push_bit f acc OR unat x"
  have a: "?a = acc * 2 ^ f + unat x"
  proof -
    have x: "unat x = take_bit f (unat x)"
      using assms(1) by (simp add: take_bit_nat_eq_self)
    have "push_bit f acc AND take_bit f (unat x) = 0"
      by (rule bit_eqI) (auto simp: bit_simps)
    then have "push_bit f acc + unat x = push_bit f acc OR unat x"
      by (intro disjunctive_add_eq_or) (simp flip: x)
    then show ?thesis
      by (simp add: push_bit_eq_mult)
  qed
  have "(?a AND mask (f + t - 1)) mod 2 ^ (bits + f) = ?a mod 2 ^ (bits + f)"
    using assms(2) by (simp only: take_bit_eq_mask [symmetric] take_bit_eq_mod [symmetric]) simp
  moreover have "?a mod 2 ^ (bits + f) = acc mod 2 ^ bits * 2 ^ f + unat x"
    using assms(1) by (simp only: a power_add mult.commute [of "2 ^ bits"] mod_mult2_eq) simp
  ultimately show ?thesis
    by (simp add: kept_def power_add algebra_simps)
qed

lemma convert_loop_kept:
  assumes "0 < t" "t \<le> 8" "fits t out" "fits f xs" "bits < t"
  shows "\<exists>acc' bits' ys. convert_loop f t acc bits out xs = (acc', bits', out @ ys) \<and> bits' < t \<and> fits t (out @ ys)
    \<and> length ys * t + bits' = length xs * f + bits
    \<and> kept t acc' bits' (out @ ys) = kept t acc bits out * 2 ^ (f * length xs) + digits_val f xs"
  using assms(3-5)
proof (induction xs arbitrary: acc bits out)
  case Nil
  then show ?case by simp
next
  case (Cons x xs)
  let ?acc = "(push_bit f acc OR unat x) AND mask (f + t - 1)"
  obtain ys where ys: "emit_bits t ?acc (bits + f) out = ((bits + f) mod t, out @ ys)" "fits t (out @ ys)"
    "length ys = (bits + f) div t" "kept t ?acc ((bits + f) mod t) (out @ ys) = kept t ?acc (bits + f) out"
    using emit_bits_kept [OF assms(1,2) Cons.prems(1)] by blast
  obtain acc' bits' zs where zs: "convert_loop f t ?acc ((bits + f) mod t) (out @ ys) xs = (acc', bits', (out @ ys) @ zs)"
    "bits' < t" "fits t ((out @ ys) @ zs)" "length zs * t + bits' = length xs * f + (bits + f) mod t"
    "kept t acc' bits' ((out @ ys) @ zs) = kept t ?acc ((bits + f) mod t) (out @ ys) * 2 ^ (f * length xs) + digits_val f xs"
    using Cons.IH [OF ys(2), of "(bits + f) mod t" ?acc] Cons.prems assms(1) by auto
  have "length ys * t + (bits + f) mod t = bits + f"
    by (simp add: ys(3))
  with zs(4) have "length (ys @ zs) * t + bits' = length (x # xs) * f + bits"
    by (simp add: algebra_simps)
  moreover have "kept t acc' bits' (out @ ys @ zs) = kept t acc bits out * 2 ^ (f * length (x # xs)) + digits_val f (x # xs)"
    using zs(5) ys(4) input_step [of x f bits t acc out] Cons.prems
    by (simp add: digits_val_Cons power_add algebra_simps)
  ultimately show ?case
    using ys(1) zs(1-3) by (intro exI [of _ acc'] exI [of _ bits'] exI [of _ "ys @ zs"]) (simp add: Let_def)
qed

lemma convert_loop_start:
  assumes "0 < t" "t \<le> 8" "fits f xs"
  obtains acc bits ys where "convert_loop f t 0 0 [] xs = (acc, bits, ys)" "bits < t" "fits t ys"
    "length ys * t + bits = length xs * f" "digits_val t ys * 2 ^ bits + acc mod 2 ^ bits = digits_val f xs"
  using convert_loop_kept [of t "[]" f xs 0 0] assms by (auto simp: kept_def)

lemma shift_kept:
  assumes "bits < t"
  shows "push_bit (t - bits) acc AND mask t = acc mod 2 ^ bits * 2 ^ (t - bits)" "acc mod 2 ^ bits * 2 ^ (t - bits) < (2::nat) ^ t"
proof -
  have p: "(2::nat) ^ t = 2 ^ bits * 2 ^ (t - bits)"
    using assms by (simp flip: power_add)
  show "push_bit (t - bits) acc AND mask t = acc mod 2 ^ bits * 2 ^ (t - bits)"
    by (simp only: take_bit_eq_mask [symmetric] push_bit_eq_mult take_bit_eq_mod p mult_mod_left)
  show "acc mod 2 ^ bits * 2 ^ (t - bits) < (2::nat) ^ t"
    unfolding p by simp
qed

lemma ConvertBits_back:
  assumes "ConvertBits 8 5 True [] xs = (ys, ok)"
  shows "ConvertBits 5 8 False [] ys = (xs, True) \<and> fits 5 ys \<and> 5 * length ys < 8 * length xs + 5"
proof -
  have "unat x < 2 ^ 8" for x :: byte
    using unsigned_less [of x] by simp
  then have f8: "fits 8 zs" for zs
    by (simp add: fits_def list_all_iff)
  obtain acc bits zs where c: "convert_loop 8 5 0 0 [] xs = (acc, bits, zs)" "bits < 5" "fits 5 zs"
    "length zs * 5 + bits = length xs * 8" "digits_val 5 zs * 2 ^ bits + acc mod 2 ^ bits = digits_val 8 xs"
    by (rule convert_loop_start [of 5 8 xs]) (simp_all add: f8)
  define p where "p = (if bits = 0 then 0 else 5 - bits)"
  let ?pad = "byte_of (push_bit (5 - bits) acc AND mask 5)"
  have pad: "unat ?pad = acc mod 2 ^ bits * 2 ^ (5 - bits)" "unat ?pad < 32"
    using shift_kept [OF c(2), of acc] by simp_all
  have ys: "ys = (if bits \<noteq> 0 then zs @ [?pad] else zs)"
    using assms by (simp add: ConvertBits_def c(1) split: if_splits)
  have fy: "fits 5 ys" and vy: "digits_val 5 ys = digits_val 8 xs * 2 ^ p" and ly: "length ys * 5 = length xs * 8 + p"
  proof -
    have "digits_val 5 zs * 32 = digits_val 5 zs * 2 ^ bits * 2 ^ (5 - bits)"
      using c(2) by (simp flip: power_add)
    then show "digits_val 5 ys = digits_val 8 xs * 2 ^ p"
      using pad(1) by (simp add: ys p_def algebra_simps flip: c(5))
    show "fits 5 ys" "length ys * 5 = length xs * 8 + p"
      using pad(2) c(2,3,4) by (auto simp: ys p_def)
  qed
  obtain acc2 bits2 ws where d: "convert_loop 5 8 0 0 [] ys = (acc2, bits2, ws)" "bits2 < 8" "fits 8 ws"
    "length ws * 8 + bits2 = length ys * 5" "digits_val 8 ws * 2 ^ bits2 + acc2 mod 2 ^ bits2 = digits_val 5 ys"
    by (rule convert_loop_start [of 8 5 ys]) (simp_all add: fy)
  have p5: "p < 5"
    by (simp add: p_def)
  moreover have "length ws * 8 + bits2 = length xs * 8 + p"
    using d(4) ly by simp
  ultimately have b: "bits2 = p" "length ws = length xs"
    using d(2) by presburger+
  have e: "digits_val 8 ws * 2 ^ p + acc2 mod 2 ^ p = digits_val 8 xs * 2 ^ p"
    using d(5) vy b(1) by simp
  have "digits_val 8 ws = digits_val 8 xs" "acc2 mod 2 ^ p = 0"
    using arg_cong [OF e, of "\<lambda>n. n div 2 ^ p"] arg_cong [OF e, of "\<lambda>n. n mod 2 ^ p"] by simp_all
  moreover from this(1) have "ws = xs"
    using b f8 by (auto intro: digits_val_inj)
  ultimately show ?thesis
    using fy ly b p5 shift_kept(1) [OF d(2), of acc2] by (simp add: ConvertBits_def d(1))
qed

end
