(* ===== verification/Coin_Addr.thy ===== *)
theory Coin_Addr
  imports Script_Dest Base58 Bech32 Convert_Bits
begin

text \<open>
  Addresses (server/coinaddr.cpp, server/base58.cpp, the coin interfaces of proto/): from a
  destination to the text of its address and back, for base58 and for bech32 texts.

  The interfaces are those of the program, of which starting it may disable some. \<open>hash\<close> is the
  double SHA-256 of the crypto library. The times kept in an address are left out.
\<close>

section \<open>Coin interfaces\<close>

record CIface =
  name :: string
  enabled :: bool
  base58_pubkey_address :: byte
  base58_script_address :: byte
  base58_script_address2 :: byte

type_synonym iface_table = "int \<Rightarrow> CIface option"

text \<open>The table has no test interface, which only the build for the self test has.\<close>

definition GetCoinByIndex :: "iface_table \<Rightarrow> int \<Rightarrow> CIface option" where
  "GetCoinByIndex tab index =
     (if index < 0 \<or> index \<ge> 7 then None
      else if index = 0 then None
      else tab index)"

text \<open>The interfaces of the program; starting it may disable some of them.\<close>

definition mk_iface :: "string \<Rightarrow> bool \<Rightarrow> byte \<Rightarrow> byte \<Rightarrow> byte \<Rightarrow> CIface" where
  "mk_iface nm en pub scr scr2 =
     \<lparr>name = nm, enabled = en, base58_pubkey_address = pub, base58_script_address = scr, base58_script_address2 = scr2\<rparr>"

definition shc_coin_iface :: CIface where
  "shc_coin_iface = mk_iface ''shc'' True 62 5 25"

definition emc2_coin_iface :: CIface where
  "emc2_coin_iface = mk_iface ''emc2'' True 33 5 55"

definition ltc_coin_iface :: CIface where
  "ltc_coin_iface = mk_iface ''ltc'' False 48 5 50"

definition testnet_coin_iface :: CIface where
  "testnet_coin_iface = mk_iface ''testnet'' True 65 5 25"

definition color_coin_iface :: CIface where
  "color_coin_iface = mk_iface ''color'' True 29 5 25"

definition coin_ifaces :: "(int \<Rightarrow> bool) \<Rightarrow> iface_table" where
  "coin_ifaces disabled index =
     map_option (\<lambda>i. if disabled index then i\<lparr>enabled := False\<rparr> else i)
       (if index = 1 then Some shc_coin_iface
        else if index = 3 then Some emc2_coin_iface
        else if index = 4 then Some ltc_coin_iface
        else if index = 5 then Some testnet_coin_iface
        else if index = 6 then Some color_coin_iface
        else None)"

definition BASE58_PUBKEY_ADDRESS :: "CIface option \<Rightarrow> nat" where
  "BASE58_PUBKEY_ADDRESS iface = (case iface of Some i \<Rightarrow> unat (base58_pubkey_address i) | None \<Rightarrow> 62)"

definition BASE58_SCRIPT_ADDRESS :: "CIface option \<Rightarrow> nat" where
  "BASE58_SCRIPT_ADDRESS iface = (case iface of Some i \<Rightarrow> unat (base58_script_address i) | None \<Rightarrow> 5)"

definition BASE58_SCRIPT_ADDRESS_2 :: "CIface option \<Rightarrow> nat" where
  "BASE58_SCRIPT_ADDRESS_2 iface = (case iface of Some i \<Rightarrow> unat (base58_script_address2 i) | None \<Rightarrow> 0)"

section \<open>Base58 data\<close>

datatype addr_type = ADDR_UNKNOWN | ADDR_BASE58 | ADDR_BECH32

record CCoinAddr =
  nType :: addr_type
  ifaceIndex :: int
  vchVersion :: "byte list"
  vchData :: "byte list"

definition SetNull :: CCoinAddr where
  "SetNull = \<lparr>nType = ADDR_UNKNOWN, ifaceIndex = 0, vchVersion = [], vchData = []\<rparr>"

definition SetData :: "nat \<Rightarrow> byte list \<Rightarrow> CCoinAddr \<Rightarrow> CCoinAddr" where
  "SetData nVersionIn dat a = a\<lparr>vchVersion := [byte_of nVersionIn], vchData := dat\<rparr>"

definition c_str :: "string \<Rightarrow> string" where
  "c_str str = takeWhile (\<lambda>c. c \<noteq> CHR 0x00) str"

definition CBase58Data_SetString :: "(byte list \<Rightarrow> byte list) \<Rightarrow> string \<Rightarrow> nat \<Rightarrow> CCoinAddr \<Rightarrow> bool \<times> CCoinAddr" where
  "CBase58Data_SetString hash psz nVersionSize a =
     (case DecodeBase58Check hash psz of
        None \<Rightarrow> (False, a\<lparr>vchData := [], vchVersion := []\<rparr>)
      | Some vchTemp \<Rightarrow>
        if length vchTemp < nVersionSize then (False, a\<lparr>vchData := [], vchVersion := []\<rparr>)
        else (True, a\<lparr>vchVersion := take nVersionSize vchTemp, vchData := drop nVersionSize vchTemp\<rparr>))"

definition CBase58Data_ToString :: "(byte list \<Rightarrow> byte list) \<Rightarrow> CCoinAddr \<Rightarrow> string" where
  "CBase58Data_ToString hash a = EncodeBase58Check hash (vchVersion a @ vchData a)"

section \<open>Addresses\<close>

definition pubkey_version :: "nat \<Rightarrow> bool" where
  "pubkey_version v \<longleftrightarrow> v \<in> {38, 29, 33, 48, 62, 65}"

definition script_version :: "nat \<Rightarrow> bool" where
  "script_version v \<longleftrightarrow> v \<in> {5, 50, 25, 55}"

definition GetPubKeyVersion :: "iface_table \<Rightarrow> CCoinAddr \<Rightarrow> nat" where
  "GetPubKeyVersion tab a = BASE58_PUBKEY_ADDRESS (GetCoinByIndex tab (ifaceIndex a))"

definition GetScriptVersion :: "iface_table \<Rightarrow> CCoinAddr \<Rightarrow> nat" where
  "GetScriptVersion tab a =
     (let iface = GetCoinByIndex tab (ifaceIndex a);
          ver = BASE58_SCRIPT_ADDRESS_2 iface;
          ver = (if ver = 0 then BASE58_SCRIPT_ADDRESS iface else ver)
      in if ver = 0 then 5 else ver)"

definition addr_Set :: "iface_table \<Rightarrow> CTxDestination \<Rightarrow> CCoinAddr \<Rightarrow> bool \<times> CCoinAddr" where
  "addr_Set tab dest a =
     (case dest of
        CNoDestination \<Rightarrow> (False, a)
      | CKeyID h \<Rightarrow> (True, SetData (GetPubKeyVersion tab a) h (a\<lparr>nType := ADDR_BASE58\<rparr>))
      | CScriptID h \<Rightarrow> (True, SetData (GetScriptVersion tab a) h (a\<lparr>nType := ADDR_BASE58\<rparr>))
      | WitnessV0KeyHash h \<Rightarrow> (True, SetData 0 h (a\<lparr>nType := ADDR_BECH32\<rparr>))
      | WitnessV0ScriptHash h \<Rightarrow> (True, SetData 0 h (a\<lparr>nType := ADDR_BECH32\<rparr>))
      | WitnessV14KeyHash h \<Rightarrow> (True, SetData 14 h (a\<lparr>nType := ADDR_BECH32\<rparr>))
      | WitnessV14ScriptHash h \<Rightarrow> (True, SetData 14 h (a\<lparr>nType := ADDR_BECH32\<rparr>))
      | WitnessUnknown version program \<Rightarrow> (True, SetData version program (a\<lparr>nType := ADDR_BECH32\<rparr>)))"

definition IsValid :: "iface_table \<Rightarrow> CCoinAddr \<Rightarrow> bool" where
  "IsValid tab a =
     (if vchVersion a = [] then False
      else (let nVersion = unat (hd (vchVersion a)) in
        if nType a \<noteq> ADDR_BECH32
        then (if length (vchVersion a) = 1
              then (if \<not> (pubkey_version nVersion \<or> script_version nVersion) then False
                    else if length (vchData a) \<noteq> 20 then False
                    else (case GetCoinByIndex tab (ifaceIndex a) of
                            None \<Rightarrow> True
                          | Some i \<Rightarrow> nVersion = BASE58_PUBKEY_ADDRESS (Some i)
                              \<or> nVersion = BASE58_SCRIPT_ADDRESS (Some i)
                              \<or> nVersion = BASE58_SCRIPT_ADDRESS_2 (Some i)))
              else True)
        else if nVersion \<ge> 16 then False
        else if nVersion = 0 then length (vchData a) = 20 \<or> length (vchData a) = 32
        else True))"

text \<open>Copying 20 bytes out of shorter data is undefined.\<close>

definition memcpy20 :: "byte list \<Rightarrow> byte list res" where
  "memcpy20 dat = (if length dat < 20 then Segv else Ret (take 20 dat))"

definition addr_Get :: "iface_table \<Rightarrow> CCoinAddr \<Rightarrow> CTxDestination res" where
  "addr_Get tab a =
     (let rest =
        (if \<not> IsValid tab a then Ret CNoDestination
         else if length (vchVersion a) = 1
         then (let nVersion = unat (hd (vchVersion a)) in
               if pubkey_version nVersion then andThen (memcpy20 (vchData a)) (\<lambda>h. Ret (CKeyID h))
               else if script_version nVersion then andThen (memcpy20 (vchData a)) (\<lambda>h. Ret (CScriptID h))
               else Ret CNoDestination)
         else Ret CNoDestination)
      in
      if nType a = ADDR_BECH32
      then (let nVersion = (if vchVersion a \<noteq> [] then unat (hd (vchVersion a)) else 0) in
            if nVersion = 0 \<and> length (vchData a) = 20 then Ret (WitnessV0KeyHash (vchData a))
            else if nVersion = 0 \<and> length (vchData a) = 32 then Ret (WitnessV0ScriptHash (vchData a))
            else if nVersion = 14 \<and> length (vchData a) = 20 then Ret (WitnessV14KeyHash (vchData a))
            else if nVersion = 14 \<and> length (vchData a) = 32 then Ret (WitnessV14ScriptHash (vchData a))
            else rest)
      else rest)"

definition GetKeyID :: "iface_table \<Rightarrow> CCoinAddr \<Rightarrow> byte list option res" where
  "GetKeyID tab a =
     (if \<not> IsValid tab a then Ret None
      else if length (vchVersion a) = 1 \<and> pubkey_version (unat (hd (vchVersion a)))
      then andThen (memcpy20 (vchData a)) (\<lambda>h. Ret (Some h))
      else Ret None)"

definition GetScriptID :: "iface_table \<Rightarrow> CCoinAddr \<Rightarrow> byte list option res" where
  "GetScriptID tab a =
     (if \<not> IsValid tab a then Ret None
      else if length (vchVersion a) = 1 \<and> script_version (unat (hd (vchVersion a)))
      then andThen (memcpy20 (vchData a)) (\<lambda>h. Ret (Some h))
      else Ret None)"

definition IsScript :: "iface_table \<Rightarrow> CCoinAddr \<Rightarrow> bool" where
  "IsScript tab a \<longleftrightarrow>
     IsValid tab a \<and> length (vchVersion a) = 1 \<and> script_version (unat (hd (vchVersion a)))"

section \<open>Addresses as text\<close>

definition params_Bech32HRP :: "iface_table \<Rightarrow> int \<Rightarrow> string \<Rightarrow> bool" where
  "params_Bech32HRP tab index strName =
     (case GetCoinByIndex tab index of
        None \<Rightarrow> False
      | Some i \<Rightarrow> enabled i \<and> name i = c_str strName)"

definition addr_SetString :: "iface_table \<Rightarrow> (byte list \<Rightarrow> byte list) \<Rightarrow> string \<Rightarrow> CCoinAddr \<Rightarrow> bool \<times> CCoinAddr" where
  "addr_SetString tab hash str a =
     (case CBase58Data_SetString hash (c_str str) 1 a of
        (True, a1) \<Rightarrow> (True, a1\<lparr>nType := ADDR_BASE58\<rparr>)
      | (False, a1) \<Rightarrow>
        (case bech32_Decode str of (hrp, bech) \<Rightarrow>
          if bech \<noteq> [] \<and> params_Bech32HRP tab (ifaceIndex a1) hrp
          then (case ConvertBits 5 8 False (vchData a1) (tl bech) of (dat, ok) \<Rightarrow>
            (let a2 = a1\<lparr>vchData := dat\<rparr> in
             if \<not> ok then (False, a2)
             else if unat (hd bech) > 16 \<or> length dat < 2 \<or> length dat > 40 then (False, a2)
             else (True, a2\<lparr>vchVersion := [hd bech], nType := ADDR_BECH32\<rparr>)))
          else (False, a1\<lparr>nType := ADDR_UNKNOWN, vchData := [], vchVersion := []\<rparr>)))"

definition addr_ToString :: "iface_table \<Rightarrow> (byte list \<Rightarrow> byte list) \<Rightarrow> CCoinAddr \<Rightarrow> string res" where
  "addr_ToString tab hash a =
     (case GetCoinByIndex tab (ifaceIndex a) of
        Some i \<Rightarrow>
          if nType a = ADDR_BECH32
          then (case bech32_Encode (name i) (fst (ConvertBits 8 5 True (vchVersion a) (vchData a))) of
                  None \<Rightarrow> Segv
                | Some strAddr \<Rightarrow> Ret strAddr)
          else Ret (CBase58Data_ToString hash a)
      | None \<Rightarrow> Ret (CBase58Data_ToString hash a))"

section \<open>Texts\<close>

lemma c_str_id: "CHR 0x00 \<notin> set s \<Longrightarrow> c_str s = s"
  by (auto simp: c_str_def takeWhile_eq_all_conv)

lemma c_str_plain: "list_all plain_char s \<Longrightarrow> c_str s = s"
  by (rule c_str_id) (auto simp: list_all_iff plain_char_def char_ord_def)

lemma EncodeBase58Check_c_str: "c_str (EncodeBase58Check hash v) = EncodeBase58Check hash v"
  by (rule c_str_id) (auto simp: EncodeBase58Check_def pszBase58_def dest!: Encode_chars)

lemma Base58Check_back: "4 \<le> length (hash v) \<Longrightarrow> DecodeBase58Check hash (EncodeBase58Check hash v) = Some v"
  by (simp add: DecodeBase58Check_def EncodeBase58Check_def base58_decode_encode min_def)

lemma emit_bits_out: "emit_bits t acc bits (p @ out) = map_prod (\<lambda>b. b) ((@) p) (emit_bits t acc bits out)"
proof (induction t acc bits out rule: emit_bits.induct)
  case (1 t acc bits out)
  then show ?case
    by (subst (1 2) emit_bits.simps) simp
qed

lemma convert_loop_out:
  "convert_loop f t acc bits (p @ out) xs = (case convert_loop f t acc bits out xs of (a, b, o') \<Rightarrow> (a, b, p @ o'))"
  by (induction xs arbitrary: acc bits out) (auto simp: emit_bits_out Let_def split: prod.splits)

lemma ConvertBits_out: "fst (ConvertBits 8 5 True p xs) = p @ fst (ConvertBits 8 5 True [] xs)"
  using convert_loop_out [of 8 5 0 0 p "[]" xs] by (auto simp: ConvertBits_def split: prod.splits)

section \<open>From a destination to its text and back\<close>

lemma coin_ifaces_cases:
  assumes "GetCoinByIndex (coin_ifaces dis) idx = Some i"
  shows "pubkey_version (unat (base58_pubkey_address i))" "script_version (unat (base58_script_address2 i))"
    "hrp_ok (name i)" "length (name i) \<le> 7"
  using assms
  by (auto simp: GetCoinByIndex_def coin_ifaces_def shc_coin_iface_def emc2_coin_iface_def ltc_coin_iface_def
      testnet_coin_iface_def color_coin_iface_def mk_iface_def pubkey_version_def script_version_def hrp_ok_def plain_char_def char_ord_def
      split: if_splits)

lemma version_ok:
  "pubkey_version (GetPubKeyVersion (coin_ifaces dis) a)" "script_version (GetScriptVersion (coin_ifaces dis) a)"
  "GetPubKeyVersion (coin_ifaces dis) a < 256" "GetScriptVersion (coin_ifaces dis) a < 256"
proof -
  have "pubkey_version (GetPubKeyVersion (coin_ifaces dis) a) \<and> script_version (GetScriptVersion (coin_ifaces dis) a)"
  proof (cases "GetCoinByIndex (coin_ifaces dis) (ifaceIndex a)")
    case None
    then show ?thesis
      by (simp add: GetPubKeyVersion_def GetScriptVersion_def BASE58_PUBKEY_ADDRESS_def BASE58_SCRIPT_ADDRESS_2_def
          BASE58_SCRIPT_ADDRESS_def pubkey_version_def script_version_def)
  next
    case (Some i)
    with coin_ifaces_cases(1,2) [OF Some] show ?thesis
      by (auto simp: GetPubKeyVersion_def GetScriptVersion_def BASE58_PUBKEY_ADDRESS_def BASE58_SCRIPT_ADDRESS_2_def
          script_version_def Let_def)
  qed
  then show "pubkey_version (GetPubKeyVersion (coin_ifaces dis) a)" "script_version (GetScriptVersion (coin_ifaces dis) a)"
    "GetPubKeyVersion (coin_ifaces dis) a < 256" "GetScriptVersion (coin_ifaces dis) a < 256"
    by (auto simp: pubkey_version_def script_version_def)
qed

lemma Set_base58:
  assumes "d = CKeyID h \<or> d = CScriptID h"
  obtains v where "snd (addr_Set (coin_ifaces dis) d a) = a\<lparr>nType := ADDR_BASE58, vchVersion := [v], vchData := h\<rparr>"
    "d = CKeyID h \<Longrightarrow> unat v = GetPubKeyVersion (coin_ifaces dis) a"
    "d = CScriptID h \<Longrightarrow> unat v = GetScriptVersion (coin_ifaces dis) a"
proof (cases "d = CKeyID h")
  case True
  with that [of "byte_of (GetPubKeyVersion (coin_ifaces dis) a)"] version_ok(3) [of dis a] show ?thesis
    by (simp add: addr_Set_def SetData_def)
next
  case False
  with assms that [of "byte_of (GetScriptVersion (coin_ifaces dis) a)"] version_ok(4) [of dis a] show ?thesis
    by (simp add: addr_Set_def SetData_def)
qed

lemma SetString_base58:
  assumes "4 \<le> length (hash (v # h))"
  shows "addr_SetString tab hash (EncodeBase58Check hash (v # h)) b =
    (True, b\<lparr>vchVersion := [v], vchData := h, nType := ADDR_BASE58\<rparr>)"
  using assms by (simp add: addr_SetString_def EncodeBase58Check_c_str CBase58Data_SetString_def Base58Check_back)

lemma Get_base58:
  assumes "length h = 20" "ifaceIndex a = ifaceIndex b"
  shows "unat v = GetPubKeyVersion (coin_ifaces dis) a \<Longrightarrow>
      addr_Get (coin_ifaces dis) (b\<lparr>vchVersion := [v], vchData := h, nType := ADDR_BASE58\<rparr>) = Ret (CKeyID h)"
    "unat v = GetScriptVersion (coin_ifaces dis) a \<Longrightarrow>
      addr_Get (coin_ifaces dis) (b\<lparr>vchVersion := [v], vchData := h, nType := ADDR_BASE58\<rparr>) = Ret (CScriptID h)"
proof -
  let ?b = "b\<lparr>vchVersion := [v], vchData := h, nType := ADDR_BASE58\<rparr>"
  have dis: "script_version n \<Longrightarrow> \<not> pubkey_version n" for n
    by (auto simp: script_version_def pubkey_version_def)
  have valid: "IsValid (coin_ifaces dis) ?b" if "unat v = GetPubKeyVersion (coin_ifaces dis) a \<or> unat v = GetScriptVersion (coin_ifaces dis) a"
  proof (cases "GetCoinByIndex (coin_ifaces dis) (ifaceIndex b)")
    case None
    then show ?thesis
      using that assms version_ok [of dis a] by (auto simp: IsValid_def)
  next
    case (Some i)
    then have "script_version (BASE58_SCRIPT_ADDRESS_2 (Some i))"
      using coin_ifaces_cases(2) by (simp add: BASE58_SCRIPT_ADDRESS_2_def)
    then have "GetScriptVersion (coin_ifaces dis) a = BASE58_SCRIPT_ADDRESS_2 (Some i)"
      using Some assms(2) by (auto simp: GetScriptVersion_def script_version_def Let_def)
    with that Some show ?thesis
      using assms version_ok [of dis a] by (auto simp: IsValid_def GetPubKeyVersion_def)
  qed
  show "addr_Get (coin_ifaces dis) ?b = Ret (CKeyID h)" if "unat v = GetPubKeyVersion (coin_ifaces dis) a"
    using that valid assms version_ok(1) [of dis a] by (simp add: addr_Get_def memcpy20_def)
  show "addr_Get (coin_ifaces dis) ?b = Ret (CScriptID h)" if "unat v = GetScriptVersion (coin_ifaces dis) a"
    using that valid assms version_ok(2) [of dis a] dis by (simp add: addr_Get_def memcpy20_def)
qed

definition witness_dest :: "CTxDestination \<Rightarrow> (nat \<times> byte list) option" where
  "witness_dest d =
     (case d of
        WitnessV0KeyHash h \<Rightarrow> if length h = 20 then Some (0, h) else None
      | WitnessV0ScriptHash h \<Rightarrow> if length h = 32 then Some (0, h) else None
      | WitnessV14KeyHash h \<Rightarrow> if length h = 20 then Some (14, h) else None
      | WitnessV14ScriptHash h \<Rightarrow> if length h = 32 then Some (14, h) else None
      | _ \<Rightarrow> None)"

lemma witness_dest_Set:
  "witness_dest d = Some (v, h) \<Longrightarrow> snd (addr_Set tab d a) = a\<lparr>nType := ADDR_BECH32, vchVersion := [byte_of v], vchData := h\<rparr>"
  by (auto simp: witness_dest_def addr_Set_def SetData_def split: CTxDestination.splits if_splits)

lemma witness_dest_Get:
  "witness_dest d = Some (v, h) \<Longrightarrow> addr_Get tab (b\<lparr>vchVersion := [byte_of v], vchData := h, nType := ADDR_BECH32\<rparr>) = Ret d"
  by (auto simp: witness_dest_def addr_Get_def Let_def split: CTxDestination.splits if_splits)

lemma witness_dest_bounds: "witness_dest d = Some (v, h) \<Longrightarrow> v \<le> 14 \<and> 20 \<le> length h \<and> length h \<le> 32"
  by (auto simp: witness_dest_def split: CTxDestination.splits if_splits)

lemma bech32_text:
  assumes i: "GetCoinByIndex (coin_ifaces dis) idx = Some i" and "v \<le> 16" "length h \<le> 40"
  obtains dat str where "five_bits (byte_of v # dat)" "ConvertBits 5 8 False [] dat = (h, True)"
    "fst (ConvertBits 8 5 True [byte_of v] h) = byte_of v # dat"
    "bech32_Encode (name i) (byte_of v # dat) = Some str" "bech32_Decode str = (name i, byte_of v # dat)"
proof -
  obtain dat ok where c: "ConvertBits 8 5 True [] h = (dat, ok)"
    by fastforce
  note bits = ConvertBits_back [OF c]
  then have five: "five_bits (byte_of v # dat)"
    using assms(2) by (simp add: fits_def five_bits_def)
  obtain str where "bech32_Encode (name i) (byte_of v # dat) = Some str" "bech32_Decode str = (name i, byte_of v # dat)"
    using bech32_decode_encode [OF coin_ifaces_cases(3) [OF i] five] coin_ifaces_cases(4) [OF i] bits assms(3) by auto
  with that [OF five] bits show ?thesis
    by (simp add: ConvertBits_out [of "[byte_of v]"] c)
qed

lemma bech32_addr:
  assumes i: "GetCoinByIndex (coin_ifaces dis) (ifaceIndex a) = Some i" "enabled i" "ifaceIndex b = ifaceIndex a"
    and v: "v \<le> 16" "2 \<le> length h" "length h \<le> 40"
  shows "\<exists>str. addr_ToString (coin_ifaces dis) hash (a\<lparr>nType := ADDR_BECH32, vchVersion := [byte_of v], vchData := h\<rparr>) = Ret str
    \<and> (DecodeBase58Check hash (c_str str) = None \<longrightarrow>
        addr_SetString (coin_ifaces dis) hash str b = (True, b\<lparr>vchVersion := [byte_of v], vchData := h, nType := ADDR_BECH32\<rparr>))"
proof -
  obtain dat str where s: "five_bits (byte_of v # dat)" "ConvertBits 5 8 False [] dat = (h, True)"
    "fst (ConvertBits 8 5 True [byte_of v] h) = byte_of v # dat"
    "bech32_Encode (name i) (byte_of v # dat) = Some str" "bech32_Decode str = (name i, byte_of v # dat)"
    by (rule bech32_text [OF i(1) v(1,3)])
  have "params_Bech32HRP (coin_ifaces dis) (ifaceIndex b) (name i)"
    using i coin_ifaces_cases(3) [OF i(1)] by (simp add: params_Bech32HRP_def c_str_plain hrp_ok_def)
  then show ?thesis
    using i v s(2-5) by (simp add: addr_ToString_def addr_SetString_def CBase58Data_SetString_def Let_def)
qed

section \<open>Properties\<close>

text \<open>
  C33. Base58 addresses, for every coin of the program: the text of the address of a key hash or a
  script hash is accepted by an address of the same coin, which then gives back the destination.
  The double hash must give at least the four bytes of the checksum.
\<close>
theorem address_base58_roundtrip:
  assumes "\<forall>v. 4 \<le> length (hash v)" "length h = 20" "d = CKeyID h \<or> d = CScriptID h" "ifaceIndex a = ifaceIndex b"
  shows "\<exists>str b'. addr_ToString (coin_ifaces dis) hash (snd (addr_Set (coin_ifaces dis) d a)) = Ret str
    \<and> addr_SetString (coin_ifaces dis) hash str b = (True, b')
    \<and> addr_Get (coin_ifaces dis) b' = Ret d"
proof -
  obtain v where v: "snd (addr_Set (coin_ifaces dis) d a) = a\<lparr>nType := ADDR_BASE58, vchVersion := [v], vchData := h\<rparr>"
    "d = CKeyID h \<Longrightarrow> unat v = GetPubKeyVersion (coin_ifaces dis) a"
    "d = CScriptID h \<Longrightarrow> unat v = GetScriptVersion (coin_ifaces dis) a"
    by (rule Set_base58 [OF assms(3), of dis a]) blast
  have "addr_ToString (coin_ifaces dis) hash (snd (addr_Set (coin_ifaces dis) d a)) = Ret (EncodeBase58Check hash (v # h))"
    by (simp add: v(1) addr_ToString_def CBase58Data_ToString_def split: option.split)
  moreover note SetString_base58 [of hash v h "coin_ifaces dis" b]
  moreover have "addr_Get (coin_ifaces dis) (b\<lparr>vchVersion := [v], vchData := h, nType := ADDR_BASE58\<rparr>) = Ret d"
    using assms(3) Get_base58 [OF assms(2,4)] v(2,3) by auto
  ultimately show ?thesis
    using assms(1) by auto
qed

theorem address_base58_roundtrip_witness:
  "\<exists>str b'. addr_ToString (coin_ifaces (\<lambda>_. False)) (\<lambda>_. [1, 2, 3, 4])
      (snd (addr_Set (coin_ifaces (\<lambda>_. False)) (CKeyID (replicate 20 7)) (SetNull\<lparr>ifaceIndex := 1\<rparr>))) = Ret str
    \<and> addr_SetString (coin_ifaces (\<lambda>_. False)) (\<lambda>_. [1, 2, 3, 4]) str (SetNull\<lparr>ifaceIndex := 1\<rparr>) = (True, b')
    \<and> addr_Get (coin_ifaces (\<lambda>_. False)) b' = Ret (CKeyID (replicate 20 7))"
  by (rule address_base58_roundtrip) simp_all

text \<open>
  C32. Bech32 addresses, for every enabled coin of the program: the witness destinations of versions
  0 and 14 have a text, and unless that text also passes as base58 with checksum, an address of
  the same coin accepts it and gives back the destination.
\<close>
theorem address_bech32_roundtrip:
  assumes "GetCoinByIndex (coin_ifaces dis) (ifaceIndex a) = Some i" "enabled i" "ifaceIndex b = ifaceIndex a"
    and d: "witness_dest d = Some (v, h)"
  shows "\<exists>str. addr_ToString (coin_ifaces dis) hash (snd (addr_Set (coin_ifaces dis) d a)) = Ret str
    \<and> (DecodeBase58Check hash (c_str str) = None \<longrightarrow>
        (\<exists>b'. addr_SetString (coin_ifaces dis) hash str b = (True, b') \<and> addr_Get (coin_ifaces dis) b' = Ret d))"
proof -
  have "v \<le> 16" "2 \<le> length h" "length h \<le> 40"
    using witness_dest_bounds [OF d] by simp_all
  from bech32_addr [OF assms(1-3) this, of hash] show ?thesis
    by (simp add: witness_dest_Set [OF d]) (metis witness_dest_Get [OF d])
qed

text \<open>The name of the color coin is no base58 text, so its addresses are never taken for one.\<close>

lemma color_text:
  assumes "addr_ToString (coin_ifaces dis) hash a = Ret str" "ifaceIndex a = 6" "nType a = ADDR_BECH32"
  shows "DecodeBase58Check hash (c_str str) = None"
proof -
  have "GetCoinByIndex (coin_ifaces dis) 6 = Some (if dis 6 then color_coin_iface\<lparr>enabled := False\<rparr> else color_coin_iface)"
    by (simp add: GetCoinByIndex_def coin_ifaces_def)
  then obtain r where "str = ''color'' @ r"
    using assms by (auto simp: addr_ToString_def bech32_Encode_def color_coin_iface_def mk_iface_def Let_def split: if_splits option.splits)
  then show ?thesis
    by (simp add: DecodeBase58Check_def DecodeBase58_def c_str_def c_isspace_def pszBase58_def)
qed

theorem address_bech32_roundtrip_witness:
  "\<exists>str b'. addr_ToString (coin_ifaces (\<lambda>_. False)) (\<lambda>_. replicate 32 1)
      (snd (addr_Set (coin_ifaces (\<lambda>_. False)) (WitnessV14KeyHash (replicate 20 7)) (SetNull\<lparr>ifaceIndex := 6\<rparr>))) = Ret str
    \<and> addr_SetString (coin_ifaces (\<lambda>_. False)) (\<lambda>_. replicate 32 1) str (SetNull\<lparr>ifaceIndex := 6\<rparr>) = (True, b')
    \<and> addr_Get (coin_ifaces (\<lambda>_. False)) b' = Ret (WitnessV14KeyHash (replicate 20 7))"
proof -
  let ?a = "SetNull\<lparr>ifaceIndex := 6\<rparr>"
  have "GetCoinByIndex (coin_ifaces (\<lambda>_. False)) (ifaceIndex ?a) = Some color_coin_iface" "enabled color_coin_iface"
    "witness_dest (WitnessV14KeyHash (replicate 20 7)) = Some (14, replicate 20 7)"
    by (simp_all add: GetCoinByIndex_def coin_ifaces_def color_coin_iface_def mk_iface_def witness_dest_def)
  from address_bech32_roundtrip [OF this(1,2) refl this(3), of "(\<lambda>_. replicate 32 1)"] show ?thesis
    using color_text [of "\<lambda>_. False" "(\<lambda>_. replicate 32 1)"] by (auto simp: addr_Set_def SetData_def)
qed

text \<open>
  C39. A bech32 address of witness version 5 is taken for another output: its text is accepted, and
  the destination read from it is the script hash made of the first 20 bytes of the program, or
  a read past the program if it has fewer bytes.
\<close>
theorem address_bech32_version5:
  assumes "GetCoinByIndex (coin_ifaces dis) (ifaceIndex a) = Some i" "enabled i" "ifaceIndex b = ifaceIndex a"
    and h: "2 \<le> length h" "length h \<le> 40"
  shows "\<exists>str. addr_ToString (coin_ifaces dis) hash (snd (addr_Set (coin_ifaces dis) (WitnessUnknown 5 h) a)) = Ret str
    \<and> (DecodeBase58Check hash (c_str str) = None \<longrightarrow>
        (\<exists>b'. addr_SetString (coin_ifaces dis) hash str b = (True, b')
          \<and> addr_Get (coin_ifaces dis) b' = (if length h < 20 then Segv else Ret (CScriptID (take 20 h)))))"
proof -
  have get: "addr_Get (coin_ifaces dis) (b\<lparr>vchVersion := [byte_of 5], vchData := h, nType := ADDR_BECH32\<rparr>) =
      (if length h < 20 then Segv else Ret (CScriptID (take 20 h)))"
    by (simp add: addr_Get_def IsValid_def pubkey_version_def script_version_def memcpy20_def)
  from bech32_addr [OF assms(1-3) _ h, of 5 hash] show ?thesis
    by (simp add: addr_Set_def SetData_def) (metis get)
qed

theorem address_bech32_version5_witness:
  "\<exists>str b'. addr_ToString (coin_ifaces (\<lambda>_. False)) (\<lambda>_. replicate 32 1)
      (snd (addr_Set (coin_ifaces (\<lambda>_. False)) (WitnessUnknown 5 (replicate 32 7)) (SetNull\<lparr>ifaceIndex := 6\<rparr>))) = Ret str
    \<and> addr_SetString (coin_ifaces (\<lambda>_. False)) (\<lambda>_. replicate 32 1) str (SetNull\<lparr>ifaceIndex := 6\<rparr>) = (True, b')
    \<and> addr_Get (coin_ifaces (\<lambda>_. False)) b' = Ret (CScriptID (replicate 20 7))"
proof -
  let ?a = "SetNull\<lparr>ifaceIndex := 6\<rparr>"
  have "GetCoinByIndex (coin_ifaces (\<lambda>_. False)) (ifaceIndex ?a) = Some color_coin_iface" "enabled color_coin_iface"
    by (simp_all add: GetCoinByIndex_def coin_ifaces_def color_coin_iface_def mk_iface_def)
  from address_bech32_version5 [OF this refl, of "replicate 32 7" "(\<lambda>_. replicate 32 1)"] show ?thesis
    using color_text [of "\<lambda>_. False" "(\<lambda>_. replicate 32 1)"] by (auto simp: addr_Set_def SetData_def)
qed

text \<open>
  The readers of a base58 address agree: \<open>Get\<close> reads nothing out of bounds, it gives a key
  hash exactly if \<open>GetKeyID\<close> does and a script hash exactly if \<open>GetScriptID\<close> and \<open>IsScript\<close> do,
  for every table of interfaces and every content of the address.
\<close>
lemma address_readers_agree:
  assumes "nType a \<noteq> ADDR_BECH32"
  shows "\<exists>d. addr_Get tab a = Ret d
    \<and> (\<forall>h. GetKeyID tab a = Ret (Some h) \<longleftrightarrow> d = CKeyID h)
    \<and> (\<forall>h. GetScriptID tab a = Ret (Some h) \<longleftrightarrow> d = CScriptID h)
    \<and> (IsScript tab a \<longleftrightarrow> (\<exists>h. d = CScriptID h))"
proof (cases "IsValid tab a \<and> length (vchVersion a) = 1")
  case True
  then have "length (vchData a) = 20" "pubkey_version (unat (hd (vchVersion a))) \<noteq> script_version (unat (hd (vchVersion a)))"
    using assms by (auto simp: IsValid_def pubkey_version_def script_version_def Let_def split: if_splits)
  with True assms show ?thesis
    by (auto simp: addr_Get_def GetKeyID_def GetScriptID_def IsScript_def memcpy20_def Let_def)
qed (use assms in \<open>auto simp: addr_Get_def GetKeyID_def GetScriptID_def IsScript_def Let_def\<close>)

end
