(* ===== verification/Coin_Witness.thy ===== *)
theory Coin_Witness
  imports Coin_Addr
begin

text \<open>
  Scripts of addresses, witness addresses for the keys and scripts of a wallet, and the text of a
  secret key (server/coinaddr.cpp, server/keystore.cpp, \<open>CCoinSecret\<close> of server/base58.h).

  The key store is its two maps. A secret key is kept in the version and data fields that it
  shares with addresses. \<open>alt\<close>, \<open>hash160\<close> and \<open>sha256\<close> stand for the other chains and the
  crypto library.
\<close>

section \<open>The key store\<close>

text \<open>
  Of a key the store tells whether it is compressed and whether it is a dilithium key; scripts are
  kept under their hash.
\<close>

record keystore =
  mapKeys :: "valtype \<Rightarrow> (bool \<times> bool) option"
  mapScripts :: "valtype \<Rightarrow> script option"

definition AddCScript :: "(valtype \<Rightarrow> valtype) \<Rightarrow> script \<Rightarrow> keystore \<Rightarrow> keystore" where
  "AddCScript hash160 redeemScript ks = ks\<lparr>mapScripts := (mapScripts ks)(hash160 redeemScript := Some redeemScript)\<rparr>"

definition HaveCScript :: "keystore \<Rightarrow> valtype \<Rightarrow> bool" where
  "HaveCScript ks h \<longleftrightarrow> mapScripts ks h \<noteq> None"

definition GetCScript :: "keystore \<Rightarrow> valtype \<Rightarrow> script option" where
  "GetCScript ks h = mapScripts ks h"

section \<open>Scripts of addresses\<close>

definition addr_SetScript :: "iface_table \<Rightarrow> alt_chains \<Rightarrow> (valtype \<Rightarrow> valtype) \<Rightarrow> script \<Rightarrow> CCoinAddr \<Rightarrow> (bool \<times> CCoinAddr) res" where
  "addr_SetScript tab alt hash160 script a =
     andThen (ExtractDestination alt hash160 script)
       (\<lambda>dest. Ret (case dest of None \<Rightarrow> (False, a) | Some d \<Rightarrow> addr_Set tab d a))"

definition addr_GetScript :: "iface_table \<Rightarrow> CCoinAddr \<Rightarrow> script option res" where
  "addr_GetScript tab a = andThen (addr_Get tab a) (\<lambda>d. Ret (GetScriptForDestination d))"

text \<open>\<open>None\<close> is the failed assertion on a version above 16.\<close>

definition GetScriptForWitness ::
  "alt_chains \<Rightarrow> (valtype \<Rightarrow> valtype) \<Rightarrow> (valtype \<Rightarrow> valtype) \<Rightarrow> script \<Rightarrow> int \<Rightarrow> script option res" where
  "GetScriptForWitness alt hash160 sha256 redeemscript nVer =
     (case EncodeOP_N nVer of
        None \<Rightarrow> Ret None
      | Some opVer \<Rightarrow>
        andThen (Solver alt redeemscript TX_NONSTANDARD [])
          (\<lambda>(ok, typ, vSolutions).
             if ok \<and> typ = TX_PUBKEY then Ret (Some (put_op opVer @ put_vch (hash160 (vSolutions ! 0))))
             else if ok \<and> typ = TX_PUBKEYHASH then Ret (Some (put_op opVer @ put_vch (vSolutions ! 0)))
             else Ret (Some (put_op opVer @ put_vch (sha256 redeemscript)))))"

datatype output_type =
    OUTPUT_TYPE_NONE | OUTPUT_TYPE_LEGACY | OUTPUT_TYPE_P2SH_SEGWIT | OUTPUT_TYPE_BECH32 | OUTPUT_TYPE_DILITHIUM

record wit_env =
  we_alt :: alt_chains
  we_hash160 :: "valtype \<Rightarrow> valtype"
  we_sha256 :: "valtype \<Rightarrow> valtype"
  we_opt_bech32 :: bool

text \<open>The two branches of \<open>GetWitness\<close>: for a key and for a script of the wallet.\<close>

definition witness_of_key :: "wit_env \<Rightarrow> output_type \<Rightarrow> valtype \<Rightarrow> keystore \<Rightarrow> (CTxDestination \<times> keystore) option res" where
  "witness_of_key env otype keyID ks =
     (case mapKeys ks keyID of
        None \<Rightarrow> Ret (Some (CNoDestination, ks))
      | Some (compressed, dilithium) \<Rightarrow>
        if \<not> compressed then Ret (Some (CNoDestination, ks))
        else (let otype = (if dilithium then OUTPUT_TYPE_DILITHIUM else otype);
                  ver = (if otype = OUTPUT_TYPE_DILITHIUM then 14 else 0)
              in case GetScriptForDestination (CKeyID keyID) of
                   None \<Rightarrow> Ret None
                 | Some basescript \<Rightarrow>
                   andThen (GetScriptForWitness (we_alt env) (we_hash160 env) (we_sha256 env) basescript ver)
                     (\<lambda>w. Ret (map_option (\<lambda>witscript.
                        (if otype = OUTPUT_TYPE_DILITHIUM then WitnessV14KeyHash keyID
                         else if otype = OUTPUT_TYPE_BECH32 then WitnessV0KeyHash keyID
                         else CScriptID (we_hash160 env witscript),
                         AddCScript (we_hash160 env) witscript ks)) w))))"

definition witness_of_script :: "wit_env \<Rightarrow> output_type \<Rightarrow> valtype \<Rightarrow> keystore \<Rightarrow> (CTxDestination \<times> keystore) option res" where
  "witness_of_script env otype scriptID ks =
     (case GetCScript ks scriptID of
        None \<Rightarrow> Ret (Some (CNoDestination, ks))
      | Some subscript \<Rightarrow>
        if IsWitnessProgram subscript \<noteq> None then Ret (Some (CScriptID scriptID, ks))
        else andThen (GetScriptForWitness (we_alt env) (we_hash160 env) (we_sha256 env) subscript
                       (if otype = OUTPUT_TYPE_DILITHIUM then 14 else 0))
               (\<lambda>w. Ret (map_option (\<lambda>witscript.
                  (if otype = OUTPUT_TYPE_DILITHIUM then WitnessV14ScriptHash (we_sha256 env subscript)
                   else if otype = OUTPUT_TYPE_BECH32 then WitnessV0ScriptHash (we_sha256 env subscript)
                   else CScriptID (we_hash160 env witscript),
                   AddCScript (we_hash160 env) witscript ks)) w)))"

definition GetWitness :: "wit_env \<Rightarrow> iface_table \<Rightarrow> output_type \<Rightarrow> CCoinAddr \<Rightarrow> keystore \<Rightarrow> (CTxDestination \<times> keystore) option res" where
  "GetWitness env tab otype a ks =
     (if \<not> IsValid tab a then Ret (Some (CNoDestination, ks))
      else if nType a = ADDR_BECH32 then andThen (addr_Get tab a) (\<lambda>d. Ret (Some (d, ks)))
      else (let otype = (if otype \<noteq> OUTPUT_TYPE_NONE then otype
                         else if we_opt_bech32 env then OUTPUT_TYPE_BECH32 else OUTPUT_TYPE_P2SH_SEGWIT)
            in andThen (GetKeyID tab a)
              (\<lambda>key. case key of
                 Some keyID \<Rightarrow> witness_of_key env otype keyID ks
               | None \<Rightarrow>
                 andThen (GetScriptID tab a)
                   (\<lambda>scr. case scr of
                      Some scriptID \<Rightarrow> witness_of_script env otype scriptID ks
                    | None \<Rightarrow> Ret (Some (CNoDestination, ks))))))"

section \<open>Secret keys as text\<close>

definition SetSecret :: "CIface option \<Rightarrow> byte list \<Rightarrow> bool \<Rightarrow> CCoinAddr \<Rightarrow> CCoinAddr" where
  "SetSecret iface vchSecret fCompressed a =
     (let a = SetData (BASE58_PUBKEY_ADDRESS iface + 128) vchSecret a
      in if fCompressed then a\<lparr>vchData := vchData a @ [1]\<rparr> else a)"

definition GetSecret :: "CCoinAddr \<Rightarrow> byte list \<times> bool" where
  "GetSecret a =
     (if length (vchData a) = 32 then (vchData a, False)
      else if length (vchData a) = 33 then (butlast (vchData a), True)
      else if length (vchData a) = 97 then (butlast (vchData a), True)
      else ([], False))"

definition secret_IsValid :: "CCoinAddr \<Rightarrow> bool" where
  "secret_IsValid a \<longleftrightarrow>
     (length (vchVersion a) = 4 \<or> (length (vchVersion a) = 1 \<and> 128 < unat (hd (vchVersion a))))
     \<and> (length (vchData a) = 32
        \<or> (length (vchData a) = 33 \<and> vchData a ! 32 = 1)
        \<or> (length (vchData a) = 97 \<and> vchData a ! 96 = 1))"

definition secret_SetString :: "(byte list \<Rightarrow> byte list) \<Rightarrow> string \<Rightarrow> CCoinAddr \<Rightarrow> bool \<times> CCoinAddr" where
  "secret_SetString hash pszSecret a =
     (case CBase58Data_SetString hash pszSecret 1 a of
        (False, a1) \<Rightarrow> (False, a1)
      | (True, a1) \<Rightarrow> (secret_IsValid a1, a1))"

section \<open>Properties\<close>

lemma GetScriptForWitness_p2pkh:
  assumes "length k = 20" "v = 0 \<or> v = 14"
  shows "GetScriptForWitness alt h160 sha (p2pkh k) (int v) = Ret (Some (wit_script v k))"
  using assms(2) Solver_p2pkh [OF assms(1), of alt TX_NONSTANDARD]
  by (auto simp: GetScriptForWitness_def EncodeOP_N_def wit_script_def small_op_def)

lemma GetKeyID_length: "GetKeyID tab a = Ret (Some k) \<Longrightarrow> IsValid tab a \<and> length k = 20"
  by (auto simp: GetKeyID_def memcpy20_def split: if_splits)

text \<open>
  A witness address for a key of the wallet: \<open>GetWitness\<close> on a base58 address of a compressed
  key gives a destination whose output is the witness program of the key hash, version 14 for
  dilithium and 0 otherwise, or the script hash of that program, which the key store then knows.
\<close>
lemma GetWitness_key:
  assumes "nType a \<noteq> ADDR_BECH32" "GetKeyID tab a = Ret (Some k)" "mapKeys ks k = Some (True, dil)"
    and ver: "ver = (if dil \<or> otype = OUTPUT_TYPE_DILITHIUM then 14 else 0)"
  shows "\<exists>d ks' s. GetWitness env tab otype a ks = Ret (Some (d, ks')) \<and> GetScriptForDestination d = Some s
    \<and> (s = wit_script ver k
       \<or> s = p2sh (we_hash160 env (wit_script ver k))
         \<and> GetCScript ks' (we_hash160 env (wit_script ver k)) = Some (wit_script ver k))
    \<and> mapKeys ks' = mapKeys ks
    \<and> (\<forall>h. h \<noteq> we_hash160 env (wit_script ver k) \<longrightarrow> GetCScript ks' h = GetCScript ks h)"
proof -
  note k = GetKeyID_length [OF assms(2)]
  note w = GetScriptForWitness_p2pkh [of k _ "we_alt env" "we_hash160 env" "we_sha256 env"]
  have "GetScriptForWitness (we_alt env) (we_hash160 env) (we_sha256 env) (p2pkh k) 0 = Ret (Some (wit_script 0 k))"
    "GetScriptForWitness (we_alt env) (we_hash160 env) (we_sha256 env) (p2pkh k) 14 = Ret (Some (wit_script 14 k))"
    using w [of 0] w [of 14] k by simp_all
  then show ?thesis
    using assms(1-3) k
    by (auto simp: GetWitness_def witness_of_key_def GetScriptForDestination_forms AddCScript_def GetCScript_def ver Let_def)
qed

lemma addr_Set_Get:
  assumes "dest_ok d"
  shows "\<exists>a'. addr_Set (coin_ifaces dis) d a = (True, a') \<and> addr_Get (coin_ifaces dis) a' = Ret d"
proof (cases "\<exists>h. d = CKeyID h \<or> d = CScriptID h")
  case True
  then obtain h where h: "d = CKeyID h \<or> d = CScriptID h" "length h = 20"
    using assms by (auto simp: dest_ok_def)
  obtain v where v: "snd (addr_Set (coin_ifaces dis) d a) = a\<lparr>nType := ADDR_BASE58, vchVersion := [v], vchData := h\<rparr>"
    "d = CKeyID h \<Longrightarrow> unat v = GetPubKeyVersion (coin_ifaces dis) a"
    "d = CScriptID h \<Longrightarrow> unat v = GetScriptVersion (coin_ifaces dis) a"
    by (rule Set_base58 [OF h(1), of dis a]) blast
  have "a\<lparr>nType := ADDR_BASE58, vchVersion := [v], vchData := h\<rparr> = a\<lparr>vchVersion := [v], vchData := h, nType := ADDR_BASE58\<rparr>"
    by simp
  then have "addr_Get (coin_ifaces dis) (snd (addr_Set (coin_ifaces dis) d a)) = Ret d"
    using Get_base58 [OF h(2) refl] v h(1) by metis
  moreover have "fst (addr_Set (coin_ifaces dis) d a)"
    using h(1) by (auto simp: addr_Set_def)
  ultimately show ?thesis
    by (intro exI [of _ "snd (addr_Set (coin_ifaces dis) d a)"]) (simp add: prod_eq_iff)
next
  case False
  with assms obtain v h where d: "witness_dest d = Some (v, h)"
    by (auto simp: dest_ok_def witness_dest_def split: CTxDestination.splits)
  have "fst (addr_Set (coin_ifaces dis) d a)"
    using d by (auto simp: addr_Set_def witness_dest_def split: CTxDestination.splits)
  moreover have "a\<lparr>nType := ADDR_BECH32, vchVersion := [byte_of v], vchData := h\<rparr> = a\<lparr>vchVersion := [byte_of v], vchData := h, nType := ADDR_BECH32\<rparr>"
    by simp
  then have "addr_Get (coin_ifaces dis) (snd (addr_Set (coin_ifaces dis) d a)) = Ret d"
    by (simp only: witness_dest_Set [OF d] witness_dest_Get [OF d])
  ultimately show ?thesis
    by (intro exI [of _ "snd (addr_Set (coin_ifaces dis) d a)"]) (simp add: prod_eq_iff)
qed

text \<open>
  Scripts of addresses: for a destination with a standard output, the address set from the
  script of the destination has this script again.
\<close>
lemma address_script_roundtrip:
  assumes "dest_ok d" "GetScriptForDestination d = Some s"
  shows "\<exists>a'. addr_SetScript (coin_ifaces dis) alt hash160 s a = Ret (True, a') \<and> addr_GetScript (coin_ifaces dis) a' = Ret (Some s)"
proof -
  have "ExtractDestination alt hash160 s = Ret (Some d)"
    using assms by (rule ExtractDestination_dest)
  moreover obtain a' where "addr_Set (coin_ifaces dis) d a = (True, a')" "addr_Get (coin_ifaces dis) a' = Ret d"
    using addr_Set_Get [OF assms(1)] by blast
  ultimately show ?thesis
    using assms(2) by (simp add: addr_SetScript_def addr_GetScript_def)
qed

text \<open>
  Secret keys as text: a key of 32 bytes, compressed or not, and a dilithium key of 96 bytes
  are read back from the text, with the compression flag.
\<close>
lemma secret_roundtrip:
  assumes "\<forall>v. 4 \<le> length (hash v)" "length secret = 32 \<or> length secret = 96 \<and> compressed"
  shows "\<exists>b'. secret_SetString hash (CBase58Data_ToString hash
        (SetSecret (GetCoinByIndex (coin_ifaces dis) idx) secret compressed a)) b = (True, b')
    \<and> GetSecret b' = (secret, compressed)"
proof -
  let ?s = "SetSecret (GetCoinByIndex (coin_ifaces dis) idx) secret compressed a"
  let ?v = "BASE58_PUBKEY_ADDRESS (GetCoinByIndex (coin_ifaces dis) idx)" and ?d = "if compressed then secret @ [1] else secret"
  have "pubkey_version ?v"
    using version_ok(1) [of dis "a\<lparr>ifaceIndex := idx\<rparr>"] by (simp add: GetPubKeyVersion_def)
  then have v: "128 < unat (byte_of (?v + 128))"
    by (auto simp: pubkey_version_def)
  have d: "vchVersion ?s = [byte_of (?v + 128)]" "vchData ?s = ?d"
    by (simp_all add: SetSecret_def SetData_def Let_def)
  have "secret_SetString hash (CBase58Data_ToString hash ?s) b =
    (True, b\<lparr>vchVersion := [byte_of (?v + 128)], vchData := ?d\<rparr>)"
    using assms v by (auto simp: secret_SetString_def CBase58Data_SetString_def CBase58Data_ToString_def d Base58Check_back
        secret_IsValid_def nth_append)
  then show ?thesis
    using assms(2) by (auto simp: GetSecret_def)
qed

end
