(* ===== verification/Merkle.thy ===== *)
theory Merkle
  imports Coin_Prelude
begin

text \<open>
  Merkle trees: the constant-space computation of roots and branches in \<open>wit_merkle.cpp\<close>, the roots of
  \<open>sha256d_merkle.cpp\<close> and the stored tree of \<open>block_merkle.cpp\<close>. The hash of two hashes is a
  parameter. \<open>MerkleComputation\<close> and the stored tree are shown to give the root of the tree in which
  the last node of an odd row is paired with itself; a branch leads from its leaf to the root; and a
  root that was computed without the mutation flag fixes its leaves. The roots of \<open>sha256d_merkle.cpp\<close>
  are folds from the left, not trees.
\<close>

section \<open>The constant-space computation\<close>

text \<open>
  \<open>H\<close> is the hash of two hashes put together. Bits of the 32-bit counter are tested by shifting, so
  a level of 32 is undefined; it is also outside of the array \<open>inner\<close>. What \<open>inner\<close> holds before it
  is written does not matter.

  The loop that combines a hash with the hashes before it, up to the first level at which the
  counter has a one bit: the level it ends at, the hash, whether it covers the leaf in question,
  the branch, and whether two equal hashes were combined.
\<close>

function climb ::
  "('h \<Rightarrow> 'h \<Rightarrow> 'h) \<Rightarrow> nat \<Rightarrow> (nat \<Rightarrow> 'h) \<Rightarrow> int \<Rightarrow> bool \<Rightarrow> nat \<Rightarrow> 'h \<Rightarrow> bool \<Rightarrow> 'h list \<Rightarrow> bool
    \<Rightarrow> (nat \<times> 'h \<times> bool \<times> 'h list \<times> bool) res" where
  "climb H count inner matchlevel pbranch level h matchh branch mutated =
     (if level \<ge> 32 then Segv
      else if bit count level then Ret (level, h, matchh, branch, mutated)
      else climb H count inner matchlevel pbranch (level + 1) (H (inner level) h)
             (if pbranch \<and> \<not> matchh \<and> matchlevel = int level then True else matchh)
             (if pbranch \<and> matchh then branch @ [inner level]
              else if pbranch \<and> matchlevel = int level then branch @ [h]
              else branch)
             (mutated \<or> inner level = h))"
  by pat_completeness auto
termination
  by (relation "measure (\<lambda>(H, count, inner, ml, pb, level, h, m, b, mut). 32 - level)") auto

declare climb.simps [simp del]

fun leaf_loop ::
  "('h \<Rightarrow> 'h \<Rightarrow> 'h) \<Rightarrow> nat \<Rightarrow> bool \<Rightarrow> 'h list \<Rightarrow> nat \<Rightarrow> (nat \<Rightarrow> 'h) \<Rightarrow> int \<Rightarrow> 'h list \<Rightarrow> bool
    \<Rightarrow> (nat \<times> (nat \<Rightarrow> 'h) \<times> int \<times> 'h list \<times> bool) res" where
  "leaf_loop H branchpos pbranch [] count inner matchlevel branch mutated = Ret (count, inner, matchlevel, branch, mutated)"
| "leaf_loop H branchpos pbranch (x # leaves) count inner matchlevel branch mutated =
     andThen (climb H ((count + 1) mod 2 ^ 32) inner matchlevel pbranch 0 x (count = branchpos) branch mutated)
       (\<lambda>(level, h, matchh, branch, mutated).
         leaf_loop H branchpos pbranch leaves ((count + 1) mod 2 ^ 32) (inner(level := h))
           (if matchh then int level else matchlevel) branch mutated)"

function lowest_level :: "nat \<Rightarrow> nat \<Rightarrow> nat res" where
  "lowest_level count level =
     (if level \<ge> 32 then Segv
      else if bit count level then Ret level
      else lowest_level count (level + 1))"
  by pat_completeness auto
termination
  by (relation "measure (\<lambda>(count, level). 32 - level)") auto

declare lowest_level.simps [simp del]

text \<open>The sweep over the right border; each round ends at a higher level, so 32 rounds are enough.\<close>

fun sweep ::
  "nat \<Rightarrow> ('h \<Rightarrow> 'h \<Rightarrow> 'h) \<Rightarrow> nat \<Rightarrow> (nat \<Rightarrow> 'h) \<Rightarrow> int \<Rightarrow> bool \<Rightarrow> nat \<Rightarrow> 'h \<Rightarrow> bool \<Rightarrow> 'h list \<Rightarrow> ('h \<times> 'h list) res" where
  "sweep fuel H count inner matchlevel pbranch level h matchh branch =
     (if level \<ge> 32 then Segv
      else if count = 2 ^ level then Ret (h, branch)
      else case fuel of
        0 \<Rightarrow> Hang
      | Suc n \<Rightarrow>
        (let branch = (if pbranch \<and> matchh then branch @ [h] else branch);
             count = (count + 2 ^ level) mod 2 ^ 32
         in andThen (climb H count inner matchlevel pbranch (level + 1) (H h h) matchh branch False)
              (\<lambda>(level, h, matchh, branch, _). sweep n H count inner matchlevel pbranch level h matchh branch)))"

declare sweep.simps [simp del]

definition MerkleComputation ::
  "('h \<Rightarrow> 'h \<Rightarrow> 'h) \<Rightarrow> 'h \<Rightarrow> (nat \<Rightarrow> 'h) \<Rightarrow> 'h list \<Rightarrow> nat \<Rightarrow> bool \<Rightarrow> ('h \<times> bool \<times> 'h list) res" where
  "MerkleComputation H null inner leaves branchpos pbranch =
     (if leaves = [] then Ret (null, False, [])
      else andThen (leaf_loop H branchpos pbranch leaves 0 inner (-1) [] False)
        (\<lambda>(count, inner, matchlevel, branch, mutated).
          andThen (lowest_level count 0)
            (\<lambda>level. andThen (sweep 32 H count inner matchlevel pbranch level (inner level) (matchlevel = int level) branch)
              (\<lambda>(h, branch). Ret (h, mutated, branch)))))"

definition ComputeMerkleRoot :: "('h \<Rightarrow> 'h \<Rightarrow> 'h) \<Rightarrow> 'h \<Rightarrow> (nat \<Rightarrow> 'h) \<Rightarrow> 'h list \<Rightarrow> ('h \<times> bool) res" where
  "ComputeMerkleRoot H null inner leaves =
     andThen (MerkleComputation H null inner leaves (2 ^ 32 - 1) False) (\<lambda>(hash, mutated, _). Ret (hash, mutated))"

definition ComputeMerkleBranch :: "('h \<Rightarrow> 'h \<Rightarrow> 'h) \<Rightarrow> 'h \<Rightarrow> (nat \<Rightarrow> 'h) \<Rightarrow> 'h list \<Rightarrow> nat \<Rightarrow> 'h list res" where
  "ComputeMerkleBranch H null inner leaves position =
     andThen (MerkleComputation H null inner leaves position True) (\<lambda>(_, _, ret). Ret ret)"

fun ComputeMerkleRootFromBranch :: "('h \<Rightarrow> 'h \<Rightarrow> 'h) \<Rightarrow> 'h \<Rightarrow> 'h list \<Rightarrow> nat \<Rightarrow> 'h" where
  "ComputeMerkleRootFromBranch H hash [] nIndex = hash"
| "ComputeMerkleRootFromBranch H hash (x # vMerkleBranch) nIndex =
     ComputeMerkleRootFromBranch H (if odd nIndex then H x hash else H hash x) vMerkleBranch (nIndex div 2)"

definition BlockWitnessMerkleRoot :: "('h \<Rightarrow> 'h \<Rightarrow> 'h) \<Rightarrow> 'h \<Rightarrow> (nat \<Rightarrow> 'h) \<Rightarrow> ('tx \<Rightarrow> 'h) \<Rightarrow> 'tx list \<Rightarrow> ('h \<times> bool) res" where
  "BlockWitnessMerkleRoot H null inner witnessHash vtx =
     (case vtx of
        [] \<Rightarrow> Segv
      | tx # txs \<Rightarrow> ComputeMerkleRoot H null inner (null # map witnessHash txs))"

section \<open>The tree as a vector\<close>

function tree_row :: "('h \<Rightarrow> 'h \<Rightarrow> 'h) \<Rightarrow> 'h list \<Rightarrow> nat \<Rightarrow> nat \<Rightarrow> nat \<Rightarrow> 'h list" where
  "tree_row H vMerkleTree j nSize i =
     (if i < nSize
      then (let i2 = min (i + 1) (nSize - 1)
            in tree_row H (vMerkleTree @ [H (vMerkleTree ! (j + i)) (vMerkleTree ! (j + i2))]) j nSize (i + 2))
      else vMerkleTree)"
  by pat_completeness auto
termination
  by (relation "measure (\<lambda>(H, v, j, nSize, i). nSize - i)") auto

declare tree_row.simps [simp del]

function tree_rows :: "('h \<Rightarrow> 'h \<Rightarrow> 'h) \<Rightarrow> 'h list \<Rightarrow> nat \<Rightarrow> nat \<Rightarrow> 'h list" where
  "tree_rows H vMerkleTree j nSize =
     (if nSize > 1 then tree_rows H (tree_row H vMerkleTree j nSize 0) (j + nSize) ((nSize + 1) div 2)
      else vMerkleTree)"
  by pat_completeness auto
termination
  by (relation "measure (\<lambda>(H, v, j, nSize). nSize)") auto

declare tree_rows.simps [simp del]

fun sha256d_ComputeMerkleRoot :: "('h \<Rightarrow> 'h \<Rightarrow> 'h) \<Rightarrow> 'h list \<Rightarrow> 'h res" where
  "sha256d_ComputeMerkleRoot H [] = Segv"
| "sha256d_ComputeMerkleRoot H (hash # hashes) = Ret (foldl H hash hashes)"

text \<open>
  The algorithms are numbered as in \<open>algobits.h\<close>. \<open>sha256\<close> is the single hash of the first
  transaction that one of the algorithms uses instead of its hash.
\<close>

definition BuildMerkleTree ::
  "('h \<Rightarrow> 'h \<Rightarrow> 'h) \<Rightarrow> 'h \<Rightarrow> ('tx \<Rightarrow> 'h) \<Rightarrow> ('tx \<Rightarrow> 'h) \<Rightarrow> bool \<Rightarrow> nat \<Rightarrow> 'tx list \<Rightarrow> 'h res" where
  "BuildMerkleTree H null GetHash sha256 usesAlgo algo vtx =
     (if usesAlgo \<and> algo \<in> {1, 2, 3, 4, 5, 7} then sha256d_ComputeMerkleRoot H (map GetHash vtx)
      else if usesAlgo \<and> algo = 6
      then (case vtx of [] \<Rightarrow> Segv | tx # txs \<Rightarrow> sha256d_ComputeMerkleRoot H (sha256 tx # map GetHash txs))
      else (let vMerkleTree = tree_rows H (map GetHash vtx) 0 (length vtx)
            in Ret (if vMerkleTree \<noteq> [] then last vMerkleTree else null)))"

section \<open>The rows of a tree\<close>

lemma div_exp_Suc: "n div 2 ^ Suc l = n div 2 ^ l div 2" for n :: nat
  by (simp only: power_Suc2 div_mult2_eq)

fun pair_up :: "('h \<Rightarrow> 'h \<Rightarrow> 'h) \<Rightarrow> 'h list \<Rightarrow> 'h list" where
  "pair_up H [] = []"
| "pair_up H [x] = [H x x]"
| "pair_up H (x # y # xs) = H x y # pair_up H xs"

definition row :: "('h \<Rightarrow> 'h \<Rightarrow> 'h) \<Rightarrow> 'h list \<Rightarrow> nat \<Rightarrow> 'h list" where
  "row H xs l = (pair_up H ^^ l) xs"

lemma row_0 [simp]: "row H xs 0 = xs"
  by (simp add: row_def)

lemma row_Suc: "row H xs (Suc l) = pair_up H (row H xs l)"
  by (simp add: row_def)

lemma length_pair_up [simp]: "length (pair_up H xs) = (length xs + 1) div 2"
  by (induction H xs rule: pair_up.induct) auto

lemma nth_pair_up:
  "i < (length xs + 1) div 2 \<Longrightarrow> pair_up H xs ! i = H (xs ! (2 * i)) (xs ! (min (2 * i + 1) (length xs - 1)))"
proof (induction H xs arbitrary: i rule: pair_up.induct)
  case (3 H x y xs)
  then show ?case
    by (cases i) (auto simp: min_def nth_Cons')
qed auto

lemma row_shift: "row H (pair_up H xs) l = row H xs (Suc l)"
  unfolding row_def by (simp only: funpow_Suc_right o_apply)

function merkle_root :: "('h \<Rightarrow> 'h \<Rightarrow> 'h) \<Rightarrow> 'h list \<Rightarrow> 'h" where
  "merkle_root H xs = (if length xs \<le> 1 then hd xs else merkle_root H (pair_up H xs))"
  by pat_completeness auto
termination
  by (relation "measure (\<lambda>(H, xs). length xs)") auto

declare merkle_root.simps [simp del]


lemma merkle_root_row:
  "length (row H xs d) = 1 \<Longrightarrow> (\<forall>l < d. 1 < length (row H xs l)) \<Longrightarrow> merkle_root H xs = row H xs d ! 0"
proof (induction d arbitrary: xs)
  case 0
  then show ?case
    by (simp add: merkle_root.simps hd_conv_nth length_greater_0_conv [symmetric] del: length_greater_0_conv)
next
  case (Suc d)
  have "1 < length xs"
    using Suc.prems(2) by force
  then have "merkle_root H xs = merkle_root H (pair_up H xs)"
    by (simp add: merkle_root.simps [of H xs])
  also have "\<dots> = row H (pair_up H xs) d ! 0"
    using Suc.prems by (intro Suc.IH) (auto simp: row_shift)
  finally show ?case
    by (simp add: row_shift)
qed

text \<open>Subtrees without duplicated leaves: there are \<open>n div 2 ^ l\<close> of them in row \<open>l\<close> of \<open>n\<close> leaves.\<close>

lemma row_length_Suc [simp]: "length (row H xs (Suc l)) = (length (row H xs l) + 1) div 2"
  by (simp add: row_Suc)

lemma full_le_row: "length xs div 2 ^ l \<le> length (row H xs l)"
proof (induction l)
  case (Suc l)
  have "length xs div 2 ^ Suc l = length xs div 2 ^ l div 2"
    by (rule div_exp_Suc)
  also have "\<dots> \<le> length (row H xs l) div 2"
    using Suc by (rule div_le_mono)
  finally show ?case
    by simp
qed simp

lemma row_full:
  assumes "i < length xs div 2 ^ Suc l"
  shows "row H xs (Suc l) ! i = H (row H xs l ! (2 * i)) (row H xs l ! (2 * i + 1))"
proof -
  have "length xs div 2 ^ Suc l = length xs div 2 ^ l div 2"
    by (rule div_exp_Suc)
  then have "2 * i + 2 \<le> length xs div 2 ^ l"
    using assms by linarith
  also have "\<dots> \<le> length (row H xs l)"
    by (rule full_le_row)
  finally show ?thesis
    by (simp add: row_Suc nth_pair_up)
qed

lemma row_last_even:
  assumes "even (length (row H xs l))" "0 < length (row H xs l)"
  shows "row H xs (Suc l) ! (length (row H xs l) div 2 - 1) =
    H (row H xs l ! (length (row H xs l) - 2)) (row H xs l ! (length (row H xs l) - 1))"
proof -
  obtain m where m: "length (row H xs l) = 2 * m"
    using assms(1) by blast
  then have "2 * (m - 1) = 2 * m - 2" "min (2 * (m - 1) + 1) (2 * m - 1) = 2 * m - 1"
    using assms(2) by auto
  with m assms(2) show ?thesis
    by (simp add: row_Suc nth_pair_up)
qed

lemma row_last_odd:
  assumes "odd (length (row H xs l))"
  shows "row H xs (Suc l) ! ((length (row H xs l) + 1) div 2 - 1) =
    H (row H xs l ! (length (row H xs l) - 1)) (row H xs l ! (length (row H xs l) - 1))"
proof -
  obtain m where m: "length (row H xs l) = 2 * m + 1"
    using assms by (elim oddE)
  then show ?thesis
    by (simp add: row_Suc nth_pair_up)
qed

section \<open>Branches\<close>

definition sibling :: "nat \<Rightarrow> nat" where
  "sibling i = (if odd i then i - 1 else i + 1)"

definition branch_at :: "('h \<Rightarrow> 'h \<Rightarrow> 'h) \<Rightarrow> 'h list \<Rightarrow> nat \<Rightarrow> nat \<Rightarrow> 'h" where
  "branch_at H xs pos l = row H xs l ! min (sibling (pos div 2 ^ l)) (length (row H xs l) - 1)"

definition branch_to :: "('h \<Rightarrow> 'h \<Rightarrow> 'h) \<Rightarrow> 'h list \<Rightarrow> nat \<Rightarrow> nat \<Rightarrow> 'h list" where
  "branch_to H xs pos k = map (branch_at H xs pos) [0..<k]"

lemma branch_to_0 [simp]: "branch_to H xs pos 0 = []"
  by (simp add: branch_to_def)

lemma branch_to_Suc: "branch_to H xs pos (Suc k) = branch_to H xs pos k @ [branch_at H xs pos k]"
  by (simp add: branch_to_def)

lemma pos_in_row: "pos < length xs \<Longrightarrow> pos div 2 ^ l < length (row H xs l)"
proof (induction l)
  case (Suc l)
  have "pos div 2 ^ Suc l = pos div 2 ^ l div 2"
    by (rule div_exp_Suc)
  with Suc show ?case
    by simp
qed simp

lemma row_parent:
  assumes "i < length (row H xs l)"
  shows "row H xs (Suc l) ! (i div 2) =
    (if odd i then H (row H xs l ! min (sibling i) (length (row H xs l) - 1)) (row H xs l ! i)
     else H (row H xs l ! i) (row H xs l ! min (sibling i) (length (row H xs l) - 1)))"
proof -
  have "i div 2 < (length (row H xs l) + 1) div 2"
    using assms by linarith
  then have e: "row H xs (Suc l) ! (i div 2) =
      H (row H xs l ! (2 * (i div 2))) (row H xs l ! min (2 * (i div 2) + 1) (length (row H xs l) - 1))"
    by (simp only: row_Suc nth_pair_up)
  show ?thesis
  proof (cases "odd i")
    case True
    then have "2 * (i div 2) = i - 1" "2 * (i div 2) + 1 = i" "min i (length (row H xs l) - 1) = i"
      "min (i - 1) (length (row H xs l) - 1) = i - 1"
      using assms by auto
    with e True show ?thesis
      by (simp add: sibling_def)
  next
    case False
    then have "2 * (i div 2) = i"
      by simp
    with e False show ?thesis
      by (simp add: sibling_def)
  qed
qed

lemma root_from_branch:
  assumes "pos < length xs"
  shows "ComputeMerkleRootFromBranch H (row H xs l ! (pos div 2 ^ l)) (map (branch_at H xs pos) [l..<l + k]) (pos div 2 ^ l)
    = row H xs (l + k) ! (pos div 2 ^ (l + k))"
proof (induction k arbitrary: l)
  case (Suc k)
  have u: "[l..<l + Suc k] = l # [Suc l..<Suc l + k]"
    by (simp add: upt_rec)
  have d: "pos div 2 ^ Suc l = pos div 2 ^ l div 2"
    by (rule div_exp_Suc)
  have "ComputeMerkleRootFromBranch H (row H xs l ! (pos div 2 ^ l)) (map (branch_at H xs pos) [l..<l + Suc k]) (pos div 2 ^ l)
      = ComputeMerkleRootFromBranch H (row H xs (Suc l) ! (pos div 2 ^ Suc l)) (map (branch_at H xs pos) [Suc l..<Suc l + k]) (pos div 2 ^ Suc l)"
    by (simp only: u d list.map ComputeMerkleRootFromBranch.simps branch_at_def row_parent [OF pos_in_row [OF assms]])
  with Suc.IH [of "Suc l"] show ?case
    by simp
qed simp


section \<open>Adding a leaf\<close>

text \<open>
  After \<open>c\<close> leaves, level \<open>l\<close> of the array holds the last full subtree of row \<open>l\<close> when \<open>c\<close> has a one
  bit there.
\<close>

definition inner_ok :: "('h \<Rightarrow> 'h \<Rightarrow> 'h) \<Rightarrow> 'h list \<Rightarrow> nat \<Rightarrow> (nat \<Rightarrow> 'h) \<Rightarrow> bool" where
  "inner_ok H xs c inner \<longleftrightarrow> (\<forall>l. bit c l \<longrightarrow> inner l = row H xs l ! (c div 2 ^ l - 1))"

text \<open>Two equal full subtrees that are combined, among the first \<open>c\<close> leaves.\<close>

definition equal_pair :: "('h \<Rightarrow> 'h \<Rightarrow> 'h) \<Rightarrow> 'h list \<Rightarrow> nat \<Rightarrow> nat \<Rightarrow> bool" where
  "equal_pair H xs l i \<longleftrightarrow> row H xs l ! (2 * i) = row H xs l ! (2 * i + 1)"

definition repeats :: "('h \<Rightarrow> 'h \<Rightarrow> 'h) \<Rightarrow> 'h list \<Rightarrow> nat \<Rightarrow> bool" where
  "repeats H xs c \<longleftrightarrow> (\<exists>l i. (2 * i + 2) * 2 ^ l \<le> c \<and> equal_pair H xs l i)"

definition repeats_to :: "('h \<Rightarrow> 'h \<Rightarrow> 'h) \<Rightarrow> 'h list \<Rightarrow> nat \<Rightarrow> nat \<Rightarrow> bool" where
  "repeats_to H xs c level \<longleftrightarrow> repeats H xs (c - 1) \<or> (\<exists>l i. l < level \<and> (2 * i + 2) * 2 ^ l = c \<and> equal_pair H xs l i)"

text \<open>The position has been seen, and level \<open>m\<close> of the array covers it.\<close>

definition covered :: "('h \<Rightarrow> 'h \<Rightarrow> 'h) \<Rightarrow> 'h list \<Rightarrow> nat \<Rightarrow> nat \<Rightarrow> nat \<Rightarrow> int \<Rightarrow> 'h list \<Rightarrow> bool" where
  "covered H xs pos c level ml branch \<longleftrightarrow>
     (\<exists>m \<ge> level. ml = int m \<and> bit c m \<and> pos div 2 ^ m = c div 2 ^ m - 1 \<and> branch = branch_to H xs pos m)"

definition branch_ok :: "('h \<Rightarrow> 'h \<Rightarrow> 'h) \<Rightarrow> 'h list \<Rightarrow> nat \<Rightarrow> nat \<Rightarrow> int \<Rightarrow> 'h list \<Rightarrow> bool" where
  "branch_ok H xs pos c ml branch \<longleftrightarrow>
     (if pos < c then covered H xs pos c 0 ml branch else ml = -1 \<and> branch = [])"

text \<open>The hash at hand, which is the last of \<open>q\<close> in its row, covers the position, or the array does.\<close>

definition track :: "('h \<Rightarrow> 'h \<Rightarrow> 'h) \<Rightarrow> 'h list \<Rightarrow> nat \<Rightarrow> nat \<Rightarrow> nat \<Rightarrow> nat \<Rightarrow> int \<Rightarrow> bool \<Rightarrow> 'h list \<Rightarrow> bool" where
  "track H xs pos q c level ml matchh branch \<longleftrightarrow>
     (if matchh then pos div 2 ^ level = q - 1 \<and> branch = branch_to H xs pos level
      else covered H xs pos c level ml branch)"

definition climb_ok :: "('h \<Rightarrow> 'h \<Rightarrow> 'h) \<Rightarrow> 'h list \<Rightarrow> nat \<Rightarrow> nat \<Rightarrow> nat \<Rightarrow> int \<Rightarrow> bool \<Rightarrow> 'h list \<Rightarrow> bool" where
  "climb_ok H xs pos c level ml matchh branch \<longleftrightarrow>
     (if matchh \<or> pos < c - 1 then track H xs pos (c div 2 ^ level) (c - 1) level ml matchh branch
      else c - 1 < pos \<and> ml = -1 \<and> branch = [])"

lemma carry:
  assumes "2 ^ Suc l dvd c" "0 < (c :: nat)"
  obtains m where "c = m * 2 ^ Suc l" "0 < m" "(c - 1) div 2 ^ l = 2 * m - 1" "c div 2 ^ l = 2 * m" "c div 2 ^ Suc l = m" "bit (c - 1) l"
proof -
  obtain m where m: "c = m * 2 ^ Suc l"
    using assms(1) by (metis dvd_div_mult_self)
  with assms(2) have pos: "0 < m"
    by auto
  have d: "(c - 1) div 2 ^ l = 2 * m - 1"
  proof -
    obtain k where "m = Suc k"
      using pos by (cases m) auto
    moreover obtain p where "(2 :: nat) ^ l = Suc p"
      using gr0_implies_Suc [of "2 ^ l"] by auto
    ultimately show ?thesis
      unfolding m by (intro div_nat_eqI) (simp_all add: algebra_simps)
  qed
  then have "bit (c - 1) l"
    using pos by (simp add: bit_iff_odd)
  with that m pos d show ?thesis
    by (simp add: div_exp_Suc)
qed

lemma dvd_exp_Suc:
  assumes "2 ^ l dvd c" "\<not> bit c l"
  shows "2 ^ Suc l dvd (c :: nat)"
proof -
  obtain k where k: "c = 2 ^ l * k"
    using assms(1) by blast
  with assms(2) have "even k"
    by (simp add: bit_iff_odd)
  with k show ?thesis
    by auto
qed

lemma repeats_to_Suc:
  assumes "c = m * 2 ^ Suc l" "0 < m"
  shows "repeats_to H xs c (Suc l) \<longleftrightarrow> repeats_to H xs c l \<or> equal_pair H xs l (m - 1)"
proof -
  have "(2 * i + 2) * 2 ^ l = c \<longleftrightarrow> i = m - 1" for i
  proof -
    have "(2 * i + 2) * 2 ^ l = c \<longleftrightarrow> (i + 1) * 2 ^ Suc l = m * 2 ^ Suc l"
      unfolding assms(1) by (simp add: algebra_simps)
    also have "\<dots> \<longleftrightarrow> i + 1 = m"
      by (simp only: mult_cancel2) simp
    finally show ?thesis
      using assms(2) by auto
  qed
  then have "(\<exists>i. (2 * i + 2) * 2 ^ l = c \<and> equal_pair H xs l i) \<longleftrightarrow> equal_pair H xs l (m - 1)"
    by auto
  then show ?thesis
    unfolding repeats_to_def less_Suc_eq by metis
qed

lemma track_step:
  assumes m: "0 < m" "c div 2 ^ l = 2 * m - 1" and len: "2 * m \<le> length (row H xs l)"
    and i: "i = row H xs l ! (2 * (m - 1))" and h: "h = row H xs l ! (2 * (m - 1) + 1)"
    and ok: "track H xs pos (2 * m) c l ml matchh branch"
  shows "track H xs pos m c (Suc l) ml (if \<not> matchh \<and> ml = int l then True else matchh)
    (if matchh then branch @ [i] else if ml = int l then branch @ [h] else branch)"
proof (cases "matchh")
  case True
  then have p: "pos div 2 ^ l = 2 * m - 1" "branch = branch_to H xs pos l"
    using ok by (simp_all add: track_def)
  have "sibling (2 * m - 1) = 2 * (m - 1)" "2 * (m - 1) \<le> length (row H xs l) - 1" "(2 * m - 1) div 2 = m - 1"
    using m(1) len by (auto simp: sibling_def diff_mult_distrib2)
  with p True i show ?thesis
    unfolding track_def div_exp_Suc by (simp add: branch_to_Suc branch_at_def)
next
  case nm: False
  show ?thesis
  proof (cases "ml = int l")
    case True
    then have p: "pos div 2 ^ l = 2 * m - 2" "branch = branch_to H xs pos l"
      using ok m(2) nm by (auto simp: track_def covered_def)
    have "sibling (2 * m - 2) = 2 * (m - 1) + 1" "2 * (m - 1) + 1 \<le> length (row H xs l) - 1" "(2 * m - 2) div 2 = m - 1"
      using m(1) len by (auto simp: sibling_def diff_mult_distrib2)
    with p True nm h show ?thesis
      unfolding track_def div_exp_Suc by (simp add: branch_to_Suc branch_at_def)
  next
    case False
    with ok nm show ?thesis
      by (auto simp: track_def covered_def le_eq_less_or_eq)
  qed
qed

lemma climb_ok_step:
  assumes m: "0 < m" "(c - 1) div 2 ^ l = 2 * m - 1" "c div 2 ^ l = 2 * m" "c div 2 ^ Suc l = m"
    and len: "2 * m \<le> length (row H xs l)"
    and i: "i = row H xs l ! (2 * (m - 1))" and h: "h = row H xs l ! (2 * (m - 1) + 1)"
    and ok: "climb_ok H xs pos c l ml matchh branch"
  shows "climb_ok H xs pos c (Suc l) ml (if \<not> matchh \<and> ml = int l then True else matchh)
    (if matchh then branch @ [i] else if ml = int l then branch @ [h] else branch)"
  using track_step [OF m(1,2) len i h, of pos ml matchh branch] ok unfolding climb_ok_def m(3,4) by (auto split: if_splits)

lemma climb_leaf:
  assumes c: "0 < c" "c \<le> length xs" "c < 2 ^ 32" and inner: "inner_ok H xs (c - 1) inner"
  shows "2 ^ level dvd c \<Longrightarrow> h = row H xs level ! (c div 2 ^ level - 1) \<Longrightarrow> (mutated \<longleftrightarrow> repeats_to H xs c level) \<Longrightarrow>
    (pb \<longrightarrow> climb_ok H xs pos c level ml matchh branch) \<Longrightarrow>
    \<exists>lv matchh' branch'. climb H c inner ml pb level h matchh branch mutated =
        Ret (lv, row H xs lv ! (c div 2 ^ lv - 1), matchh', branch', repeats_to H xs c lv)
      \<and> 2 ^ lv dvd c \<and> bit c lv \<and> (pb \<longrightarrow> climb_ok H xs pos c lv ml matchh' branch')"
proof (induction "32 - level" arbitrary: level h matchh branch mutated rule: less_induct)
  case less
  have "(2 :: nat) ^ level < 2 ^ 32"
    using dvd_imp_le [OF less.prems(1) c(1)] c(3) by simp
  then have level: "level < 32"
    by (rule power_less_imp_less_exp [rotated]) simp
  show ?case
  proof (cases "bit c level")
    case True
    with less.prems level show ?thesis
      by (simp add: climb.simps)
  next
    case False
    from dvd_exp_Suc [OF less.prems(1) False] have dvd: "2 ^ Suc level dvd c" .
    from carry [OF dvd c(1)] obtain m where m: "c = m * 2 ^ Suc level" "0 < m" "(c - 1) div 2 ^ level = 2 * m - 1" "c div 2 ^ level = 2 * m"
      "c div 2 ^ Suc level = m" "bit (c - 1) level" .
    have i: "inner level = row H xs level ! (2 * (m - 1))"
    proof -
      have "(c - 1) div 2 ^ level - 1 = 2 * (m - 1)"
        using m(2,3) by simp
      with inner m(6) show ?thesis
        unfolding inner_ok_def by metis
    qed
    have h: "h = row H xs level ! (2 * (m - 1) + 1)"
    proof -
      have "c div 2 ^ level - 1 = 2 * (m - 1) + 1"
        using m(2,4) by simp
      with less.prems(2) show ?thesis
        by metis
    qed
    have "m \<le> length xs div 2 ^ Suc level"
      using m(5) div_le_mono [OF c(2), of "2 ^ Suc level"] by simp
    then have up: "H (inner level) h = row H xs (Suc level) ! (c div 2 ^ Suc level - 1)"
      using m(2,5) row_full [of "m - 1" xs level H] i h by simp
    have "2 * m \<le> length (row H xs level)"
      using m(4) div_le_mono [OF c(2), of "2 ^ level"] full_le_row [of xs level H] by simp
    note ok = climb_ok_step [OF m(2-5) this i h]
    have mut: "(mutated \<or> inner level = h) \<longleftrightarrow> repeats_to H xs c (Suc level)"
      unfolding repeats_to_Suc [OF m(1,2)] less.prems(3) i h equal_pair_def ..
    let ?matchh = "if pb \<and> \<not> matchh \<and> ml = int level then True else matchh"
    let ?branch = "if pb \<and> matchh then branch @ [inner level] else if pb \<and> ml = int level then branch @ [h] else branch"
    have "pb \<longrightarrow> climb_ok H xs pos c (Suc level) ml ?matchh ?branch"
      using ok [of pos ml matchh branch] less.prems(4) by (cases pb; cases matchh; cases "ml = int level") simp_all
    from less.hyps [OF _ dvd up mut this] level show ?thesis
      unfolding climb.simps [of H c inner ml pb level] using False by simp
  qed
qed


lemma below_lowest:
  assumes "2 ^ lv dvd c" "bit c lv" "l \<noteq> lv"
  shows "bit c l \<longleftrightarrow> lv < l \<and> bit (c - 1 :: nat) l" "lv < l \<Longrightarrow> (c - 1) div 2 ^ l = c div 2 ^ l" "\<not> bit (c - 1) lv"
proof -
  obtain k where k: "c = 2 ^ lv * k"
    using assms(1) by blast
  with assms(2) have "odd k"
    by (simp add: bit_iff_odd)
  then obtain j where j: "k = 2 * j + 1"
    by (elim oddE)
  have d: "(c - 1) div 2 ^ lv = 2 * j"
  proof -
    obtain p where "(2 :: nat) ^ lv = Suc p"
      using gr0_implies_Suc [of "2 ^ lv"] by auto
    then show ?thesis
      unfolding k j by (intro div_nat_eqI) (simp_all add: algebra_simps)
  qed
  show eq: "(c - 1) div 2 ^ l = c div 2 ^ l" if gt: "lv < l"
  proof -
    obtain e where e: "l = lv + Suc e"
      using less_imp_Suc_add [OF gt] by auto
    have "n div 2 ^ l = n div 2 ^ lv div 2 div 2 ^ e" for n :: nat
      unfolding e by (simp only: power_add div_mult2_eq power_Suc)
    then show ?thesis
      using d k j by simp
  qed
  show "bit c l \<longleftrightarrow> lv < l \<and> bit (c - 1) l"
  proof (cases "lv < l")
    case True
    then show ?thesis
      using eq by (simp add: bit_iff_odd)
  next
    case False
    then obtain e where "lv = l + Suc e"
      using assms(3) less_imp_Suc_add [of l lv] by auto
    then have "c div 2 ^ l = 2 * (2 ^ e * k)"
      unfolding k by (simp add: power_add)
    then show ?thesis
      using False by (simp add: bit_iff_odd)
  qed
  show "\<not> bit (c - 1) lv"
    using d by (simp add: bit_iff_odd)
qed

lemma repeats_to_lowest:
  assumes "2 ^ lv dvd c" "bit c lv" "0 < c"
  shows "repeats_to H xs c lv \<longleftrightarrow> repeats H xs c"
proof -
  have "l < lv" if "(2 * i + 2) * 2 ^ l = c" for l i
  proof (rule ccontr)
    assume "\<not> l < lv"
    then have "c div 2 ^ lv = 2 * ((i + 1) * 2 ^ (l - lv))"
      using that by (auto simp: power_diff div_mult_swap le_imp_power_dvd algebra_simps)
    with assms(2) show False
      by (simp add: bit_iff_odd)
  qed
  moreover have "x \<le> c \<longleftrightarrow> x \<le> c - 1 \<or> x = c" for x
    using assms(3) by auto
  ultimately show ?thesis
    unfolding repeats_to_def repeats_def by metis
qed

lemma leaf_loop_ok:
  assumes len: "length xs < 2 ^ 32"
  shows "ys = drop c xs \<Longrightarrow> c \<le> length xs \<Longrightarrow> inner_ok H xs c inner \<Longrightarrow> (pb \<longrightarrow> branch_ok H xs pos c ml branch) \<Longrightarrow>
    \<exists>inner' ml' branch'. leaf_loop H pos pb ys c inner ml branch (repeats H xs c) = Ret (length xs, inner', ml', branch', repeats H xs (length xs))
      \<and> inner_ok H xs (length xs) inner' \<and> (pb \<longrightarrow> branch_ok H xs pos (length xs) ml' branch')"
proof (induction ys arbitrary: c inner ml branch)
  case Nil
  then have "c = length xs"
    by simp
  with Nil show ?case
    by simp
next
  case (Cons y ys)
  then have c: "c < length xs"
    by (metis drop_all leI list.distinct(1))
  with Cons.prems(1) have y: "y = xs ! c" "ys = drop (Suc c) xs"
    by (metis Cons_nth_drop_Suc list.inject)+
  let ?c = "c + 1"
  have r0: "repeats H xs c = repeats_to H xs ?c 0"
    by (simp add: repeats_to_def)
  have ok0: "pb \<longrightarrow> climb_ok H xs pos ?c 0 ml (c = pos) branch"
    using Cons.prems(4) by (auto simp: climb_ok_def track_def branch_ok_def)
  from climb_leaf [of ?c xs H inner 0 y "repeats H xs c" pb pos ml "c = pos" branch] c len Cons.prems(3) y(1) r0 ok0
  obtain lv matchh' branch' where cl: "climb H ?c inner ml pb 0 y (c = pos) branch (repeats H xs c) =
      Ret (lv, row H xs lv ! (?c div 2 ^ lv - 1), matchh', branch', repeats_to H xs ?c lv)"
    "2 ^ lv dvd ?c" "bit ?c lv" "pb \<longrightarrow> climb_ok H xs pos ?c lv ml matchh' branch'"
    by auto
  let ?inner = "inner(lv := row H xs lv ! (?c div 2 ^ lv - 1))" and ?ml = "if matchh' then int lv else ml"
  have inner: "inner_ok H xs ?c ?inner"
    using Cons.prems(3) below_lowest [OF cl(2,3)] by (auto simp: inner_ok_def)
  have branch: "pb \<longrightarrow> branch_ok H xs pos ?c ?ml branch'"
  proof (cases "matchh'")
    case True
    have "pos < ?c" if "pos div 2 ^ lv = ?c div 2 ^ lv - 1"
    proof -
      obtain k where k: "?c = 2 ^ lv * k"
        using cl(2) by blast
      then have "pos div 2 ^ lv < k"
        using that by (cases k) auto
      then show ?thesis
        using k div_less_iff_less_mult [of "2 ^ lv" pos k] by (simp add: mult.commute)
    qed
    with True cl(3,4) show ?thesis
      by (auto simp: climb_ok_def track_def branch_ok_def covered_def)
  next
    case False
    have "covered H xs pos ?c 0 ml branch'" if cov: "covered H xs pos c lv ml branch'"
    proof -
      obtain m where m: "m \<ge> lv" "ml = int m" "bit c m" "pos div 2 ^ m = c div 2 ^ m - 1" "branch' = branch_to H xs pos m"
        using cov by (auto simp: covered_def)
      have "m \<noteq> lv"
        using m(3) below_lowest(3) [OF cl(2,3), of "Suc lv"] by auto
      with below_lowest(1,2) [OF cl(2,3) this] m show ?thesis
        by (auto simp: covered_def)
    qed
    with False cl(4) show ?thesis
      by (auto simp: climb_ok_def track_def branch_ok_def split: if_splits)
  qed
  have "repeats_to H xs ?c lv = repeats H xs ?c"
    by (rule repeats_to_lowest [OF cl(2,3)]) simp
  with cl(1) len c have step: "leaf_loop H pos pb (y # ys) c inner ml branch (repeats H xs c) =
      leaf_loop H pos pb ys ?c ?inner ?ml branch' (repeats H xs ?c)"
    by simp
  show ?case
    unfolding step by (rule Cons.IH [OF _ _ inner branch]) (use y(2) c in simp_all)
qed


section \<open>The right border\<close>

lemma climb_sweep:
  fixes H :: "'h \<Rightarrow> 'h \<Rightarrow> 'h" and xs :: "'h list"
  defines "s \<equiv> \<lambda>l. length (row H xs l)" and "n \<equiv> length xs"
  assumes n: "n < 2 ^ 31" and inner: "inner_ok H xs n inner"
  shows "c = s level * 2 ^ level \<Longrightarrow> n div 2 ^ level + 1 = s level \<Longrightarrow> level \<le> 31 \<Longrightarrow> h = row H xs level ! (s level - 1) \<Longrightarrow>
    \<forall>l < level. 1 < s l \<Longrightarrow> (pb \<longrightarrow> track H xs pos (s level) n level ml matchh branch) \<Longrightarrow>
    \<exists>lv matchh' branch' mut'. climb H c inner ml pb level h matchh branch mut = Ret (lv, row H xs lv ! (s lv - 1), matchh', branch', mut')
      \<and> level \<le> lv \<and> lv \<le> 31 \<and> c = s lv * 2 ^ lv \<and> odd (s lv) \<and> n div 2 ^ lv + 1 = s lv \<and> (\<forall>l < lv. 1 < s l)
      \<and> (pb \<longrightarrow> track H xs pos (s lv) n lv ml matchh' branch')"
proof (induction "32 - level" arbitrary: level h matchh branch mut rule: less_induct)
  case less
  have bit: "bit c level \<longleftrightarrow> odd (s level)"
    using less.prems(1) by (simp add: bit_iff_odd)
  show ?case
  proof (cases "odd (s level)")
    case True
    with less.prems bit show ?thesis
      by (subst climb.simps) (auto intro!: exI [of _ level])
  next
    case False
    then obtain m where m: "s level = 2 * m"
      by blast
    with less.prems(2) have pos: "0 < m" and d: "n div 2 ^ level = 2 * m - 1"
      by auto
    have "2 ^ level \<le> n"
    proof (rule ccontr)
      assume "\<not> 2 ^ level \<le> n"
      then have "n div 2 ^ level = 0"
        by simp
      with d pos show False
        by simp
    qed
    with n have "(2 :: nat) ^ level < 2 ^ 31"
      by simp
    then have level: "level < 31"
      by (rule power_less_imp_less_exp [rotated]) simp
    have s': "s (Suc level) = m"
      using m by (simp add: s_def)
    have i: "inner level = row H xs level ! (2 * (m - 1))"
    proof -
      have "bit n level" "n div 2 ^ level - 1 = 2 * (m - 1)"
        using d pos by (simp_all add: bit_iff_odd)
      with inner show ?thesis
        unfolding inner_ok_def by metis
    qed
    have h: "h = row H xs level ! (2 * (m - 1) + 1)"
    proof -
      have "s level - 1 = 2 * (m - 1) + 1"
        using m pos by simp
      with less.prems(4) show ?thesis
        by metis
    qed
    have up: "H (inner level) h = row H xs (Suc level) ! (s (Suc level) - 1)"
    proof -
      have e: "2 * (m - 1) = 2 * m - 2" "2 * (m - 1) + 1 = 2 * m - 1"
        using pos by simp_all
      have L: "length (row H xs level) = 2 * m"
        using m by (simp add: s_def)
      have "inner level = row H xs level ! (2 * m - 2)"
        by (simp only: i e(1))
      moreover have "h = row H xs level ! (2 * m - 1)"
        by (simp only: h e(2))
      ultimately show ?thesis
        using row_last_even [of H xs level] pos unfolding s' L by simp
    qed
    have c: "c = s (Suc level) * 2 ^ Suc level" "n div 2 ^ Suc level + 1 = s (Suc level)"
      using less.prems(1) m d pos s' unfolding div_exp_Suc by auto
    have lower: "\<forall>l < Suc level. 1 < s l"
      using less.prems(5) m pos by (auto simp: less_Suc_eq)
    let ?matchh = "if pb \<and> \<not> matchh \<and> ml = int level then True else matchh"
    let ?branch = "if pb \<and> matchh then branch @ [inner level] else if pb \<and> ml = int level then branch @ [h] else branch"
    have "2 * m \<le> length (row H xs level)"
      using m by (simp add: s_def)
    from track_step [OF pos d this i h, of pos ml matchh branch]
    have tr: "pb \<longrightarrow> track H xs pos (s (Suc level)) n (Suc level) ml ?matchh ?branch"
      using less.prems(6) s' m by (cases pb; cases matchh; cases "ml = int level") simp_all
    have step: "climb H c inner ml pb level h matchh branch mut =
        climb H c inner ml pb (Suc level) (H (inner level) h) ?matchh ?branch (mut \<or> inner level = h)"
      using level bit False by (simp add: climb.simps [of H c inner ml pb level])
    have "32 - Suc level < 32 - level" "Suc level \<le> 31"
      using level by simp_all
    from less.hyps [OF this(1) c this(2) up lower tr, of "mut \<or> inner level = h"] obtain lv matchh' branch' mut'
      where r: "climb H c inner ml pb (Suc level) (H (inner level) h) ?matchh ?branch (mut \<or> inner level = h) =
        Ret (lv, row H xs lv ! (s lv - 1), matchh', branch', mut')" "Suc level \<le> lv" "lv \<le> 31" "c = s lv * 2 ^ lv" "odd (s lv)"
        "n div 2 ^ lv + 1 = s lv" "\<forall>l < lv. 1 < s l" "pb \<longrightarrow> track H xs pos (s lv) n lv ml matchh' branch'"
      by blast
    show ?thesis
      unfolding step using r Suc_leD [OF r(2)] by blast
  qed
qed


lemma sweep_ok:
  fixes H :: "'h \<Rightarrow> 'h \<Rightarrow> 'h" and xs :: "'h list"
  defines "s \<equiv> \<lambda>l. length (row H xs l)" and "n \<equiv> length xs"
  assumes n: "n < 2 ^ 31" and inner: "inner_ok H xs n inner"
  shows "c = s level * 2 ^ level \<Longrightarrow> odd (s level) \<Longrightarrow> s level - 1 \<le> n div 2 ^ level \<Longrightarrow> n div 2 ^ level \<le> s level \<Longrightarrow>
    h = row H xs level ! (s level - 1) \<Longrightarrow> level \<le> 31 \<Longrightarrow> 32 \<le> level + fuel \<Longrightarrow> \<forall>l < level. 1 < s l \<Longrightarrow>
    (pb \<longrightarrow> track H xs pos (s level) n level ml matchh branch \<and> (\<not> matchh \<longrightarrow> ml \<noteq> int level)) \<Longrightarrow>
    \<exists>d branch'. sweep fuel H c inner ml pb level h matchh branch = Ret (row H xs d ! 0, branch')
      \<and> s d = 1 \<and> (\<forall>l < d. 1 < s l) \<and> (pb \<longrightarrow> branch' = branch_to H xs pos d)"
proof (induction fuel arbitrary: c level h matchh branch)
  case (Suc fuel)
  show ?case
  proof (cases "s level = 1")
    case True
    have "branch = branch_to H xs pos level" if pb
    proof (cases matchh)
      case True
      with Suc.prems(9) that show ?thesis
        by (simp add: track_def)
    next
      case False
      with Suc.prems(9) that obtain m where m: "level \<le> m" "m \<noteq> level" "bit n m"
        by (auto simp: track_def covered_def)
      then obtain e where "m = level + Suc e"
        using less_imp_Suc_add [of level m] by auto
      then have "n div 2 ^ m = n div 2 ^ level div 2 div 2 ^ e"
        by (simp only: power_add power_Suc div_mult2_eq)
      with Suc.prems(4) True m(3) show ?thesis
        by (simp add: bit_iff_odd)
    qed
    with True Suc.prems show ?thesis
      by (subst sweep.simps) (auto intro!: exI [of _ level])
  next
    case False
    obtain m where m: "s level = 2 * m + 1"
      using Suc.prems(2) by (elim oddE)
    with False have pos: "0 < m"
      by simp
    have s': "s (Suc level) = m + 1"
      using m by (simp add: s_def)
    have d: "n div 2 ^ Suc level + 1 = s (Suc level)"
      using Suc.prems(3,4) m s' unfolding div_exp_Suc by (cases "n div 2 ^ level = 2 * m") auto
    have le: "2 * m * 2 ^ level \<le> n"
      using Suc.prems(3) m by (simp add: less_eq_div_iff_mult_less_eq)
    have "2 ^ Suc level \<le> n"
      using le pos by (cases m) auto
    with n have "(2 :: nat) ^ Suc level < 2 ^ 31"
      by linarith
    then have level: "Suc level < 31"
      by (rule power_less_imp_less_exp [rotated]) simp
    let ?c = "c + 2 ^ level"
    have c: "?c = s (Suc level) * 2 ^ Suc level"
      using Suc.prems(1) m s' by (simp add: algebra_simps)
    have "?c \<le> n + 2 ^ Suc level"
      using le Suc.prems(1) m by (simp add: algebra_simps)
    then have small: "?c < 2 ^ 32"
      using n \<open>2 ^ Suc level \<le> n\<close> by simp
    have up: "H h h = row H xs (Suc level) ! (s (Suc level) - 1)"
      using row_last_odd [of H xs level] Suc.prems(2,5) by (simp add: s_def)
    have lower: "\<forall>l < Suc level. 1 < s l"
      using Suc.prems(8) m pos by (auto simp: less_Suc_eq)
    let ?branch = "if pb \<and> matchh then branch @ [h] else branch"
    have tr: "pb \<longrightarrow> track H xs pos (s (Suc level)) n (Suc level) ml matchh ?branch"
    proof (cases matchh)
      case True
      have "sibling (2 * m) = 2 * m + 1" "min (2 * m + 1) (s level - 1) = 2 * m" "2 * m div 2 = m"
        using m by (simp_all add: sibling_def)
      with True Suc.prems(5,9) m s' show ?thesis
        unfolding track_def div_exp_Suc by (auto simp: branch_to_Suc branch_at_def s_def)
    next
      case False
      with Suc.prems(9) show ?thesis
        by (auto simp: track_def covered_def le_eq_less_or_eq)
    qed
    obtain lv matchh' branch' mut' where cl: "climb H ?c inner ml pb (Suc level) (H h h) matchh ?branch False =
        Ret (lv, row H xs lv ! (s lv - 1), matchh', branch', mut')"
      "Suc level \<le> lv" "lv \<le> 31" "?c = s lv * 2 ^ lv" "odd (s lv)" "n div 2 ^ lv + 1 = s lv" "\<forall>l < lv. 1 < s l"
      "pb \<longrightarrow> track H xs pos (s lv) n lv ml matchh' branch'"
      using climb_sweep [OF n [unfolded n_def] inner [unfolded n_def] c [unfolded s_def] d [unfolded s_def n_def] _ up [unfolded s_def]
          lower [unfolded s_def] tr [unfolded s_def n_def], of False] level
      unfolding s_def n_def by auto
    have "even (n div 2 ^ lv)"
      using cl(5,6) by (metis even_plus_one_iff)
    with cl(8) have "pb \<longrightarrow> \<not> matchh' \<longrightarrow> ml \<noteq> int lv"
      by (auto simp: track_def covered_def bit_iff_odd)
    then have "\<exists>d branch''. sweep fuel H ?c inner ml pb lv (row H xs lv ! (s lv - 1)) matchh' branch' = Ret (row H xs d ! 0, branch'')
        \<and> s d = 1 \<and> (\<forall>l < d. 1 < s l) \<and> (pb \<longrightarrow> branch'' = branch_to H xs pos d)"
      using cl Suc.prems(7) by (intro Suc.IH) auto
    moreover have "sweep (Suc fuel) H c inner ml pb level h matchh branch =
        sweep fuel H ?c inner ml pb lv (row H xs lv ! (s lv - 1)) matchh' branch'"
    proof -
      have "c \<noteq> 2 ^ level" "?c mod 2 ^ 32 = ?c"
        using Suc.prems(1) False small by simp_all
      with cl(1) level show ?thesis
        by (subst sweep.simps) (simp add: Let_def)
    qed
    ultimately show ?thesis
      by simp
  qed
qed simp


lemma lowest_level_ok:
  assumes "0 < c" "c < 2 ^ 32"
  shows "2 ^ level dvd c \<Longrightarrow> \<exists>lv. lowest_level c level = Ret lv \<and> 2 ^ lv dvd c \<and> bit c lv \<and> lv < 32"
proof (induction "32 - level" arbitrary: level rule: less_induct)
  case less
  have "(2 :: nat) ^ level < 2 ^ 32"
    using dvd_imp_le [OF less.prems assms(1)] assms(2) by simp
  then have "level < 32"
    by (rule power_less_imp_less_exp [rotated]) simp
  with less.hyps [of "Suc level"] dvd_exp_Suc [OF less.prems] less.prems show ?case
    by (subst lowest_level.simps) auto
qed

lemma row_length_exact:
  assumes "2 ^ l dvd length xs"
  shows "length (row H xs l) = length xs div 2 ^ l"
  using assms
proof (induction l)
  case (Suc l)
  then have "length (row H xs l) = length xs div 2 ^ l"
    by (metis dvd_mult_right power_Suc2 dvd_mult_left)
  moreover obtain k where "length xs = 2 ^ Suc l * k"
    using Suc.prems by blast
  ultimately show ?case
    by (simp add: mult.assoc)
qed simp

lemma merkle_computation:
  assumes "xs \<noteq> []" "length xs < 2 ^ 31" "pb \<longrightarrow> pos < length xs"
  shows "\<exists>d branch. MerkleComputation H null inner xs pos pb = Ret (merkle_root H xs, repeats H xs (length xs), branch)
    \<and> length (row H xs d) = 1 \<and> merkle_root H xs = row H xs d ! 0 \<and> (pb \<longrightarrow> branch = branch_to H xs pos d)"
proof -
  let ?n = "length xs"
  have n: "0 < ?n" "?n < 2 ^ 32"
    using assms by simp_all
  have r0: "repeats H xs 0 = False"
    by (simp add: repeats_def)
  obtain inner' ml' branch' where ll: "leaf_loop H pos pb xs 0 inner (-1) [] False = Ret (?n, inner', ml', branch', repeats H xs ?n)"
    "inner_ok H xs ?n inner'" "pb \<longrightarrow> branch_ok H xs pos ?n ml' branch'"
    using leaf_loop_ok [OF n(2), of xs 0 H inner pb pos "-1" "[]"] r0 by (auto simp: inner_ok_def branch_ok_def)
  obtain lv where lv: "lowest_level ?n 0 = Ret lv" "2 ^ lv dvd ?n" "bit ?n lv" "lv < 32"
    using lowest_level_ok [OF n, of 0] by auto
  have len: "length (row H xs l) = ?n div 2 ^ l" if "l \<le> lv" for l
    using row_length_exact dvd_trans [OF le_imp_power_dvd [OF that] lv(2)] by blast
  have lower: "\<forall>l < lv. 1 < length (row H xs l)"
  proof (intro allI impI)
    fix l
    assume "l < lv"
    then obtain e where e: "lv = l + Suc e"
      using less_imp_Suc_add [of l lv] by auto
    obtain k where k: "?n = 2 ^ lv * k"
      using lv(2) by (elim dvdE)
    with n(1) have "0 < k"
      by (cases k) auto
    from k have "?n div 2 ^ l = 2 * (2 ^ e * k)"
      unfolding e by (simp add: power_add)
    moreover have "0 < 2 ^ e * k"
      using \<open>0 < k\<close> by simp
    ultimately show "1 < length (row H xs l)"
      using len [of l] \<open>l < lv\<close> by linarith
  qed
  have s: "?n = length (row H xs lv) * 2 ^ lv" "odd (length (row H xs lv))"
    using len [of lv] lv(2,3) by (simp_all add: bit_iff_odd)
  have h: "inner' lv = row H xs lv ! (length (row H xs lv) - 1)"
    using ll(2) lv(3) len [of lv] by (simp add: inner_ok_def)
  have tr: "pb \<longrightarrow> track H xs pos (length (row H xs lv)) ?n lv ml' (ml' = int lv) branch' \<and> (ml' \<noteq> int lv \<longrightarrow> ml' \<noteq> int lv)"
  proof
    assume pb
    with ll(3) assms(3) obtain m where m: "ml' = int m" "bit ?n m" "pos div 2 ^ m = ?n div 2 ^ m - 1" "branch' = branch_to H xs pos m"
      by (auto simp: branch_ok_def covered_def)
    have "lv \<le> m"
      using below_lowest(1) [OF lv(2,3), of m] m(2) by (cases "m = lv") auto
    with m len [of lv] show "track H xs pos (length (row H xs lv)) ?n lv ml' (ml' = int lv) branch' \<and> (ml' \<noteq> int lv \<longrightarrow> ml' \<noteq> int lv)"
      by (auto simp: track_def covered_def)
  qed
  obtain d branch where sw: "sweep 32 H ?n inner' ml' pb lv (inner' lv) (ml' = int lv) branch' = Ret (row H xs d ! 0, branch)"
    "length (row H xs d) = 1" "\<forall>l < d. 1 < length (row H xs l)" "pb \<longrightarrow> branch = branch_to H xs pos d"
    using sweep_ok [OF assms(2) ll(2) s _ _ h _ _ lower tr, of 32] len [of lv] lv(4) by auto
  with ll(1) lv(1) merkle_root_row [OF sw(2,3)] assms(1) show ?thesis
    by (intro exI [of _ d] exI [of _ branch]) (simp add: MerkleComputation_def)
qed

section \<open>The vector\<close>

lemma tree_row_ok:
  "vs = us @ zs @ take i (pair_up H zs) \<Longrightarrow> i \<le> length (pair_up H zs) \<Longrightarrow>
    tree_row H vs (length us) (length zs) (2 * i) = us @ zs @ pair_up H zs"
proof (induction "length (pair_up H zs) - i" arbitrary: i vs)
  case 0
  then have "i = length (pair_up H zs)"
    by simp
  then have "\<not> 2 * i < length zs"
    by simp
  with 0 \<open>i = _\<close> show ?case
    by (subst tree_row.simps) simp
next
  case (Suc d)
  then have i: "i < length (pair_up H zs)"
    by linarith
  then have lt: "2 * i < length zs"
    by simp
  let ?i2 = "min (2 * i + 1) (length zs - 1)"
  have "?i2 < length zs"
    using lt by simp
  then have "H (vs ! (length us + 2 * i)) (vs ! (length us + ?i2)) = pair_up H zs ! i"
    using Suc.prems(1) i lt by (simp add: nth_append nth_pair_up)
  moreover have "take i (pair_up H zs) @ [pair_up H zs ! i] = take (Suc i) (pair_up H zs)"
    using i by (simp add: take_Suc_conv_app_nth)
  moreover have "d = length (pair_up H zs) - Suc i"
    using Suc.hyps(2) by linarith
  ultimately have "tree_row H vs (length us) (length zs) (2 * i) =
      tree_row H (us @ zs @ take (Suc i) (pair_up H zs)) (length us) (length zs) (2 * Suc i)"
    using lt Suc.prems(1) by (subst tree_row.simps) (simp add: Let_def)
  with Suc.hyps(1) [of "Suc i"] \<open>d = _\<close> i show ?case
    by simp
qed

lemma tree_rows_ok:
  "zs \<noteq> [] \<Longrightarrow> tree_rows H (us @ zs) (length us) (length zs) \<noteq> []
    \<and> last (tree_rows H (us @ zs) (length us) (length zs)) = merkle_root H zs"
proof (induction "length zs" arbitrary: us zs rule: less_induct)
  case less
  show ?case
  proof (cases "1 < length zs")
    case True
    have "tree_row H (us @ zs) (length us) (length zs) 0 = (us @ zs) @ pair_up H zs"
      using tree_row_ok [of "us @ zs" us zs 0 H] by simp
    then have "tree_rows H (us @ zs) (length us) (length zs) =
        tree_rows H ((us @ zs) @ pair_up H zs) (length (us @ zs)) (length (pair_up H zs))"
      using True by (subst tree_rows.simps) simp
    moreover have "merkle_root H zs = merkle_root H (pair_up H zs)"
      using True by (simp add: merkle_root.simps [of H zs])
    moreover have "length (pair_up H zs) < length zs" "pair_up H zs \<noteq> []"
      using True by (auto simp flip: length_greater_0_conv)
    ultimately show ?thesis
      using less.hyps [of "pair_up H zs" "us @ zs"] by simp
  next
    case False
    with less.prems obtain z where "zs = [z]"
      by (cases zs) auto
    then show ?thesis
      by (simp add: tree_rows.simps merkle_root.simps)
  qed
qed

lemma build_tree:
  "vtx \<noteq> [] \<Longrightarrow> \<not> (usesAlgo \<and> algo \<in> {1..7}) \<Longrightarrow>
    BuildMerkleTree H null GetHash sha256 usesAlgo algo vtx = Ret (merkle_root H (map GetHash vtx))"
  using tree_rows_ok [of "map GetHash vtx" H "[]"] by (auto simp: BuildMerkleTree_def Let_def)

section \<open>Equal roots\<close>

lemma row_le_full: "length (row H xs l) \<le> length xs div 2 ^ l + 1"
proof (induction l)
  case (Suc l)
  then have "(length (row H xs l) + 1) div 2 \<le> (length xs div 2 ^ l + 2) div 2"
    by (intro div_le_mono) simp
  then show ?case
    unfolding div_exp_Suc by simp
qed simp

definition no_collision :: "('h \<Rightarrow> 'h \<Rightarrow> 'h) \<Rightarrow> bool" where
  "no_collision H \<longleftrightarrow> (\<forall>a b c d. H a b = H c d \<longrightarrow> a = c \<and> b = d)"

text \<open>Hashes as terms, a hash without collisions.\<close>

datatype sample_hash = Leaf nat | Node sample_hash sample_hash

lemma no_collisionD: "no_collision H \<Longrightarrow> H a b = H c d \<Longrightarrow> a = c \<and> b = d"
  unfolding no_collision_def by blast

lemma repeats_pair:
  "equal_pair H xs l i \<Longrightarrow> 2 * i + 2 \<le> length xs div 2 ^ l \<Longrightarrow> repeats H xs (length xs)"
  unfolding repeats_def by (metis less_eq_div_iff_mult_less_eq zero_less_numeral zero_less_power)

text \<open>A full subtree that equals a last one with duplicated leaves has two equal halves somewhere.\<close>

lemma partial_equal:
  assumes "no_collision H"
  shows "i < length xs div 2 ^ l \<Longrightarrow> length (row H xs l) = length xs div 2 ^ l + 1 \<Longrightarrow>
    row H xs l ! i = row H xs l ! (length (row H xs l) - 1) \<Longrightarrow> repeats H xs (length xs)"
proof (induction l arbitrary: i)
  case (Suc l)
  let ?n = "length xs" and ?s = "length (row H xs l)"
  have full: "row H xs (Suc l) ! i = H (row H xs l ! (2 * i)) (row H xs l ! (2 * i + 1))"
    by (rule row_full [OF Suc.prems(1)])
  have le: "2 * i + 2 \<le> ?n div 2 ^ l"
    using Suc.prems(1) unfolding div_exp_Suc by linarith
  have s: "(?s + 1) div 2 = ?n div 2 ^ l div 2 + 1"
    using Suc.prems(2) unfolding div_exp_Suc by simp
  show ?case
  proof (cases "odd ?s")
    case True
    with row_last_odd [OF True] Suc.prems(3) full have "row H xs l ! (2 * i) = row H xs l ! (2 * i + 1)"
      using no_collisionD [OF assms, of "row H xs l ! (2 * i)" "row H xs l ! (2 * i + 1)"] by simp
    then show ?thesis
      using le by (intro repeats_pair [of H xs l i]) (simp_all add: equal_pair_def)
  next
    case False
    then have e: "(?s + 1) div 2 = ?s div 2"
      by simp
    have "0 < ?s"
      using s e by (cases ?s) auto
    then have "row H xs (Suc l) ! (length (row H xs (Suc l)) - 1) = H (row H xs l ! (?s - 2)) (row H xs l ! (?s - 1))"
      using row_last_even [of H xs l] False e by simp
    then have "row H xs l ! (2 * i + 1) = row H xs l ! (?s - 1)"
      using Suc.prems(3) full no_collisionD [OF assms] by metis
    moreover have "?s = ?n div 2 ^ l + 1"
      using row_le_full [of H xs l] full_le_row [of xs l H] s e False by (cases "?s = ?n div 2 ^ l") auto
    ultimately show ?thesis
      using Suc.IH [of "2 * i + 1"] le by simp
  qed
qed simp


lemma pair_up_equal:
  assumes "no_collision H" "pair_up H us = pair_up H vs" "length us \<le> length vs"
  shows "us = vs \<or> (length vs = length us + 1 \<and> even (length vs) \<and> vs ! (length vs - 2) = vs ! (length vs - 1))"
  using assms(2,3)
proof (induction us arbitrary: vs rule: induct_list012)
  case 1
  then show ?case
    by (cases vs rule: remdups_adj.cases) auto
next
  case (2 x)
  from 2(1) obtain v vs' where vs: "vs = v # vs'"
    by (cases vs) auto
  show ?case
  proof (cases vs')
    case Nil
    with 2(1) vs no_collisionD [OF assms(1), of x x v v] show ?thesis
      by simp
  next
    case (Cons w ws)
    with 2(1) vs have h: "H x x = H v w" "pair_up H ws = []"
      by auto
    from h(2) have "ws = []"
      by (cases ws rule: remdups_adj.cases) auto
    moreover from no_collisionD [OF assms(1) h(1)] have "v = w"
      by blast
    ultimately show ?thesis
      using vs Cons by simp
  qed
next
  case (3 x y us)
  from 3(4) obtain v w vs' where vs: "vs = v # w # vs'"
    by (cases vs rule: remdups_adj.cases) auto
  with 3(3) have "H x y = H v w" "pair_up H us = pair_up H vs'"
    by auto
  with no_collisionD [OF assms(1) this(1)] 3(1) [of vs'] 3(4) vs show ?case
    by (auto simp: nth_Cons' split: if_splits)
qed

lemma rows_down:
  assumes "no_collision H" "row H xs (Suc l) = row H ys (Suc l)" "\<not> repeats H xs (length xs)" "\<not> repeats H ys (length ys)"
  shows "row H xs l = row H ys l"
proof -
  have one: "row H us l = row H vs l" if "row H us (Suc l) = row H vs (Suc l)" "length (row H us l) \<le> length (row H vs l)"
    "\<not> repeats H vs (length vs)" for us vs
  proof (rule ccontr)
    let ?s = "length (row H vs l)" and ?n = "length vs div 2 ^ l"
    assume "row H us l \<noteq> row H vs l"
    with pair_up_equal [OF assms(1) that(1) [unfolded row_Suc] that(2)]
    have s: "?s = length (row H us l) + 1" "even ?s" "row H vs l ! (?s - 2) = row H vs l ! (?s - 1)"
      by auto
    then obtain k where k: "?s = 2 * k"
      by (elim evenE)
    with s(1) have "0 < k"
      by (cases k) auto
    with k obtain m where m: "?s = 2 * m" "0 < m"
      by blast
    show False
    proof (cases "?s = ?n")
      case True
      have "2 * (m - 1) = ?s - 2" "2 * (m - 1) + 1 = ?s - 1"
        using m by auto
      with s(3) have "equal_pair H vs l (m - 1)"
        unfolding equal_pair_def by metis
      then have "repeats H vs (length vs)"
        using m True by (intro repeats_pair) auto
      with that(3) show False ..
    next
      case False
      then have "?s = ?n + 1"
        using row_le_full [of H vs l] full_le_row [of vs l H] by linarith
      moreover have "?s - 2 < ?n"
        using calculation m by linarith
      ultimately show False
        using partial_equal [OF assms(1), of "?s - 2" vs l] s(3) that(3) by simp
    qed
  qed
  show ?thesis
    using one [of xs ys] one [of ys xs] assms(2-4) by (cases "length (row H xs l) \<le> length (row H ys l)") auto
qed

primrec at_depth :: "('h \<Rightarrow> 'h \<Rightarrow> 'h) \<Rightarrow> nat \<Rightarrow> 'h \<Rightarrow> bool" where
  "at_depth H 0 a \<longleftrightarrow> (\<forall>b c. a \<noteq> H b c)"
| "at_depth H (Suc l) a \<longleftrightarrow> (\<exists>b c. a = H b c \<and> at_depth H l b)"

lemma at_depth_unique:
  assumes "no_collision H"
  shows "at_depth H l a \<Longrightarrow> at_depth H m a \<Longrightarrow> l = m"
proof (induction l arbitrary: m a)
  case 0
  then show ?case
    by (cases m) auto
next
  case (Suc l)
  then obtain b c where b: "a = H b c" "at_depth H l b"
    by auto
  then obtain k where k: "m = Suc k"
    using Suc.prems(2) by (cases m) auto
  then obtain b' c' where "a = H b' c'" "at_depth H k b'"
    using Suc.prems(2) by auto
  then show ?case
    using Suc.IH [OF b(2), of k] no_collisionD [OF assms] b(1) k by metis
qed

lemma pair_up_set: "z \<in> set (pair_up H xs) \<Longrightarrow> \<exists>x y. z = H x y \<and> x \<in> set xs"
  by (induction H xs rule: pair_up.induct) auto

lemma row_depth: "\<forall>x \<in> set xs. at_depth H 0 x \<Longrightarrow> z \<in> set (row H xs l) \<Longrightarrow> at_depth H l z"
proof (induction l arbitrary: z)
  case (Suc l)
  then show ?case
    using pair_up_set [of z H "row H xs l"] unfolding row_Suc by auto
qed simp

lemma merkle_root_injective:
  assumes H: "no_collision H" and leaves: "\<forall>x \<in> set xs \<union> set ys. at_depth H 0 x"
    and ne: "xs \<noteq> []" "ys \<noteq> []" and no: "\<not> repeats H xs (length xs)" "\<not> repeats H ys (length ys)"
    and d: "length (row H xs d) = 1" "length (row H ys e) = 1" "row H xs d ! 0 = row H ys e ! 0"
  shows "xs = ys"
proof -
  have m: "row H xs d ! 0 \<in> set (row H xs d)" "row H ys e ! 0 \<in> set (row H ys e)"
    using d(1,2) by (auto intro: nth_mem)
  have "at_depth H d (row H xs d ! 0)" "at_depth H e (row H ys e ! 0)"
    using row_depth [OF _ m(1)] row_depth [OF _ m(2)] leaves by auto
  with at_depth_unique [OF H] d(3) have "d = e"
    by metis
  with d have "row H xs d = row H ys d"
    by (metis One_nat_def length_0_conv length_Suc_conv nth_Cons_0)
  moreover have "row H xs l = row H ys l \<Longrightarrow> xs = ys" for l
  proof (induction l)
    case (Suc l)
    then show ?case
      using rows_down [OF H _ no] by blast
  qed simp
  ultimately show ?thesis
    by blast
qed


section \<open>Properties\<close>

text \<open>
  C13. Both ways to compute the root agree: for less than 2^31 transactions, the constant-space
  computation always returns, with the root that building the tree as a vector gives; the flag says whether two
  equal subtrees without duplicated leaves are combined somewhere.
\<close>
theorem ComputeMerkleRoot_tree:
  assumes "vtx \<noteq> []" "length vtx < 2 ^ 31" "\<not> (usesAlgo \<and> algo \<in> {1..7})"
  shows "\<exists>root. ComputeMerkleRoot H null inner (map GetHash vtx) = Ret (root, repeats H (map GetHash vtx) (length vtx))
    \<and> BuildMerkleTree H null GetHash sha256 usesAlgo algo vtx = Ret root"
  using merkle_computation [of "map GetHash vtx" False "2 ^ 32 - 1" H null inner] build_tree [OF assms(1,3), of H null GetHash sha256] assms(1,2)
  by (auto simp: ComputeMerkleRoot_def)

theorem ComputeMerkleRoot_tree_witness:
  "\<exists>root. ComputeMerkleRoot (\<lambda>a b. 2 * a + 3 * b) 0 (\<lambda>_. 0) (map Suc [1, 2, 3])
      = Ret (root, repeats (\<lambda>a b. 2 * a + 3 * b) (map Suc [1, 2, 3]) (length [1, 2, 3 :: nat]))
    \<and> BuildMerkleTree (\<lambda>a b. 2 * a + 3 * b) 0 Suc Suc False 0 [1, 2, 3] = Ret root"
  by (rule ComputeMerkleRoot_tree) simp_all

text \<open>
  C21. Branches prove membership: the branch computed for a position, put together with its leaf,
  gives the root.
\<close>
theorem ComputeMerkleBranch_root:
  assumes "leaves \<noteq> []" "length leaves < 2 ^ 31" "position < length leaves"
  shows "\<exists>branch mutated. ComputeMerkleBranch H null inner leaves position = Ret branch
    \<and> ComputeMerkleRoot H null inner leaves = Ret (ComputeMerkleRootFromBranch H (leaves ! position) branch position, mutated)"
proof -
  from merkle_computation [OF assms(1,2), of True position H null inner] assms(3) obtain d branch
    where b: "ComputeMerkleBranch H null inner leaves position = Ret branch" "length (row H leaves d) = 1"
    "merkle_root H leaves = row H leaves d ! 0" "branch = branch_to H leaves position d"
    by (auto simp: ComputeMerkleBranch_def)
  have "position div 2 ^ d = 0"
    using pos_in_row [OF assms(3), of d H] b(2) by simp
  then have "ComputeMerkleRootFromBranch H (leaves ! position) branch position = merkle_root H leaves"
    using root_from_branch [OF assms(3), of H 0 d] b(3,4) by (simp add: branch_to_def)
  with merkle_computation [OF assms(1,2), of False "2 ^ 32 - 1" H null inner] b(1) show ?thesis
    by (auto simp: ComputeMerkleRoot_def)
qed

theorem ComputeMerkleBranch_root_witness:
  "\<exists>branch mutated. ComputeMerkleBranch (\<lambda>a b. 2 * a + 3 * b) 0 (\<lambda>_. 0) [5, 6, 7 :: nat] 2 = Ret branch
    \<and> ComputeMerkleRoot (\<lambda>a b. 2 * a + 3 * b) 0 (\<lambda>_. 0) [5, 6, 7]
      = Ret (ComputeMerkleRootFromBranch (\<lambda>a b. 2 * a + 3 * b) 7 branch 2, mutated)"
  using ComputeMerkleBranch_root [of "[5, 6, 7 :: nat]" 2 "\<lambda>a b. 2 * a + 3 * b" 0 "\<lambda>_. 0"] by simp

text \<open>
  C14. A root that is not flagged commits to its leaves: if the hash has no collisions and no leaf is the
  hash of a pair, two lists with the same root and without the flag are equal. So every way to
  change the transactions under a root is flagged.
\<close>
theorem ComputeMerkleRoot_commits:
  assumes "no_collision H" "\<forall>x \<in> set xs \<union> set ys. at_depth H 0 x" "xs \<noteq> []" "ys \<noteq> []" "length xs < 2 ^ 31" "length ys < 2 ^ 31"
    and "ComputeMerkleRoot H null inner xs = Ret (root, False)" "ComputeMerkleRoot H null inner' ys = Ret (root, False)"
  shows "xs = ys"
proof -
  from merkle_computation [OF assms(3,5), of False "2 ^ 32 - 1" H null inner] assms(7) obtain d
    where d: "length (row H xs d) = 1" "root = row H xs d ! 0" "\<not> repeats H xs (length xs)"
    by (auto simp: ComputeMerkleRoot_def)
  from merkle_computation [OF assms(4,6), of False "2 ^ 32 - 1" H null inner'] assms(8) obtain e
    where e: "length (row H ys e) = 1" "root = row H ys e ! 0" "\<not> repeats H ys (length ys)"
    by (auto simp: ComputeMerkleRoot_def)
  from d(2) e(2) have "row H xs d ! 0 = row H ys e ! 0"
    by simp
  from merkle_root_injective [OF assms(1-4) d(3) e(3) d(1) e(1) this] show ?thesis .
qed

theorem ComputeMerkleRoot_commits_witness:
  "ComputeMerkleRoot Node (Leaf 0) (\<lambda>_. Leaf 0) [Leaf 1, Leaf 2] = Ret (Node (Leaf 1) (Leaf 2), False) \<and> [Leaf 1, Leaf 2] = map Leaf [1, 2]"
proof -
  have "l = 0" if "(2 * i + 2) * 2 ^ l \<le> 2" for i l :: nat
  proof (cases l)
    case (Suc k)
    have "2 * 2 \<le> (2 * i + 2) * (2 :: nat) ^ l"
      by (rule mult_le_mono) (simp_all add: Suc)
    with that show ?thesis
      by linarith
  qed simp
  then have "\<not> repeats Node [Leaf 1, Leaf 2] 2"
    by (fastforce simp: repeats_def equal_pair_def)
  then have "\<not> repeats Node [Leaf 1, Leaf 2] (Suc (Suc 0))"
    by (metis numeral_2_eq_2)
  moreover have "merkle_root Node [Leaf 1, Leaf 2] = Node (Leaf 1) (Leaf 2)"
    by (simp add: merkle_root.simps)
  ultimately have r: "ComputeMerkleRoot Node (Leaf 0) (\<lambda>_. Leaf 0) [Leaf 1, Leaf 2] = Ret (Node (Leaf 1) (Leaf 2), False)"
    using merkle_computation [of "[Leaf 1, Leaf 2]" False "2 ^ 32 - 1" Node "Leaf 0" "\<lambda>_. Leaf 0"]
    by (auto simp: ComputeMerkleRoot_def)
  moreover have "no_collision Node"
    by (simp add: no_collision_def)
  ultimately show ?thesis
    using ComputeMerkleRoot_commits [of Node "[Leaf 1, Leaf 2]" "map Leaf [1, 2]" "Leaf 0" "\<lambda>_. Leaf 0" "Node (Leaf 1) (Leaf 2)" "\<lambda>_. Leaf 0"] by simp
qed

end
