(* ===== verification/Tx_Check.thy ===== *)
theory Tx_Check
  imports Script_Solver Merkle
begin

text \<open>
  Transactions on their own (\<open>block.cpp\<close>, \<open>main.cpp\<close>): \<open>CheckTransaction\<close>, the check that the inputs
  are known, the counts of signature operations and \<open>AreInputsStandard\<close>. The data of extended
  transactions, the serialized sizes and the hashes are parameters.
\<close>

section \<open>Transactions\<close>

text \<open>
  A hash of 256 bits is the list of its bytes. The data of extended transactions and the price of
  serialising them are in the parameters: the serialized size, the two hashes of a transaction and
  the hash of two ranges of bytes put together.
\<close>

type_synonym uint256 = "byte list"

record COutPoint =
  po_hash :: uint256
  po_n :: nat

record CTxIn =
  in_prevout :: COutPoint
  in_scriptSig :: script
  in_nSequence :: nat

record CTxOut =
  out_nValue :: int
  out_scriptPubKey :: script

record CTransaction =
  tx_nFlag :: nat
  tx_vin :: "CTxIn list"
  tx_vout :: "CTxOut list"
  tx_wit :: "valtype list list"
  tx_locktime :: nat

record tx_env =
  serialize_size :: "CTransaction \<Rightarrow> nat"
  tx_hash :: "CTransaction \<Rightarrow> uint256"
  tx_witness_hash :: "CTransaction \<Rightarrow> uint256"
  hash_ranges :: "byte list \<Rightarrow> byte list \<Rightarrow> uint256"

definition null256 :: uint256 where
  "null256 = replicate 32 0"

definition COutPoint_IsNull :: "COutPoint \<Rightarrow> bool" where
  "COutPoint_IsNull po \<longleftrightarrow> po_hash po = null256 \<and> po_n po = 2 ^ 32 - 1"

definition IsCoinBase :: "CTransaction \<Rightarrow> bool" where
  "IsCoinBase tx \<longleftrightarrow> (case tx_vin tx of [txin] \<Rightarrow> COutPoint_IsNull (in_prevout txin) | _ \<Rightarrow> False)"

text \<open>The comparison leaves the witness out.\<close>

definition tx_equal :: "CTransaction \<Rightarrow> CTransaction \<Rightarrow> bool" where
  "tx_equal a b \<longleftrightarrow> tx_nFlag a = tx_nFlag b \<and> tx_vin a = tx_vin b \<and> tx_vout a = tx_vout b \<and> tx_locktime a = tx_locktime b"

definition wit_IsNull :: "valtype list list \<Rightarrow> bool" where
  "wit_IsNull wit \<longleftrightarrow> list_all (\<lambda>stack. stack = []) wit"

section \<open>The limits of a coin\<close>

record tx_iface =
  max_block_size :: nat
  max_money :: nat
  max_sigops :: nat
  max_script_size :: nat
  max_script_element_size :: nat

definition shc_limits :: tx_iface where
  "shc_limits = \<lparr>max_block_size = 4096000, max_money = 500000794 * 10 ^ 8, max_sigops = 32768, max_script_size = 60624, max_script_element_size = 3368\<rparr>"

definition emc2_limits :: tx_iface where
  "emc2_limits = \<lparr>max_block_size = 1000000, max_money = 298937393 * 10 ^ 8, max_sigops = 20000, max_script_size = 10000, max_script_element_size = 520\<rparr>"

definition ltc_limits :: tx_iface where
  "ltc_limits = \<lparr>max_block_size = 1000000, max_money = 84000000 * 10 ^ 8, max_sigops = 20000, max_script_size = 10000, max_script_element_size = 520\<rparr>"

definition testnet_limits :: tx_iface where
  "testnet_limits = \<lparr>max_block_size = 4096000, max_money = 1000000000 * 10 ^ 8, max_sigops = 32768, max_script_size = 60624, max_script_element_size = 3368\<rparr>"

definition color_limits :: tx_iface where
  "color_limits = \<lparr>max_block_size = 512000, max_money = 722388 * 10 ^ 8, max_sigops = 4096, max_script_size = 10000, max_script_element_size = 520\<rparr>"

definition coin_limits :: "tx_iface list" where
  "coin_limits = [shc_limits, emc2_limits, ltc_limits, testnet_limits, color_limits]"

text \<open>A sum of 64-bit values wraps around.\<close>

definition int64 :: "int \<Rightarrow> int" where
  "int64 x = (x + 2 ^ 63) mod 2 ^ 64 - 2 ^ 63"

definition MoneyRange :: "tx_iface \<Rightarrow> int \<Rightarrow> bool" where
  "MoneyRange iface nValue \<longleftrightarrow> nValue \<ge> 0 \<and> nValue \<le> int (max_money iface)"

section \<open>Checking a transaction\<close>

function tx_HasValidOps :: "tx_iface \<Rightarrow> script \<Rightarrow> bool" where
  "tx_HasValidOps iface it =
     (if it = [] then True
      else (case GetOp2 it of
              (False, opcode, vch, it') \<Rightarrow> False
            | (True, opcode, vch, it') \<Rightarrow>
              if opcode > 0xf9 \<or> length vch > max_script_element_size iface then False
              else tx_HasValidOps iface it'))"
  by pat_completeness auto
termination
  by (relation "measure (length \<circ> snd)") (auto dest: GetOp2_shorter [OF sym])

declare tx_HasValidOps.simps [simp del]

text \<open>
  The loops return \<open>Some b\<close> where the function returns \<open>b\<close>, \<open>None\<close> where it goes on. A script that
  is refused is returned as \<open>(ERR_2BIG, ..., x)\<close>, whose value is its last operand: a text, which
  counts as true, or the greatest size of a script.
\<close>

fun check_outputs :: "tx_iface \<Rightarrow> int \<Rightarrow> CTxOut list \<Rightarrow> bool option" where
  "check_outputs iface nValueOut [] = None"
| "check_outputs iface nValueOut (txout # vout) =
     (if out_nValue txout < 0 then Some False
      else if out_nValue txout > int (max_money iface) then Some False
      else (let nValueOut = int64 (nValueOut + out_nValue txout) in
            if \<not> MoneyRange iface nValueOut then Some False
            else if \<not> tx_HasValidOps iface (out_scriptPubKey txout) then Some True
            else if length (out_scriptPubKey txout) > max_script_size iface then Some (max_script_size iface \<noteq> 0)
            else check_outputs iface nValueOut vout))"

fun duplicate_input :: "COutPoint set \<Rightarrow> CTxIn list \<Rightarrow> bool" where
  "duplicate_input vInOutPoints [] = False"
| "duplicate_input vInOutPoints (txin # vin) =
     (if in_prevout txin \<in> vInOutPoints then True
      else duplicate_input (insert (in_prevout txin) vInOutPoints) vin)"

fun check_inputs :: "tx_iface \<Rightarrow> CTxIn list \<Rightarrow> bool option" where
  "check_inputs iface [] = None"
| "check_inputs iface (txin # vin) =
     (if COutPoint_IsNull (in_prevout txin) then Some False
      else if \<not> tx_HasValidOps iface (in_scriptSig txin) then Some True
      else if length (in_scriptSig txin) > max_script_size iface then Some (max_script_size iface \<noteq> 0)
      else check_inputs iface vin)"

definition CheckTransaction :: "tx_env \<Rightarrow> tx_iface \<Rightarrow> CTransaction \<Rightarrow> bool" where
  "CheckTransaction env iface tx =
     (if tx_vin tx = [] then False
      else if tx_vout tx = [] then False
      else if serialize_size env tx > max_block_size iface then False
      else (case check_outputs iface 0 (tx_vout tx) of
              Some b \<Rightarrow> b
            | None \<Rightarrow>
              if duplicate_input {} (tx_vin tx) then False
              else if IsCoinBase tx
              then \<not> (length (in_scriptSig (hd (tx_vin tx))) < 2 \<or> length (in_scriptSig (hd (tx_vin tx))) > 100)
              else (case check_inputs iface (tx_vin tx) of Some b \<Rightarrow> b | None \<Rightarrow> True)))"

text \<open>Which transactions are stored in blocks is a parameter.\<close>

definition CheckTransactionInputs :: "(uint256 \<Rightarrow> bool) \<Rightarrow> CTransaction \<Rightarrow> bool" where
  "CheckTransactionInputs VerifyTxHash tx =
     (if IsCoinBase tx then True
      else if tx_vin tx = [] then False
      else list_all (\<lambda>txin. \<not> COutPoint_IsNull (in_prevout txin) \<and> VerifyTxHash (po_hash (in_prevout txin))) (tx_vin tx))"

definition in_block :: "tx_env \<Rightarrow> CTransaction list \<Rightarrow> CTransaction \<Rightarrow> bool" where
  "in_block env vtx tx \<longleftrightarrow>
     list_ex (\<lambda>txin. list_ex (\<lambda>t_tx. \<not> tx_equal tx t_tx \<and> tx_hash env t_tx = po_hash (in_prevout txin)) vtx) (tx_vin tx)"

definition block_CheckTransactionInputs :: "tx_env \<Rightarrow> (uint256 \<Rightarrow> bool) \<Rightarrow> CTransaction list \<Rightarrow> bool" where
  "block_CheckTransactionInputs env VerifyTxHash vtx =
     list_all (\<lambda>tx. in_block env vtx tx \<or> CheckTransactionInputs VerifyTxHash tx) vtx"

section \<open>Counting signature operations\<close>

definition GetLegacySigOpCount :: "CTransaction \<Rightarrow> nat" where
  "GetLegacySigOpCount tx =
     (sum_list (map (GetSigOpCount False \<circ> in_scriptSig) (tx_vin tx))
      + sum_list (map (GetSigOpCount False \<circ> out_scriptPubKey) (tx_vout tx))) mod 2 ^ 32"

definition WitnessSigOps :: "nat \<Rightarrow> valtype \<Rightarrow> valtype list \<Rightarrow> nat" where
  "WitnessSigOps witversion witprogram stack =
     (if witversion = 0
      then (if length witprogram = 20 then 1
            else if length witprogram = 32 \<and> length stack > 0 then GetSigOpCount True (last stack)
            else 0)
      else 0)"

text \<open>The data of the last instruction; an instruction that cannot be read is read again and again.\<close>

function last_data :: "script \<Rightarrow> valtype \<Rightarrow> valtype res" where
  "last_data pc dat =
     (if pc = [] then Ret dat
      else (case GetOp2 pc of
              (False, opcode, vch, pc') \<Rightarrow> Hang
            | (True, opcode, vch, pc') \<Rightarrow> last_data pc' vch))"
  by pat_completeness auto
termination
  by (relation "measure (length \<circ> fst)") (auto dest: GetOp2_shorter [OF sym])

declare last_data.simps [simp del]

definition CountWitnessSigOps :: "script \<Rightarrow> script \<Rightarrow> valtype list option \<Rightarrow> nat \<Rightarrow> nat res" where
  "CountWitnessSigOps scriptSig scriptPubKey witness flags =
     (let stack = (case witness of None \<Rightarrow> [] | Some w \<Rightarrow> w) in
      if flags \<noteq> 0 \<and> \<not> flag_set flags SCRIPT_VERIFY_WITNESS then Ret 0
      else (case IsWitnessProgram scriptPubKey of
              Some (version, program) \<Rightarrow> Ret (WitnessSigOps version program stack)
            | None \<Rightarrow>
              if IsPayToScriptHash scriptPubKey \<and> IsPushOnly scriptSig
              then andThen (last_data scriptSig [])
                     (\<lambda>dat. case IsWitnessProgram dat of
                        Some (version, program) \<Rightarrow> Ret (WitnessSigOps version program stack)
                      | None \<Rightarrow> Ret 0)
              else Ret 0))"

text \<open>
  The transactions of the inputs by their hash. One version of \<open>GetOutputFor\<close> throws when the output
  is not there, which is \<open>None\<close>; the other one returns false.
\<close>

definition GetOutputFor :: "CTxIn \<Rightarrow> (uint256 \<Rightarrow> CTransaction option) \<Rightarrow> CTxOut option" where
  "GetOutputFor input inputs =
     (case inputs (po_hash (in_prevout input)) of
        None \<Rightarrow> None
      | Some txPrev \<Rightarrow>
        if po_n (in_prevout input) \<ge> length (tx_vout txPrev) then None
        else Some (tx_vout txPrev ! po_n (in_prevout input)))"

fun p2sh_sigops :: "(uint256 \<Rightarrow> CTransaction option) \<Rightarrow> CTxIn list \<Rightarrow> nat option" where
  "p2sh_sigops inputs [] = Some 0"
| "p2sh_sigops inputs (txin # vin) =
     (case GetOutputFor txin inputs of
        None \<Rightarrow> None
      | Some out \<Rightarrow>
        (case p2sh_sigops inputs vin of
           None \<Rightarrow> None
         | Some n \<Rightarrow>
           Some ((if IsPayToScriptHash (out_scriptPubKey out)
                  then GetSigOpCount_sig (out_scriptPubKey out) (in_scriptSig txin) else 0) + n)))"

definition GetP2SHSigOpCount :: "CTransaction \<Rightarrow> (uint256 \<Rightarrow> CTransaction option) \<Rightarrow> nat option" where
  "GetP2SHSigOpCount tx inputs = (if IsCoinBase tx then Some 0 else map_option (\<lambda>n. n mod 2 ^ 32) (p2sh_sigops inputs (tx_vin tx)))"

fun witness_sigops ::
  "(uint256 \<Rightarrow> CTransaction option) \<Rightarrow> nat \<Rightarrow> valtype list list \<Rightarrow> nat \<Rightarrow> CTxIn list \<Rightarrow> nat option res" where
  "witness_sigops inputs flags wit i [] = Ret (Some 0)"
| "witness_sigops inputs flags wit i (txin # vin) =
     (case GetOutputFor txin inputs of
        None \<Rightarrow> Ret None
      | Some out \<Rightarrow>
        andThen (CountWitnessSigOps (in_scriptSig txin) (out_scriptPubKey out) (if i < length wit then Some (wit ! i) else None) flags)
          (\<lambda>k. andThen (witness_sigops inputs flags wit (i + 1) vin) (\<lambda>n. Ret (map_option (\<lambda>n. k + n) n))))"

text \<open>With the inputs in a map: \<open>None\<close> where an output is not there and the function throws.\<close>

definition GetSigOpCost :: "CTransaction \<Rightarrow> (uint256 \<Rightarrow> CTransaction option) \<Rightarrow> nat \<Rightarrow> nat option res" where
  "GetSigOpCost tx inputs flags =
     (let nSigOps = GetLegacySigOpCount tx * 4 mod 2 ^ 32 in
      if IsCoinBase tx then Ret (Some nSigOps)
      else (case (if flags \<noteq> 0 \<and> flag_set flags SCRIPT_VERIFY_P2SH
                  then map_option (\<lambda>n. n * 4 mod 2 ^ 32) (GetP2SHSigOpCount tx inputs) else Some 0) of
              None \<Rightarrow> Ret None
            | Some p \<Rightarrow>
              andThen (witness_sigops inputs flags (tx_wit tx) 0 (tx_vin tx))
                (\<lambda>w. Ret (map_option (\<lambda>w. nSigOps + p + w) w))))"

text \<open>
  With the inputs in a cache: outputs that are not there are skipped. The operations of the script
  hashes are counted in a variable of an inner block that hides \<open>nSigOps\<close>, and are not returned.
\<close>

fun cached_witness_sigops ::
  "(uint256 \<Rightarrow> CTransaction option) \<Rightarrow> nat \<Rightarrow> valtype list list \<Rightarrow> nat \<Rightarrow> CTxIn list \<Rightarrow> nat res" where
  "cached_witness_sigops inputs flags wit i [] = Ret 0"
| "cached_witness_sigops inputs flags wit i (txin # vin) =
     (case GetOutputFor txin inputs of
        None \<Rightarrow> cached_witness_sigops inputs flags wit (i + 1) vin
      | Some out \<Rightarrow>
        andThen (CountWitnessSigOps (in_scriptSig txin) (out_scriptPubKey out) (if i < length wit then Some (wit ! i) else None) flags)
          (\<lambda>k. andThen (cached_witness_sigops inputs flags wit (i + 1) vin) (\<lambda>n. Ret (k + n))))"

definition cached_GetSigOpCost :: "CTransaction \<Rightarrow> (uint256 \<Rightarrow> CTransaction option) \<Rightarrow> nat \<Rightarrow> nat res" where
  "cached_GetSigOpCost tx inputs flags =
     (let nSigOps = GetLegacySigOpCount tx * 4 mod 2 ^ 32 in
      if IsCoinBase tx then Ret nSigOps
      else if flags = 0 \<or> flag_set flags SCRIPT_VERIFY_WITNESS
      then andThen (cached_witness_sigops inputs flags (tx_wit tx) 0 (tx_vin tx)) (\<lambda>w. Ret (nSigOps + w))
      else Ret nSigOps)"

section \<open>Standard inputs\<close>

text \<open>
  \<open>Ret None\<close> is an exception of \<open>GetOutputFor\<close>. A script hash with more than 15 signature operations
  is returned as \<open>(SHERR_INVAL, ...)\<close>, whose value is the text, that is true.
\<close>

fun inputs_standard ::
  "(nat \<Rightarrow> script_env) \<Rightarrow> alt_chains \<Rightarrow> (uint256 \<Rightarrow> CTransaction option) \<Rightarrow> nat \<Rightarrow> CTxIn list \<Rightarrow> bool option res" where
  "inputs_standard senv alt inputs i [] = Ret (Some True)"
| "inputs_standard senv alt inputs i (txin # vin) =
     (case GetOutputFor txin inputs of
        None \<Rightarrow> Ret None
      | Some prv \<Rightarrow>
        andThen (Solver alt (out_scriptPubKey prv) TX_NONSTANDARD [])
          (\<lambda>(ok, whichType, vSolutions).
            let nArgsExpected = ScriptSigArgsExpected whichType vSolutions in
            if \<not> ok then Ret (Some False)
            else if nArgsExpected < 0 then Ret (Some False)
            else (case EvalScript (senv i) SIGVERSION_BASE 0 (in_scriptSig txin) [] of
                    None \<Rightarrow> Ret (Some False)
                  | Some stack \<Rightarrow>
                    if whichType = TX_SCRIPTHASH
                    then (case stack of
                            [] \<Rightarrow> Ret (Some False)
                          | subscript # _ \<Rightarrow>
                            andThen (Solver alt subscript TX_NONSTANDARD [])
                              (\<lambda>(ok2, whichType2, vSolutions2).
                                let tmpExpected = ScriptSigArgsExpected whichType2 vSolutions2 in
                                if \<not> ok2 then Ret (Some False)
                                else if whichType2 = TX_SCRIPTHASH then Ret (Some False)
                                else if GetSigOpCount True subscript > 15 then Ret (Some True)
                                else if tmpExpected < 0 then Ret (Some False)
                                else if int (length stack) > nArgsExpected + tmpExpected then Ret (Some False)
                                else inputs_standard senv alt inputs (i + 1) vin))
                    else if int (length stack) > nArgsExpected then Ret (Some False)
                    else inputs_standard senv alt inputs (i + 1) vin)))"

definition AreInputsStandard ::
  "(nat \<Rightarrow> script_env) \<Rightarrow> alt_chains \<Rightarrow> CTransaction \<Rightarrow> (uint256 \<Rightarrow> CTransaction option) \<Rightarrow> bool option res" where
  "AreInputsStandard senv alt tx inputs =
     (if IsCoinBase tx then Ret (Some True) else inputs_standard senv alt inputs 0 (tx_vin tx))"

section \<open>What the checks mean\<close>

lemma int64_id [simp]: "- (2 ^ 63) \<le> x \<Longrightarrow> x < 2 ^ 63 \<Longrightarrow> int64 x = x"
  by (simp add: int64_def)

lemma coin_money_bound: "iface \<in> set coin_limits \<Longrightarrow> max_money iface < 2 ^ 62 \<and> max_script_size iface \<noteq> 0"
  by (auto simp: coin_limits_def shc_limits_def emc2_limits_def ltc_limits_def testnet_limits_def color_limits_def)

definition script_fits :: "tx_iface \<Rightarrow> script \<Rightarrow> bool" where
  "script_fits iface s \<longleftrightarrow> tx_HasValidOps iface s \<and> length s \<le> max_script_size iface"

abbreviation (input) total_out :: "CTxOut list \<Rightarrow> int" where
  "total_out vout \<equiv> sum_list (map out_nValue vout)"

lemma total_out_nonneg: "\<forall>out \<in> set vout. 0 \<le> out_nValue out \<Longrightarrow> 0 \<le> total_out vout"
  by (induction vout) auto

lemma check_outputs_fit:
  assumes "max_money iface < 2 ^ 62"
  shows "0 \<le> v \<Longrightarrow> v \<le> int (max_money iface) \<Longrightarrow> \<forall>out \<in> set vout. script_fits iface (out_scriptPubKey out) \<Longrightarrow>
    check_outputs iface v vout =
      (if (\<forall>out \<in> set vout. 0 \<le> out_nValue out) \<and> v + total_out vout \<le> int (max_money iface) then None else Some False)"
proof (induction vout arbitrary: v)
  case (Cons out vout)
  have fit: "script_fits iface (out_scriptPubKey out)" "\<forall>out \<in> set vout. script_fits iface (out_scriptPubKey out)"
    using Cons.prems(3) by simp_all
  show ?case
  proof (cases "0 \<le> out_nValue out \<and> v + out_nValue out \<le> int (max_money iface)")
    case True
    then have "int64 (v + out_nValue out) = v + out_nValue out"
      using assms Cons.prems(1) by simp
    with True Cons.IH [of "v + out_nValue out"] Cons.prems(1) fit show ?thesis
      by (simp add: MoneyRange_def script_fits_def not_less add.assoc)
  next
    case False
    have "check_outputs iface v (out # vout) = Some False"
    proof (cases "out_nValue out < 0 \<or> out_nValue out > int (max_money iface)")
      case c: False
      then have "int64 (v + out_nValue out) = v + out_nValue out"
        using assms Cons.prems(1,2) by simp
      with c False show ?thesis
        by (simp add: MoneyRange_def)
    qed auto
    moreover have "\<not> ((\<forall>x \<in> set (out # vout). 0 \<le> out_nValue x) \<and> v + total_out (out # vout) \<le> int (max_money iface))"
      using False total_out_nonneg [of vout] by auto
    ultimately show ?thesis
      by presburger
  qed
qed simp

lemma duplicate_input_iff:
  "duplicate_input S vin \<longleftrightarrow> \<not> (distinct (map in_prevout vin) \<and> in_prevout ` set vin \<inter> S = {})"
  by (induction S vin rule: duplicate_input.induct) auto

lemma check_inputs_fit:
  "\<forall>txin \<in> set vin. script_fits iface (in_scriptSig txin) \<Longrightarrow>
    check_inputs iface vin = (if \<forall>txin \<in> set vin. \<not> COutPoint_IsNull (in_prevout txin) then None else Some False)"
  by (induction vin) (auto simp: script_fits_def)

lemma inputs_of_coinbase: "IsCoinBase tx \<Longrightarrow> tx_vin tx \<noteq> []"
  by (auto simp: IsCoinBase_def)

text \<open>Costs with all outputs at hand.\<close>

lemma witness_sigops_cached:
  "witness_sigops inputs flags wit i vin = Ret (Some w) \<Longrightarrow> cached_witness_sigops inputs flags wit i vin = Ret w"
proof (induction vin arbitrary: i w)
  case (Cons txin vin)
  from Cons.prems obtain out where out: "GetOutputFor txin inputs = Some out"
    by (auto split: option.splits)
  let ?c = "CountWitnessSigOps (in_scriptSig txin) (out_scriptPubKey out) (if i < length wit then Some (wit ! i) else None) flags"
  show ?case
  proof (cases ?c)
    case (Ret k)
    with Cons.prems out obtain n where n: "witness_sigops inputs flags wit (i + 1) vin = Ret (Some n)" "w = k + n"
      by (cases "witness_sigops inputs flags wit (i + 1) vin") auto
    from Cons.IH [OF n(1)] n(2) Ret out show ?thesis
      by simp
  qed (use Cons.prems out in auto)
qed simp

section \<open>Properties\<close>

text \<open>
  C6. A transaction whose scripts are within the limits is accepted exactly if it has inputs and
  outputs, is not too large, no output is negative, the outputs together do not exceed the money there can be
  (the 64-bit sum does not wrap), no output is spent twice, and the script of a coinbase has from 2 to
  100 bytes, or no other input is null.
\<close>
theorem CheckTransaction_correct:
  assumes "iface \<in> set coin_limits" "\<forall>out \<in> set (tx_vout tx). script_fits iface (out_scriptPubKey out)"
    and "\<forall>txin \<in> set (tx_vin tx). script_fits iface (in_scriptSig txin)"
  shows "CheckTransaction env iface tx \<longleftrightarrow>
    tx_vin tx \<noteq> [] \<and> tx_vout tx \<noteq> [] \<and> serialize_size env tx \<le> max_block_size iface
    \<and> (\<forall>out \<in> set (tx_vout tx). 0 \<le> out_nValue out) \<and> (\<Sum>out \<leftarrow> tx_vout tx. out_nValue out) \<le> int (max_money iface)
    \<and> distinct (map in_prevout (tx_vin tx))
    \<and> (if IsCoinBase tx then length (in_scriptSig (hd (tx_vin tx))) \<in> {2..100}
       else \<forall>txin \<in> set (tx_vin tx). \<not> COutPoint_IsNull (in_prevout txin))"
  using coin_money_bound [OF assms(1)] check_outputs_fit [of iface 0, OF _ _ _ assms(2)] check_inputs_fit [OF assms(3)]
  by (auto simp: CheckTransaction_def duplicate_input_iff not_less)

definition sample_tx_env :: tx_env where
  "sample_tx_env = \<lparr>serialize_size = (\<lambda>tx. 100 * length (tx_vout tx)), tx_hash = (\<lambda>tx. replicate 32 (of_nat (tx_locktime tx))),
     tx_witness_hash = (\<lambda>tx. replicate 32 (of_nat (length (tx_wit tx)))), hash_ranges = (\<lambda>a b. replicate 32 (sum_list a + 3 * sum_list b))\<rparr>"

definition sample_tx :: "nat list \<Rightarrow> (int \<times> script) list \<Rightarrow> CTransaction" where
  "sample_tx ns outs = \<lparr>tx_nFlag = 1, tx_vin = map (\<lambda>n. \<lparr>in_prevout = \<lparr>po_hash = null256, po_n = n\<rparr>, in_scriptSig = [], in_nSequence = 0\<rparr>) ns,
     tx_vout = map (\<lambda>(v, s). \<lparr>out_nValue = v, out_scriptPubKey = s\<rparr>) outs, tx_wit = [], tx_locktime = 0\<rparr>"

lemma sample_tx_simps [simp]:
  "tx_vin (sample_tx ns outs) = map (\<lambda>n. \<lparr>in_prevout = \<lparr>po_hash = null256, po_n = n\<rparr>, in_scriptSig = [], in_nSequence = 0\<rparr>) ns"
  "tx_vout (sample_tx ns outs) = map (\<lambda>(v, s). \<lparr>out_nValue = v, out_scriptPubKey = s\<rparr>) outs"
  "tx_wit (sample_tx ns outs) = []"
  "serialize_size sample_tx_env tx = 100 * length (tx_vout tx)" "length (hash_ranges sample_tx_env a b) = 32"
  "max_block_size shc_limits = 4096000" "max_money shc_limits = 50000079400000000"
  by (simp_all add: sample_tx_def sample_tx_env_def shc_limits_def)

theorem CheckTransaction_correct_witness:
  "CheckTransaction sample_tx_env shc_limits (sample_tx [0, 1] [(5, []), (7, [])]) \<and> \<not> CheckTransaction sample_tx_env shc_limits (sample_tx [0, 0] [(5, [])])"
proof -
  have c: "shc_limits \<in> set coin_limits" "script_fits shc_limits []"
    by (simp_all add: coin_limits_def script_fits_def tx_HasValidOps.simps)
  have cb: "\<not> IsCoinBase (sample_tx [0, 1] outs)" "\<not> IsCoinBase (sample_tx [0, 0] outs)" for outs
    by (simp_all add: IsCoinBase_def)
  show ?thesis
    using CheckTransaction_correct [OF c(1), of "sample_tx [0, 1] [(5, []), (7, [])]" sample_tx_env]
      CheckTransaction_correct [OF c(1), of "sample_tx [0, 0] [(5, [])]" sample_tx_env] c(2) cb
    by (simp add: COutPoint_IsNull_def)
qed

text \<open>
  C18. A script that is not within the limits ends the check with success: a transaction whose first
  output has a value within the range and such a script is accepted whatever its other outputs and its inputs are,
  also if an output is negative or an output is spent twice.
\<close>
theorem CheckTransaction_bypass:
  assumes "iface \<in> set coin_limits" "tx_vin tx \<noteq> []" "serialize_size env tx \<le> max_block_size iface"
    and "tx_vout tx = out # outs" "MoneyRange iface (out_nValue out)" "\<not> script_fits iface (out_scriptPubKey out)"
  shows "CheckTransaction env iface tx"
proof -
  have "int64 (out_nValue out) = out_nValue out"
    using coin_money_bound [OF assms(1)] assms(5) by (simp add: MoneyRange_def)
  then show ?thesis
    using assms coin_money_bound [OF assms(1)] by (auto simp: CheckTransaction_def script_fits_def MoneyRange_def)
qed

theorem CheckTransaction_bypass_witness:
  "CheckTransaction sample_tx_env shc_limits (sample_tx [0, 0] [(0, [0xff]), (- 1000, [])])"
proof -
  have "\<not> script_fits shc_limits [0xff]"
    by (simp add: script_fits_def tx_HasValidOps.simps GetOp2_def)
  with CheckTransaction_bypass [of shc_limits "sample_tx [0, 0] [(0, [0xff]), (- 1000, [])]" sample_tx_env] show ?thesis
    by (simp add: coin_limits_def MoneyRange_def)
qed

text \<open>
  C40. The two ways to compute the cost of signature operations differ: with the rules of script hashes and
  witnesses in force, the one over the cache returns what the other one returns without the
  operations of the script hashes.
\<close>
theorem GetSigOpCost_cached:
  assumes "\<not> IsCoinBase tx" "flag_set flags SCRIPT_VERIFY_P2SH" "flag_set flags SCRIPT_VERIFY_WITNESS" "flags \<noteq> 0"
    and "GetSigOpCost tx inputs flags = Ret (Some n)"
  shows "\<exists>p. GetP2SHSigOpCount tx inputs = Some p \<and> cached_GetSigOpCost tx inputs flags = Ret (n - 4 * p mod 2 ^ 32)"
proof -
  obtain p where p: "GetP2SHSigOpCount tx inputs = Some p"
    using assms by (cases "GetP2SHSigOpCount tx inputs") (auto simp: GetSigOpCost_def Let_def)
  with assms obtain w where w: "witness_sigops inputs flags (tx_wit tx) 0 (tx_vin tx) = Ret (Some w)"
    "n = GetLegacySigOpCount tx * 4 mod 2 ^ 32 + 4 * p mod 2 ^ 32 + w"
    by (cases "witness_sigops inputs flags (tx_wit tx) 0 (tx_vin tx)") (auto simp: GetSigOpCost_def Let_def mult.commute)
  from witness_sigops_cached [OF w(1)] p w(2) assms(1,3) show ?thesis
    by (simp add: cached_GetSigOpCost_def Let_def)
qed

definition sample_p2sh :: script where
  "sample_p2sh = [0xa9, 0x14] @ replicate 20 0 @ [0x87]"

definition sample_spend :: CTransaction where
  "sample_spend = \<lparr>tx_nFlag = 1, tx_vin = [\<lparr>in_prevout = \<lparr>po_hash = [7], po_n = 0\<rparr>, in_scriptSig = [1, 0xac], in_nSequence = 0\<rparr>],
     tx_vout = [], tx_wit = [], tx_locktime = 0\<rparr>"

theorem GetSigOpCost_cached_witness:
  "GetSigOpCost sample_spend [[7] \<mapsto> sample_tx [0] [(5, sample_p2sh)]] 2049 = Ret (Some 4)
    \<and> cached_GetSigOpCost sample_spend [[7] \<mapsto> sample_tx [0] [(5, sample_p2sh)]] 2049 = Ret 0"
proof -
  let ?m = "[[7] \<mapsto> sample_tx [0] [(5, sample_p2sh)]]"
  have fl: "flag_set 2049 SCRIPT_VERIFY_P2SH" "flag_set 2049 SCRIPT_VERIFY_WITNESS"
    by (simp_all add: flag_set_def)
  have h: "IsPayToScriptHash sample_p2sh"
    by (simp add: IsPayToScriptHash_def sample_p2sh_def nth_append)
  have s: "GetSigOpCount False [1, 0xac] = 0" "last_data [1, 0xac] [] = Ret [0xac]" "GetSigOpCount True [0xac] = 1" "last_push [1, 0xac] [] = Some [0xac]"
    "IsPushOnly [1, 0xac]" "IsWitnessProgram [0xac] = None"
    by (simp_all add: GetSigOpCount_def sigop_loop.simps last_data.simps last_push.simps IsPushOnly.simps IsWitnessProgram_def GetOp2_def op_size_def)
  have w: "IsWitnessProgram sample_p2sh = None"
    by (simp add: IsWitnessProgram_def wit_version_def GetOp2_def sample_p2sh_def)
  have p: "GetP2SHSigOpCount sample_spend ?m = Some 1"
    using s h by (simp add: GetSigOpCount_sig_def GetP2SHSigOpCount_def sample_spend_def IsCoinBase_def COutPoint_IsNull_def GetOutputFor_def null256_def)
  have g: "GetSigOpCost sample_spend ?m 2049 = Ret (Some 4)"
    using p s h w fl by (simp add: GetSigOpCost_def GetLegacySigOpCount_def sample_spend_def IsCoinBase_def COutPoint_IsNull_def GetOutputFor_def
        null256_def CountWitnessSigOps_def)
  have "\<not> IsCoinBase sample_spend"
    by (simp add: sample_spend_def IsCoinBase_def COutPoint_IsNull_def null256_def)
  from GetSigOpCost_cached [OF this fl _ g] p g show ?thesis
    by simp
qed

end
