(* ===== verification/Block_Bits.thy ===== *)
theory Block_Bits
  imports Script_Num
begin

text \<open>
  Numbers in block headers: compact targets (\<open>CBigNum\<close> of libcoin/bignum.h), the proof-of-work
  algorithm in the version (server/algobits.cpp), the work of a block (server/block.cpp) and the
  reward of a block (server/shc/shc_block.cpp).
\<close>

unbundle bit_operations_syntax

section \<open>Compact targets\<close>

definition SetCompact :: "nat \<Rightarrow> bignum" where
  "SetCompact nCompact =
     (let nSize = nCompact div 2 ^ 24;
          vch = take nSize [byte_of (nCompact div 2 ^ 16), byte_of (nCompact div 2 ^ 8), byte_of nCompact]
                @ replicate (nSize - 3) 0
      in bn_setvch (rev vch))"

definition GetCompact :: "bignum \<Rightarrow> nat" where
  "GetCompact bn =
     (let vch = rev (bn_getvch bn);
          nSize = length vch;
          nCompact = nSize * 2 ^ 24 mod 2 ^ 32;
          nCompact = (if nSize \<ge> 1 then nCompact OR unat (vch ! 0) * 2 ^ 16 else nCompact);
          nCompact = (if nSize \<ge> 2 then nCompact OR unat (vch ! 1) * 2 ^ 8 else nCompact)
      in if nSize \<ge> 3 then nCompact OR unat (vch ! 2) else nCompact)"

section \<open>Proof-of-work algorithms\<close>

definition IsAlgoBitsMask :: "nat \<Rightarrow> bool" where
  "IsAlgoBitsMask nVersion \<longleftrightarrow> nVersion \<ge> 0xE0000000 \<and> nVersion < 0xE000FFFF"

definition GetAlgoBits :: "int \<Rightarrow> nat" where
  "GetAlgoBits alg = (let alg = alg - 1 in if alg \<ge> 0 then 0xE0000000 + 2 ^ nat alg else 0xE0000000)"

definition GetVersionAlgo :: "nat \<Rightarrow> nat" where
  "GetVersionAlgo nVersion =
     (if IsAlgoBitsMask nVersion
      then (let flag = nVersion - 0xE0000000 in
            case find (\<lambda>idx. bit flag idx) [0..<16] of
              Some idx \<Rightarrow> idx + 1
            | None \<Rightarrow> 0)
      else 0)"

definition GetAlgoWorkFactor :: "nat \<Rightarrow> nat" where
  "GetAlgoWorkFactor alg =
     (if alg = 1 then 1552
      else if alg = 2 then 264
      else if alg = 3 then 8
      else if alg = 4 then 600
      else if alg = 5 then 12
      else if alg = 6 then 30
      else if alg = 7 then 150
      else 1)"

text \<open>The work of a block; the flag to use the algorithm is not read.\<close>

definition GetBlockWork :: "bool \<Rightarrow> nat \<Rightarrow> nat \<Rightarrow> int" where
  "GetBlockWork fUseAlgo nBits nVersion =
     (let bnTarget = bn_int (SetCompact nBits) * int (GetAlgoWorkFactor (GetVersionAlgo nVersion))
      in if bnTarget \<le> 0 then 0 else 2 ^ 256 div (bnTarget + 1))"

section \<open>The block reward\<close>

text \<open>A shift of a 64-bit value by 64 or more is undefined; \<open>None\<close> stands for that.\<close>

definition shc_GetBlockValue :: "nat \<Rightarrow> int \<Rightarrow> int option" where
  "shc_GetBlockValue nHeight nFees =
     (if nHeight = 0 then Some (800 * 100000000)
      else if nHeight div 749918 \<ge> 64 then None
      else (let nSubsidy = drop_bit (nHeight div 749918) (3334 * 100000000) div 10000000 * 1000000
            in Some (nSubsidy + nFees)))"

definition SHC_MAX_MONEY :: int where
  "SHC_MAX_MONEY = 500000794 * 100000000"

section \<open>Lemmas\<close>

definition reward :: "nat \<Rightarrow> int" where
  "reward k = drop_bit k (3334 * 100000000) div 10000000 * 1000000"

lemma value_reward:
  "shc_GetBlockValue h 0 = (if h = 0 then Some 80000000000 else if h div 749918 \<ge> 64 then None else Some (reward (h div 749918)))"
  by (simp add: shc_GetBlockValue_def reward_def Let_def)

lemma reward_nonneg: "0 \<le> reward k"
  by (simp add: reward_def drop_bit_eq_div pos_imp_zdiv_nonneg_iff)

lemma epoch_sum: "(\<Sum>h \<in> {k * 749918..<k * 749918 + 749918}. reward (h div 749918)) = 749918 * reward k"
proof -
  have "h div 749918 = k" if "h \<in> {k * 749918..<k * 749918 + 749918}" for h
    using that by (intro div_nat_eqI) auto
  then show ?thesis
    by simp
qed

lemma total_rewards: "(\<Sum>h < 64 * 749918. reward (h div 749918)) = 749918 * (\<Sum>k < 64. reward k)"
  using sum.nat_group [of "\<lambda>h. reward (h div 749918)" 749918 64] by (simp add: epoch_sum sum_distrib_left)

lemma reward_sum: "(\<Sum>k < 64. reward k) = 66674000000"
proof -
  have "(\<Sum>k < 64. reward k) = sum_list (map reward [0..<64])"
    by (simp add: sum_list_distinct_conv_sum_set atLeast0LessThan)
  then show ?thesis
    by (simp add: upt_rec reward_def drop_bit_eq_div)
qed

lemma reward_mono: "j \<le> k \<Longrightarrow> reward k \<le> reward j"
proof -
  assume "j \<le> k"
  then have "(333400000000 :: int) div 2 ^ k \<le> 333400000000 div 2 ^ j"
    by (intro zdiv_mono2) auto
  then show ?thesis
    by (simp add: reward_def drop_bit_eq_div zdiv_mono1)
qed

lemma sum_block_values:
  assumes "0 < N" "N \<le> 64 * 749918"
  shows "(\<Sum>h < N. the (shc_GetBlockValue h 0)) = 80000000000 - reward 0 + (\<Sum>h < N. reward (h div 749918))"
proof -
  have "(\<Sum>h < N. the (shc_GetBlockValue h 0)) = (\<Sum>h < N. reward (h div 749918) + (if h = 0 then 80000000000 - reward 0 else 0))"
    using assms(2) by (intro sum.cong) (auto simp: value_reward not_le div_less_iff_less_mult)
  also have "\<dots> = (\<Sum>h < N. reward (h div 749918)) + (80000000000 - reward 0)"
    using assms(1) by (simp add: sum.distrib sum.delta)
  finally show ?thesis
    by simp
qed

lemma or_high: "b < 2 ^ k \<Longrightarrow> a * 2 ^ k OR b = a * 2 ^ k + b" for a b :: nat
  using or_add [of b k a] by (simp add: push_bit_eq_mult or.commute ac_simps)

text \<open>The compact form of a number whose big-endian bytes are given: their number and the first three.\<close>

definition compact_of :: "byte list \<Rightarrow> nat" where
  "compact_of vch =
     (let m = (\<lambda>i. if i < length vch then unat (vch ! i) else 0)
      in length vch * 2 ^ 24 + m 0 * 2 ^ 16 + m 1 * 2 ^ 8 + m 2)"

lemma byte_lt: "unat b < 256" for b :: byte
  using unsigned_less [of b] by simp

lemma compact_or:
  "l * 16777216 OR unat a * 65536 = l * 16777216 + unat a * 65536"
  "l * 16777216 + unat a * 65536 OR unat b * 256 = l * 16777216 + unat a * 65536 + unat b * 256"
  "l * 16777216 + unat a * 65536 + unat b * 256 OR unat c = l * 16777216 + unat a * 65536 + unat b * 256 + unat c"
  for a b c :: byte
  using or_high [of "unat a * 65536" 24 l] or_high [of "unat b * 256" 16 "l * 256 + unat a"]
    or_high [of "unat c" 8 "l * 65536 + unat a * 256 + unat b"] byte_lt [of a] byte_lt [of b] byte_lt [of c]
  by (simp_all add: algebra_simps)

lemma GetCompact_eq:
  assumes "length (bn_getvch bn) < 256"
  shows "GetCompact bn = compact_of (rev (bn_getvch bn))"
proof -
  define v where "v = rev (bn_getvch bn)"
  define l where "l = length v"
  have l: "l * 2 ^ 24 mod 2 ^ 32 = l * 16777216"
    using assms by (simp add: l_def v_def)
  consider "l = 0" | "1 \<le> l" "\<not> 2 \<le> l" | "2 \<le> l" "\<not> 3 \<le> l" | "3 \<le> l"
    by linarith
  then show ?thesis
    unfolding GetCompact_def compact_of_def Let_def v_def [symmetric] l_def [symmetric] l
    by cases (simp_all add: compact_or)
qed

lemma compact_div:
  fixes x y z :: nat
  assumes "x < 256" "y < 256" "z < 256"
  shows "(l * 16777216 + x * 65536 + y * 256 + z) div 16777216 = l"
    "(l * 16777216 + x * 65536 + y * 256 + z) div 65536 mod 256 = x"
    "(l * 16777216 + x * 65536 + y * 256 + z) div 256 mod 256 = y"
    "(l * 16777216 + x * 65536 + y * 256 + z) mod 256 = z"
proof -
  let ?n = "l * 16777216 + x * 65536 + y * 256 + z"
  have n: "?n = (l * 65536 + x * 256 + y) * 256 + z"
    by simp
  have y: "?n div 256 = l * 65536 + x * 256 + y"
    using assms(3) by (simp only: n) simp
  then have "?n div 65536 = (l * 65536 + x * 256 + y) div 256"
    using div_mult2_eq [of ?n 256 256] by simp
  also have "\<dots> = ((l * 256 + x) * 256 + y) div 256"
    by simp
  finally have x: "?n div 65536 = l * 256 + x"
    using assms(2) by simp
  then show "?n div 16777216 = l"
    using div_mult2_eq [of ?n 65536 256] assms(1) by simp
  have "l * 65536 + x * 256 + y = (l * 256 + x) * 256 + y"
    by simp
  then have "(l * 65536 + x * 256 + y) mod 256 = y"
    using assms(2) by (simp only: mod_mult_self3 mod_less)
  then show "?n div 65536 mod 256 = x" "?n div 256 mod 256 = y"
    using assms(1) by (simp_all add: x y)
  show "?n mod 256 = z"
    using assms(3) by (simp only: n mod_mult_self3 mod_less)
qed

lemma compact_bytes:
  "(l * 16777216 + unat a * 65536 + unat b * 256 + unat c) div 16777216 = l"
  "byte_of ((l * 16777216 + unat a * 65536 + unat b * 256 + unat c) div 65536) = a"
  "byte_of ((l * 16777216 + unat a * 65536 + unat b * 256 + unat c) div 256) = b"
  "byte_of (l * 16777216 + unat a * 65536 + unat b * 256 + unat c) = c" for a b c :: byte
  using compact_div [OF byte_lt byte_lt byte_lt, of l a b c] by (simp_all only: word_unat_eq_iff unat_byte_of)

lemma SetCompact_of:
  assumes "length vch < 256"
  shows "SetCompact (compact_of vch) = bn_setvch (rev (take 3 vch @ replicate (length vch - 3) 0))"
proof -
  define a where "a = (\<lambda>i. if i < length vch then vch ! i else 0)"
  have c: "compact_of vch = length vch * 16777216 + unat (a 0) * 65536 + unat (a 1) * 256 + unat (a 2)"
    by (simp add: compact_of_def a_def)
  have t: "take (length vch) [a 0, a 1, a 2] = take 3 vch"
    by (rule nth_equalityI) (auto simp: a_def nth_Cons' less_Suc_eq numeral_3_eq_3 numeral_2_eq_2)
  have "SetCompact (compact_of vch) = bn_setvch (rev (take (length vch) [a 0, a 1, a 2] @ replicate (length vch - 3) 0))"
    by (simp add: SetCompact_def c compact_bytes [of "length vch" "a 0" "a 1" "a 2", simplified] Let_def)
  then show ?thesis
    by (simp only: t)
qed

lemma vch_value_replicate [simp]: "vch_value (replicate k 0) = 0"
  by (induction k) simp_all

lemma positive_vch:
  assumes "0 < n"
  obtains xs where "bn_getvch (bn_of_int n) = xs" "xs \<noteq> []" "\<not> top_bit (last xs)" "n = int (vch_value xs)"
proof -
  let ?xs = "scriptnum_serialize n"
  have s: "bn_setvch ?xs = (False, nat n)"
    using assms by (simp add: bn_setvch_serialize bn_of_int_def)
  then have "?xs \<noteq> []" "\<not> top_bit (last ?xs)" "nat n = vch_value ?xs"
    using assms by (auto simp: bn_setvch_def Let_def split: if_splits)
  with that [of ?xs] assms show ?thesis
    by (simp add: bn_getvch_int)
qed

lemma bn_int_positive: "xs \<noteq> [] \<Longrightarrow> \<not> top_bit (last xs) \<Longrightarrow> bn_int (bn_setvch xs) = int (vch_value xs)"
  by (simp add: bn_int_def bn_setvch_def Let_def)

text \<open>The version made for an algorithm gives the algorithm back.\<close>

lemma GetVersionAlgo_GetAlgoBits:
  assumes "0 \<le> alg" "alg < 8"
  shows "IsAlgoBitsMask (GetAlgoBits alg) \<and> int (GetVersionAlgo (GetAlgoBits alg)) = alg"
proof -
  have "alg \<in> set [0, 1, 2, 3, 4, 5, 6, 7]"
    using assms by auto
  moreover have "\<forall>alg \<in> set [0, 1, 2, 3, 4, 5, 6, 7]. IsAlgoBitsMask (GetAlgoBits alg) \<and> int (GetVersionAlgo (GetAlgoBits alg)) = alg"
    by (simp add: GetAlgoBits_def GetVersionAlgo_def IsAlgoBitsMask_def upt_rec bit_Suc_0_iff)
  ultimately show ?thesis
    by blast
qed


section \<open>Properties\<close>

text \<open>
  Compact targets: writing a positive number of fewer than 256 bytes in the compact form and
  reading it back keeps its three highest bytes and clears the others, so the target that is read
  is never above the number.
\<close>
lemma compact_truncates:
  assumes "0 < n" "length (bn_getvch (bn_of_int n)) = k" "k < 256"
  shows "bn_int (SetCompact (GetCompact (bn_of_int n))) = n div 256 ^ (k - 3) * 256 ^ (k - 3)"
proof -
  obtain xs where xs: "bn_getvch (bn_of_int n) = xs" "xs \<noteq> []" "\<not> top_bit (last xs)" "n = int (vch_value xs)"
    by (rule positive_vch [OF assms(1)])
  let ?d = "drop (k - 3) xs" and ?z = "replicate (k - 3) 0 @ drop (k - 3) xs"
  have k: "length xs = k" "0 < k"
    using assms(2) xs(1,2) by auto
  have "rev (take 3 (rev xs) @ replicate (k - 3) 0) = ?z"
    using k by (simp add: take_rev)
  then have "SetCompact (GetCompact (bn_of_int n)) = bn_setvch ?z"
    using assms(3) k xs(1) by (simp add: GetCompact_eq SetCompact_of del: rev_append)
  moreover have "k - 3 < length xs"
    using k by simp
  then have "?d \<noteq> []" "last ?z = last xs"
    by (simp_all add: last_append last_drop)
  ultimately have "bn_int (SetCompact (GetCompact (bn_of_int n))) = int (vch_value ?z)"
    using xs(3) bn_int_positive [of ?z] by simp
  moreover have "vch_value xs = vch_value (take (k - 3) xs) + 256 ^ (k - 3) * vch_value ?d"
    using vch_value_append [of "take (k - 3) xs" ?d] k by simp
  moreover have "vch_value (take (k - 3) xs) < 256 ^ (k - 3)"
    using vch_value_lt [of "take (k - 3) xs"] k by simp
  ultimately have "vch_value xs div 256 ^ (k - 3) = vch_value ?d"
    and r: "bn_int (SetCompact (GetCompact (bn_of_int n))) = int (vch_value ?d) * 256 ^ (k - 3)"
    by (simp_all add: vch_value_append)
  then have "n div 256 ^ (k - 3) = int (vch_value ?d)"
    using zdiv_int [of "vch_value xs" "256 ^ (k - 3)"] by (simp add: xs(4))
  with r show ?thesis
    by simp
qed

text \<open>
  C35. The money supply: as long as the shift is defined, every block has a reward that is not
  negative and never grows after the first block, the rewards of any number of blocks stay within
  \<open>SHC_MAX_MONEY\<close>, and all of them together reach it up to 0.08 coins.
\<close>
theorem shc_money_supply:
  assumes "N \<le> 64 * 749918"
  shows "(\<forall>h < N. \<exists>v \<ge> 0. shc_GetBlockValue h 0 = Some v)
    \<and> (\<forall>h < N. \<forall>g. 0 < g \<and> g \<le> h \<longrightarrow> the (shc_GetBlockValue h 0) \<le> the (shc_GetBlockValue g 0))
    \<and> (\<Sum>h < N. the (shc_GetBlockValue h 0)) \<le> SHC_MAX_MONEY
    \<and> (\<Sum>h < 64 * 749918. the (shc_GetBlockValue h 0)) = SHC_MAX_MONEY - 8000000"
proof -
  have lt: "h div 749918 < 64" if "h < N" for h
    using that assms by (simp add: div_less_iff_less_mult)
  have r0: "reward 0 = 33340000000"
    by (simp add: reward_def)
  have all: "(\<Sum>h < 64 * 749918. the (shc_GetBlockValue h 0)) = SHC_MAX_MONEY - 8000000"
    using sum_block_values [of "64 * 749918"] total_rewards reward_sum r0 by (simp add: SHC_MAX_MONEY_def)
  have "(\<Sum>h < N. the (shc_GetBlockValue h 0)) \<le> (\<Sum>h < 64 * 749918. the (shc_GetBlockValue h 0))"
    using assms by (intro sum_mono2) (auto simp: value_reward reward_nonneg not_le div_less_iff_less_mult)
  moreover have "\<exists>v \<ge> 0. shc_GetBlockValue h 0 = Some v" if "h < N" for h
    using lt [OF that] reward_nonneg [of "h div 749918"] by (simp add: value_reward)
  moreover have "the (shc_GetBlockValue h 0) \<le> the (shc_GetBlockValue g 0)" if "h < N" "0 < g" "g \<le> h" for h g
    using lt [of h] lt [of g] that reward_mono [of "g div 749918" "h div 749918"] by (simp add: value_reward div_le_mono)
  ultimately show ?thesis
    using all by auto
qed

theorem shc_money_supply_witness:
  "(\<Sum>h < 1000000. the (shc_GetBlockValue h 0)) \<le> SHC_MAX_MONEY \<and> the (shc_GetBlockValue 800000 0) \<le> the (shc_GetBlockValue 1 0)"
  using shc_money_supply [of 1000000] by simp

end
