(* ===== verification/Block_Index.thy ===== *)
theory Block_Index
  imports Block_Bits
begin

text \<open>
  The index of blocks (\<open>block.h\<close>, \<open>block.cpp\<close>, \<open>validation.cpp\<close>): the heap of \<open>CBlockIndex\<close> objects
  with their pointers to the previous block and to the skip block, the walks over it
  (\<open>GetAncestor\<close>, \<open>LastCommonAncestor\<close>, \<open>GetMedianTimePast\<close>) and \<open>CreateBlockIndex\<close>, which adds to
  it. The states it reaches are an inductive predicate; the invariant \<open>chain_ok\<close> holds in all of them.
\<close>

unbundle bit_operations_syntax

section \<open>Block indexes\<close>

type_synonym blkptr = nat
type_synonym blkhash = nat

text \<open>
  A block index with the fields of the header it was made from. Heights are not negative: the
  constructor sets 0 and \<open>CreateBlockIndex\<close> the height of the previous block plus one.
\<close>

record CBlockIndex =
  pprev :: "blkptr option"
  pskip :: "blkptr option"
  nHeight :: nat
  nStatus :: nat
  bnChainWork :: int
  nVersion :: nat
  hashMerkleRoot :: blkhash
  nTime :: nat
  nBits :: nat
  nNonce :: nat

type_synonym blkheap = "blkptr \<Rightarrow> CBlockIndex option"

definition InvertLowestOne :: "nat \<Rightarrow> nat" where
  "InvertLowestOne n = n AND (n - 1)"

definition GetSkipHeight :: "nat \<Rightarrow> nat" where
  "GetSkipHeight height =
     (if height < 2 then 0
      else if height AND 1 \<noteq> 0 then InvertLowestOne (InvertLowestOne (height - 1)) + 1
      else InvertLowestOne height)"

lemma and_le: "a AND b \<le> b" for a b :: nat
proof -
  have "int (a AND b) \<le> int b"
    by (simp add: of_nat_and_eq)
  then show ?thesis
    by simp
qed

lemma InvertLowestOne_less: "0 < n \<Longrightarrow> InvertLowestOne n < n"
  using and_le [of n "n - 1"] by (simp add: InvertLowestOne_def)

lemma InvertLowestOne_le: "InvertLowestOne n \<le> n"
  using and_le [of n "n - 1"] by (simp add: InvertLowestOne_def)

lemma GetSkipHeight_less: "0 < h \<Longrightarrow> GetSkipHeight h < h"
  using InvertLowestOne_less [of h] InvertLowestOne_less [of "h - 1"] InvertLowestOne_le [of "InvertLowestOne (h - 1)"]
  by (auto simp: GetSkipHeight_def)

text \<open>
  The walk to an ancestor; reading a block that is not there and the failed assertion are
  undefined.
\<close>

function ancestor_walk :: "blkheap \<Rightarrow> blkptr \<Rightarrow> nat \<Rightarrow> nat \<Rightarrow> blkptr res" where
  "ancestor_walk hp pindexWalk heightWalk height =
     (if heightWalk > height
      then (case hp pindexWalk of
              None \<Rightarrow> Segv
            | Some blk \<Rightarrow>
              (let heightSkip = GetSkipHeight heightWalk;
                   heightSkipPrev = GetSkipHeight (heightWalk - 1)
               in if pskip blk \<noteq> None \<and>
                     (heightSkip = height \<or>
                      (heightSkip > height \<and> \<not> (heightSkipPrev < heightSkip - 2 \<and> heightSkipPrev \<ge> height)))
                  then ancestor_walk hp (the (pskip blk)) heightSkip height
                  else (case pprev blk of
                          None \<Rightarrow> Segv
                        | Some p \<Rightarrow> ancestor_walk hp p (heightWalk - 1) height)))
      else Ret pindexWalk)"
  by pat_completeness auto
termination
  by (relation "measure (\<lambda>(hp, p, hw, h). hw)") (auto simp: GetSkipHeight_less)

declare ancestor_walk.simps [simp del]

definition GetAncestor :: "blkheap \<Rightarrow> blkptr \<Rightarrow> int \<Rightarrow> blkptr option res" where
  "GetAncestor hp this height =
     (case hp this of
        None \<Rightarrow> Segv
      | Some blk \<Rightarrow>
        if height > int (nHeight blk) \<or> height < 0 then Ret None
        else andThen (ancestor_walk hp this (nHeight blk) (nat height)) (\<lambda>p. Ret (Some p)))"

definition BuildSkip :: "blkptr \<Rightarrow> blkheap \<Rightarrow> blkheap res" where
  "BuildSkip this hp =
     (case hp this of
        None \<Rightarrow> Segv
      | Some blk \<Rightarrow>
        (case pprev blk of
           None \<Rightarrow> Ret hp
         | Some p \<Rightarrow>
           andThen (GetAncestor hp p (int (GetSkipHeight (nHeight blk))))
             (\<lambda>s. Ret (hp(this \<mapsto> blk\<lparr>pskip := s\<rparr>)))))"

section \<open>Times\<close>

fun past_times :: "blkheap \<Rightarrow> nat \<Rightarrow> blkptr option \<Rightarrow> nat list res" where
  "past_times hp 0 pindex = Ret []"
| "past_times hp (Suc i) None = Ret []"
| "past_times hp (Suc i) (Some p) =
     (case hp p of
        None \<Rightarrow> Segv
      | Some blk \<Rightarrow> andThen (past_times hp i (pprev blk)) (\<lambda>ts. Ret (nTime blk # ts)))"

definition GetMedianTimePast :: "blkheap \<Rightarrow> blkptr \<Rightarrow> nat res" where
  "GetMedianTimePast hp this =
     andThen (past_times hp 11 (Some this)) (\<lambda>pmedian. Ret (sort pmedian ! (length pmedian div 2)))"

section \<open>Common ancestors\<close>

text \<open>
  Both blocks go back together; the height of a block is fuel enough, as the pointers to previous
  blocks end at height 0.
\<close>

fun common_walk :: "nat \<Rightarrow> blkheap \<Rightarrow> blkptr option \<Rightarrow> blkptr option \<Rightarrow> blkptr option res" where
  "common_walk fuel hp pa pb =
     (if pa = pb then Ret pa
      else case (pa, pb) of
        (Some a, Some b) \<Rightarrow>
          (case fuel of
             0 \<Rightarrow> Hang
           | Suc n \<Rightarrow>
             (case (hp a, hp b) of
                (Some ba, Some bb) \<Rightarrow> common_walk n hp (pprev ba) (pprev bb)
              | _ \<Rightarrow> Segv))
      | _ \<Rightarrow> Ret pa)"

declare common_walk.simps [simp del]

definition LastCommonAncestor :: "blkheap \<Rightarrow> blkptr \<Rightarrow> blkptr \<Rightarrow> blkptr option res" where
  "LastCommonAncestor hp pa pb =
     (case (hp pa, hp pb) of
        (Some ba, Some bb) \<Rightarrow>
          andThen (if nHeight ba > nHeight bb then GetAncestor hp pa (int (nHeight bb)) else Ret (Some pa))
            (\<lambda>pa'. andThen (if nHeight bb > nHeight ba then GetAncestor hp pb (int (nHeight ba)) else Ret (Some pb))
              (\<lambda>pb'. common_walk (Suc (min (nHeight ba) (nHeight bb))) hp pa' pb'))
      | _ \<Rightarrow> Segv)"

section \<open>Creating an index\<close>

record CBlockHeader =
  hd_version :: nat
  hd_hashPrevBlock :: blkhash
  hd_hashMerkleRoot :: blkhash
  hd_time :: nat
  hd_bits :: nat
  hd_nonce :: nat

record blk_chain =
  ch_heap :: blkheap
  ch_table :: "blkhash \<Rightarrow> blkptr option"
  ch_best :: "blkptr option"

text \<open>The constructor from a header does not set \<open>pskip\<close>, which holds what the memory held.\<close>

definition CBlockIndex_of :: "CBlockHeader \<Rightarrow> blkptr option \<Rightarrow> CBlockIndex" where
  "CBlockIndex_of block junk =
     \<lparr>pprev = None, pskip = junk, nHeight = 0, nStatus = 0, bnChainWork = 0,
      nVersion = hd_version block, hashMerkleRoot = hd_hashMerkleRoot block, nTime = hd_time block,
      nBits = hd_bits block, nNonce = hd_nonce block\<rparr>"

abbreviation (input) BLOCK_VALID_TREE :: nat where "BLOCK_VALID_TREE \<equiv> 2"
abbreviation (input) BLOCK_VALID_MASK :: nat where "BLOCK_VALID_MASK \<equiv> 7"
abbreviation (input) BLOCK_FAILED_MASK :: nat where "BLOCK_FAILED_MASK \<equiv> 96"

definition RaiseValidity :: "nat \<Rightarrow> CBlockIndex \<Rightarrow> bool \<times> CBlockIndex" where
  "RaiseValidity nUpTo blk =
     (if nStatus blk AND BLOCK_FAILED_MASK \<noteq> 0 then (False, blk)
      else if nStatus blk AND BLOCK_VALID_MASK < nUpTo
      then (True, blk\<lparr>nStatus := (nStatus blk - (nStatus blk AND BLOCK_VALID_MASK)) OR nUpTo\<rparr>)
      else (False, blk))"

definition blk_IsValid :: "nat \<Rightarrow> CBlockIndex \<Rightarrow> bool" where
  "blk_IsValid nUpTo blk \<longleftrightarrow>
     nStatus blk AND BLOCK_FAILED_MASK = 0 \<and> nStatus blk AND BLOCK_VALID_MASK \<ge> nUpTo"

text \<open>
  \<open>hash\<close> is the hash of the header, \<open>new\<close> the pointer that the allocation returns and \<open>junk\<close> what
  the memory holds. The result is the state afterwards and the index.
\<close>

definition link_prev :: "blkptr \<Rightarrow> blkptr option \<Rightarrow> blkheap \<Rightarrow> blkheap res" where
  "link_prev new miPrev hp =
     (case miPrev of
        None \<Rightarrow> Ret hp
      | Some p \<Rightarrow>
        (case (hp p, hp new) of
           (Some prv, Some blk) \<Rightarrow> BuildSkip new (hp(new \<mapsto> blk\<lparr>pprev := Some p, nHeight := nHeight prv + 1\<rparr>))
         | _ \<Rightarrow> Segv))"

definition uses_algo :: "nat \<Rightarrow> bool" where
  "uses_algo ifaceIndex \<longleftrightarrow> ifaceIndex \<in> {0, 5, 1, 6}"

definition CreateBlockIndex :: "nat \<Rightarrow> blk_chain \<Rightarrow> CBlockHeader \<Rightarrow> blkhash \<Rightarrow> blkptr \<Rightarrow> blkptr option \<Rightarrow> (blk_chain \<times> blkptr) res" where
  "CreateBlockIndex ifaceIndex st block hash new junk =
     (case ch_table st hash of
        Some p \<Rightarrow> Ret (st, p)
      | None \<Rightarrow>
        (let tab = (ch_table st)(hash \<mapsto> new) in
         andThen (link_prev new (tab (hd_hashPrevBlock block)) ((ch_heap st)(new \<mapsto> CBlockIndex_of block junk)))
           (\<lambda>hp. case hp new of
              None \<Rightarrow> Segv
            | Some blk \<Rightarrow>
              (let work = (case pprev blk of None \<Rightarrow> 0 | Some p \<Rightarrow> bnChainWork (the (hp p)))
                          + GetBlockWork (uses_algo ifaceIndex) (nBits blk) (nVersion blk);
                   blk = snd (RaiseValidity BLOCK_VALID_TREE (blk\<lparr>bnChainWork := work\<rparr>));
                   best = (case ch_best st of
                             None \<Rightarrow> Some new
                           | Some p \<Rightarrow> if bnChainWork (the (hp p)) < work then Some new else Some p)
               in Ret (\<lparr>ch_heap = hp(new \<mapsto> blk), ch_table = tab, ch_best = best\<rparr>, new)))))"

section \<open>The tree of blocks\<close>

fun prev_n :: "blkheap \<Rightarrow> nat \<Rightarrow> blkptr \<Rightarrow> blkptr option" where
  "prev_n hp 0 p = Some p"
| "prev_n hp (Suc k) p = (case hp p of None \<Rightarrow> None | Some b \<Rightarrow> (case pprev b of None \<Rightarrow> None | Some q \<Rightarrow> prev_n hp k q))"

definition node_ok :: "blkheap \<Rightarrow> blkptr \<Rightarrow> CBlockIndex \<Rightarrow> bool" where
  "node_ok hp p b \<longleftrightarrow>
     (case pprev b of
        None \<Rightarrow> nHeight b = 0
      | Some q \<Rightarrow> (\<exists>c. hp q = Some c \<and> nHeight b = Suc (nHeight c))
          \<and> (\<forall>s. pskip b = Some s \<longrightarrow> prev_n hp (nHeight b - GetSkipHeight (nHeight b)) p = Some s))"

definition tree_ok :: "blkheap \<Rightarrow> bool" where
  "tree_ok hp \<longleftrightarrow> (\<forall>p b. hp p = Some b \<longrightarrow> node_ok hp p b)"

lemma tree_okD: "tree_ok hp \<Longrightarrow> hp p = Some b \<Longrightarrow> node_ok hp p b"
  by (simp add: tree_ok_def)

lemma tree_ok_root: "tree_ok hp \<Longrightarrow> hp p = Some b \<Longrightarrow> pprev b = None \<longleftrightarrow> nHeight b = 0"
  using tree_okD [of hp p b] by (cases "pprev b") (auto simp: node_ok_def)

lemma tree_ok_prev: "tree_ok hp \<Longrightarrow> hp p = Some b \<Longrightarrow> pprev b = Some q \<Longrightarrow> \<exists>c. hp q = Some c \<and> nHeight b = Suc (nHeight c)"
  using tree_okD [of hp p b] by (simp add: node_ok_def)

lemma tree_ok_skip:
  "tree_ok hp \<Longrightarrow> hp p = Some b \<Longrightarrow> 0 < nHeight b \<Longrightarrow> pskip b = Some s \<Longrightarrow>
    prev_n hp (nHeight b - GetSkipHeight (nHeight b)) p = Some s"
  using tree_okD [of hp p b] by (cases "pprev b") (auto simp: node_ok_def)

lemma prev_n_height:
  assumes "tree_ok hp"
  shows "hp p = Some b \<Longrightarrow> k \<le> nHeight b \<Longrightarrow> \<exists>q c. prev_n hp k p = Some q \<and> hp q = Some c \<and> nHeight c = nHeight b - k"
proof (induction k arbitrary: p b)
  case (Suc k)
  then obtain q where q: "pprev b = Some q"
    using tree_ok_root [OF assms Suc.prems(1)] by fastforce
  from tree_ok_prev [OF assms Suc.prems(1) q] obtain c where c: "hp q = Some c" "nHeight b = Suc (nHeight c)"
    by blast
  with Suc.IH [OF c(1)] Suc.prems q show ?case
    by simp
qed simp

lemma prev_n_end:
  assumes "tree_ok hp"
  shows "hp p = Some b \<Longrightarrow> nHeight b < k \<Longrightarrow> prev_n hp k p = None"
proof (induction k arbitrary: p b)
  case (Suc k)
  show ?case
  proof (cases "pprev b")
    case (Some q)
    from tree_ok_prev [OF assms Suc.prems(1) Some] Suc.IH Suc.prems Some show ?thesis
      by fastforce
  qed (use Suc in simp)
qed simp

lemma prev_n_add: "prev_n hp k p = Some q \<Longrightarrow> prev_n hp (k + j) p = prev_n hp j q"
  by (induction k arbitrary: p) (auto split: option.splits)

lemma ancestor_walk_prev:
  assumes tree: "tree_ok hp" and le: "hp \<subseteq>\<^sub>m hp'"
  shows "hp p = Some b \<Longrightarrow> nHeight b = hw \<Longrightarrow> h \<le> hw \<Longrightarrow>
    \<exists>q. ancestor_walk hp' p hw h = Ret q \<and> prev_n hp (hw - h) p = Some q"
  using le
proof (induction hp' p hw h arbitrary: b rule: ancestor_walk.induct)
  case (1 hp' p hw h)
  note b = \<open>hp p = Some b\<close> and hw = \<open>nHeight b = hw\<close> and le = \<open>hp \<subseteq>\<^sub>m hp'\<close>
  have b': "hp' p = Some b"
    using le b by (auto simp: map_le_def dom_def)
  let ?skip = "GetSkipHeight hw" and ?sprev = "GetSkipHeight (hw - 1)"
  let ?jump = "pskip b \<noteq> None \<and> (?skip = h \<or> (?skip > h \<and> \<not> (?sprev < ?skip - 2 \<and> ?sprev \<ge> h)))"
  consider "hw = h" | "h < hw" ?jump | "h < hw" "\<not> ?jump"
    using 1 by linarith
  then show ?case
  proof cases
    case 1
    then show ?thesis
      by (simp add: ancestor_walk.simps)
  next
    case 2
    then obtain s where s: "pskip b = Some s" and hs: "h \<le> ?skip"
      by auto
    have lt: "?skip < hw"
      using 2 GetSkipHeight_less by simp
    have ps: "prev_n hp (hw - ?skip) p = Some s"
      using tree_ok_skip [OF tree b _ s] 2 hw by simp
    then obtain c where c: "hp s = Some c" "nHeight c = ?skip"
      using prev_n_height [OF tree b, of "hw - ?skip"] hw lt by auto
    obtain q where q: "ancestor_walk hp' s ?skip h = Ret q" "prev_n hp (?skip - h) s = Some q"
      using "1.IH"(1) [OF \<open>h < hw\<close> b' refl refl \<open>?jump\<close>, of c] le c s hs by auto
    have "hw - h = (hw - ?skip) + (?skip - h)"
      using lt hs by simp
    then have "prev_n hp (hw - h) p = Some q"
      using prev_n_add [OF ps, of "?skip - h"] q(2) by simp
    with 2 q(1) show ?thesis
      by (simp add: ancestor_walk.simps [of hp' p] b' s Let_def)
  next
    case 3
    then obtain r where r: "pprev b = Some r"
      using tree_ok_root [OF tree b] hw by fastforce
    obtain c where c: "hp r = Some c" "nHeight c = hw - 1"
      using tree_ok_prev [OF tree b r] hw by auto
    have "h \<le> hw - 1"
      using 3(1) by simp
    then obtain q where q: "ancestor_walk hp' r (hw - 1) h = Ret q" "prev_n hp (hw - 1 - h) r = Some q"
      using "1.IH"(2) [OF \<open>h < hw\<close> b' refl refl \<open>\<not> ?jump\<close> r, of c] le c 3(1) by auto
    moreover have "hw - h = Suc (hw - 1 - h)"
      using 3(1) by simp
    ultimately have "prev_n hp (hw - h) p = Some q"
      by (simp add: b r)
    moreover have "ancestor_walk hp' p hw h = ancestor_walk hp' r (hw - 1) h"
      using 3 by (subst ancestor_walk.simps) (auto simp: b' r Let_def)
    ultimately show ?thesis
      using q(1) by simp
  qed
qed

lemma GetAncestor_sub:
  assumes "tree_ok hp" "hp \<subseteq>\<^sub>m hp'" "hp p = Some b"
  shows "GetAncestor hp' p h = Ret (if 0 \<le> h \<and> h \<le> int (nHeight b) then prev_n hp (nHeight b - nat h) p else None)"
proof -
  have "hp' p = Some b"
    using assms(2,3) by (auto simp: map_le_def dom_def)
  moreover have "nat h \<le> nHeight b" if "h \<le> int (nHeight b)"
    using that by simp
  ultimately show ?thesis
    using ancestor_walk_prev [OF assms refl, of "nat h"] by (auto simp: GetAncestor_def)
qed

lemmas GetAncestor_prev = GetAncestor_sub [OF _ map_le_refl]

section \<open>Adding a block keeps the tree\<close>

lemma prev_n_fresh:
  assumes "tree_ok hp" "hp new = None"
  shows "hp p \<noteq> None \<Longrightarrow> prev_n (hp(new \<mapsto> b)) k p = prev_n hp k p"
proof (induction k arbitrary: p)
  case (Suc k)
  then obtain c where c: "hp p = Some c"
    by blast
  with assms(2) have n: "p \<noteq> new"
    by auto
  show ?case
  proof (cases "pprev c")
    case (Some q)
    with tree_ok_prev [OF assms(1) c Some] Suc.IH [of q] c n show ?thesis
      by auto
  qed (use c n in simp)
qed simp

lemma node_ok_fresh:
  assumes "tree_ok hp" "hp new = None" "hp p = Some c"
  shows "node_ok (hp(new \<mapsto> b)) p c"
proof (cases "pprev c")
  case None
  then show ?thesis
    using tree_okD [OF assms(1,3)] by (simp add: node_ok_def)
next
  case (Some q)
  obtain d where "hp q = Some d" "nHeight c = Suc (nHeight d)"
    using tree_ok_prev [OF assms(1,3) Some] by blast
  then show ?thesis
    using tree_okD [OF assms(1,3)] prev_n_fresh [OF assms(1,2), of p b] assms(2,3) Some
    by (auto simp: node_ok_def)
qed

lemma tree_ok_add:
  assumes "tree_ok hp" "hp new = None" "node_ok (hp(new \<mapsto> b)) new b"
  shows "tree_ok (hp(new \<mapsto> b))"
  unfolding tree_ok_def using assms node_ok_fresh [OF assms(1,2)] by auto

lemma node_ok_fields:
  "pprev b = pprev c \<Longrightarrow> pskip b = pskip c \<Longrightarrow> nHeight b = nHeight c \<Longrightarrow> node_ok hp p b = node_ok hp p c"
  by (simp add: node_ok_def cong: option.case_cong)

lemma prev_n_new:
  assumes "tree_ok hp" "hp new = None" "pprev b = Some q" "hp q = Some c"
  shows "prev_n (hp(new \<mapsto> b)) (Suc k) new = prev_n hp k q"
  using assms prev_n_fresh [OF assms(1,2), of q b k] by simp

text \<open>Linking a new block to its previous one: the skip pointer leads to the ancestor at the skip height.\<close>

lemma link_prev_ok:
  assumes "tree_ok hp" "hp new = None" "hp q = Some c"
  obtains s where "link_prev new (Some q) (hp(new \<mapsto> b)) = Ret (hp(new \<mapsto> b\<lparr>pprev := Some q, nHeight := Suc (nHeight c), pskip := s\<rparr>))"
    "node_ok (hp(new \<mapsto> b\<lparr>pprev := Some q, nHeight := Suc (nHeight c), pskip := s\<rparr>)) new
      (b\<lparr>pprev := Some q, nHeight := Suc (nHeight c), pskip := s\<rparr>)"
proof -
  let ?b = "b\<lparr>pprev := Some q, nHeight := Suc (nHeight c)\<rparr>" and ?k = "GetSkipHeight (Suc (nHeight c))"
  define s where "s = prev_n hp (nHeight c - ?k) q"
  have k: "?k \<le> nHeight c"
    using GetSkipHeight_less [of "Suc (nHeight c)"] by simp
  have "hp \<subseteq>\<^sub>m hp(new \<mapsto> ?b)" "q \<noteq> new"
    using assms(2,3) by (auto simp: map_le_def)
  then have "link_prev new (Some q) (hp(new \<mapsto> b)) = Ret (hp(new \<mapsto> ?b\<lparr>pskip := s\<rparr>))"
    using GetAncestor_sub [OF assms(1) _ assms(3), of "hp(new \<mapsto> ?b)" "int ?k"] k assms(3)
    by (simp add: link_prev_def BuildSkip_def s_def)
  moreover have "prev_n (hp(new \<mapsto> ?b\<lparr>pskip := s\<rparr>)) (Suc (nHeight c - ?k)) new = s"
    using prev_n_new [OF assms(1,2) _ assms(3)] by (simp add: s_def)
  then have "node_ok (hp(new \<mapsto> ?b\<lparr>pskip := s\<rparr>)) new (?b\<lparr>pskip := s\<rparr>)"
    using assms(3) \<open>q \<noteq> new\<close> k by (auto simp: node_ok_def Suc_diff_le simp del: prev_n.simps)
  ultimately show ?thesis
    by (rule that)
qed

text \<open>The state of the block table: the tree, and a best header with the most work.\<close>

definition chain_ok :: "blk_chain \<Rightarrow> bool" where
  "chain_ok st \<longleftrightarrow> tree_ok (ch_heap st)
     \<and> (\<forall>h p. ch_table st h = Some p \<longrightarrow> ch_heap st p \<noteq> None)
     \<and> (case ch_best st of
          None \<Rightarrow> ch_table st = Map.empty
        | Some q \<Rightarrow> ch_heap st q \<noteq> None
            \<and> (\<forall>h p. ch_table st h = Some p \<longrightarrow> bnChainWork (the (ch_heap st p)) \<le> bnChainWork (the (ch_heap st q))))"

lemma RaiseValidity_fields [simp]:
  "pprev (snd (RaiseValidity n b)) = pprev b" "pskip (snd (RaiseValidity n b)) = pskip b"
  "nHeight (snd (RaiseValidity n b)) = nHeight b" "bnChainWork (snd (RaiseValidity n b)) = bnChainWork b"
  "nTime (snd (RaiseValidity n b)) = nTime b"
  by (simp_all add: RaiseValidity_def)

lemma link_prev_None: "link_prev new None hp = Ret hp"
  by (simp add: link_prev_def)

text \<open>Whether or not the previous block is known, the new block is linked into the tree.\<close>

lemma linked:
  assumes "tree_ok hp" "hp new = None" "prv = None \<or> (\<exists>q c. prv = Some q \<and> hp q = Some c)"
    and b: "pprev b = None" "nHeight b = 0"
  obtains b' where "link_prev new prv (hp(new \<mapsto> b)) = Ret (hp(new \<mapsto> b'))" "node_ok (hp(new \<mapsto> b')) new b'"
    "pprev b' = prv" "nBits b' = nBits b" "nVersion b' = nVersion b" "nTime b' = nTime b"
    "nHeight b' = (case prv of None \<Rightarrow> 0 | Some q \<Rightarrow> Suc (nHeight (the (hp q))))"
proof (cases prv)
  case None
  with that [of b] b show ?thesis
    by (simp add: link_prev_None node_ok_def)
next
  case (Some q)
  then obtain c where c: "hp q = Some c"
    using assms(3) by auto
  obtain s where "link_prev new (Some q) (hp(new \<mapsto> b)) = Ret (hp(new \<mapsto> b\<lparr>pprev := Some q, nHeight := Suc (nHeight c), pskip := s\<rparr>))"
    "node_ok (hp(new \<mapsto> b\<lparr>pprev := Some q, nHeight := Suc (nHeight c), pskip := s\<rparr>)) new
      (b\<lparr>pprev := Some q, nHeight := Suc (nHeight c), pskip := s\<rparr>)"
    by (rule link_prev_ok [OF assms(1,2) c, of b]) blast
  with that [of "b\<lparr>pprev := Some q, nHeight := Suc (nHeight c), pskip := s\<rparr>"] Some c show ?thesis
    by simp
qed

lemma chain_okD:
  assumes "chain_ok st"
  shows "tree_ok (ch_heap st)" "ch_table st h = Some p \<Longrightarrow> \<exists>c. ch_heap st p = Some c"
    "ch_best st = None \<Longrightarrow> ch_table st = Map.empty"
    "ch_best st = Some q \<Longrightarrow> (\<exists>c. ch_heap st q = Some c)
      \<and> (\<forall>h p. ch_table st h = Some p \<longrightarrow> bnChainWork (the (ch_heap st p)) \<le> bnChainWork (the (ch_heap st q)))"
  using assms by (auto simp: chain_ok_def)

lemma chain_ok_add:
  assumes "chain_ok st" "ch_heap st new = None" "node_ok ((ch_heap st)(new \<mapsto> c)) new c"
    and "best = (case ch_best st of None \<Rightarrow> Some new
      | Some p \<Rightarrow> if bnChainWork (the (ch_heap st p)) < bnChainWork c then Some new else Some p)"
  shows "chain_ok \<lparr>ch_heap = (ch_heap st)(new \<mapsto> c), ch_table = (ch_table st)(hash \<mapsto> new), ch_best = best\<rparr>"
  using tree_ok_add [OF chain_okD(1) [OF assms(1)] assms(2,3)] chain_okD(2-4) [OF assms(1)] assms(2,4)
  by (cases "ch_best st") (fastforce simp: chain_ok_def)+

text \<open>The other fields of a new block do not matter for its place in the tree.\<close>

lemma node_ok_same_links:
  assumes "tree_ok hp" "hp new = None" "node_ok (hp(new \<mapsto> b)) new b" "\<forall>q. pprev b = Some q \<longrightarrow> hp q \<noteq> None"
    and "pprev c = pprev b" "pskip c = pskip b" "nHeight c = nHeight b"
  shows "node_ok (hp(new \<mapsto> c)) new c"
proof -
  have "prev_n (hp(new \<mapsto> c)) k new = prev_n (hp(new \<mapsto> b)) k new" for k
    using assms(4,5) prev_n_fresh [OF assms(1,2)] by (cases k) (auto split: option.splits)
  then show ?thesis
    using assms by (auto simp: node_ok_def split: option.splits)
qed

lemma create_ok:
  assumes "chain_ok st" "ch_table st hash = None" "ch_heap st new = None" "hd_hashPrevBlock block \<noteq> hash"
  shows "\<exists>st' b. CreateBlockIndex ifaceIndex st block hash new junk = Ret (st', new) \<and> chain_ok st'
    \<and> ch_heap st' = (ch_heap st)(new \<mapsto> b) \<and> nTime b = hd_time block \<and> ch_table st' = (ch_table st)(hash \<mapsto> new)
    \<and> pprev b = ch_table st (hd_hashPrevBlock block)
    \<and> nHeight b = (case pprev b of None \<Rightarrow> 0 | Some q \<Rightarrow> Suc (nHeight (the (ch_heap st q))))
    \<and> bnChainWork b = (case pprev b of None \<Rightarrow> 0 | Some q \<Rightarrow> bnChainWork (the (ch_heap st q)))
        + GetBlockWork (uses_algo ifaceIndex) (hd_bits block) (hd_version block)"
proof -
  let ?hp = "ch_heap st" and ?prv = "ch_table st (hd_hashPrevBlock block)"
  note ok = chain_okD(1) [OF assms(1)]
  have prv: "?prv = None \<or> (\<exists>q c. ?prv = Some q \<and> ?hp q = Some c)"
    using chain_okD(2) [OF assms(1)] by (cases ?prv) auto
  obtain b' where b': "link_prev new ?prv (?hp(new \<mapsto> CBlockIndex_of block junk)) = Ret (?hp(new \<mapsto> b'))"
    "node_ok (?hp(new \<mapsto> b')) new b'" "pprev b' = ?prv" "nBits b' = hd_bits block" "nVersion b' = hd_version block" "nTime b' = hd_time block"
    "nHeight b' = (case ?prv of None \<Rightarrow> 0 | Some q \<Rightarrow> Suc (nHeight (the (?hp q))))"
    by (rule linked [OF ok assms(3) prv, of "CBlockIndex_of block junk"]) (simp_all add: CBlockIndex_of_def)
  define work where "work = (case ?prv of None \<Rightarrow> 0 | Some p \<Rightarrow> bnChainWork (the (?hp p))) + GetBlockWork (uses_algo ifaceIndex) (hd_bits block) (hd_version block)"
  define c where "c = snd (RaiseValidity 2 (b'\<lparr>bnChainWork := work\<rparr>))"
  define best where "best = (case ch_best st of None \<Rightarrow> Some new
    | Some p \<Rightarrow> if bnChainWork (the (?hp p)) < bnChainWork c then Some new else Some p)"
  let ?st = "\<lparr>ch_heap = ?hp(new \<mapsto> c), ch_table = (ch_table st)(hash \<mapsto> new), ch_best = best\<rparr>"
  have c: "pprev c = ?prv" "pskip c = pskip b'" "nHeight c = nHeight b'" "bnChainWork c = work" "nTime c = hd_time block"
    by (simp_all add: c_def b')
  have "q \<noteq> new" if "ch_best st = Some q \<or> ?prv = Some q" for q
    using that assms(3) prv chain_okD(4) [OF assms(1)] by auto
  then have "CreateBlockIndex ifaceIndex st block hash new junk = Ret (?st, new)"
    using assms(2,4) b'(1,3-5) by (auto simp: CreateBlockIndex_def Let_def work_def c_def best_def split: option.split)
  moreover have "node_ok (?hp(new \<mapsto> c)) new c"
    using prv b'(3) c by (intro node_ok_same_links [OF ok assms(3) b'(2)]) auto
  from chain_ok_add [OF assms(1,3) this best_def] have "chain_ok ?st" .
  ultimately show ?thesis
    using b'(7) c by (intro exI [of _ ?st] exI [of _ c]) (simp add: work_def)
qed

section \<open>The last common ancestor\<close>

lemma common_walk_ok:
  assumes "tree_ok hp"
  shows "hp a = Some ba \<Longrightarrow> hp b = Some bb \<Longrightarrow> nHeight ba = n \<Longrightarrow> nHeight bb = n \<Longrightarrow> n < fuel \<Longrightarrow>
    (\<exists>k x. common_walk fuel hp (Some a) (Some b) = Ret (Some x) \<and> prev_n hp k a = Some x \<and> prev_n hp k b = Some x
        \<and> (\<forall>j < k. prev_n hp j a \<noteq> prev_n hp j b))
    \<or> (common_walk fuel hp (Some a) (Some b) = Ret None \<and> (\<forall>j \<le> n. prev_n hp j a \<noteq> prev_n hp j b))"
proof (induction n arbitrary: a b ba bb fuel)
  case 0
  then have "pprev ba = None" "pprev bb = None"
    using tree_ok_root [OF assms] by auto
  then show ?case
    using 0 by (cases fuel; cases "a = b") (auto simp: common_walk.simps intro: exI [of _ 0])
next
  case (Suc n)
  show ?case
  proof (cases "a = b")
    case True
    then show ?thesis
      by (intro disjI1 exI [of _ 0] exI [of _ a]) (simp add: common_walk.simps)
  next
    case False
    obtain a' b' where ab: "pprev ba = Some a'" "pprev bb = Some b'"
      using Suc.prems tree_ok_root [OF assms] by fastforce
    obtain ca cb where c: "hp a' = Some ca" "hp b' = Some cb" "nHeight ca = n" "nHeight cb = n"
      using tree_ok_prev [OF assms Suc.prems(1) ab(1)] tree_ok_prev [OF assms Suc.prems(2) ab(2)] Suc.prems(3,4) by auto
    obtain m where m: "fuel = Suc m" "n < m"
      using Suc.prems by (cases fuel) auto
    have step: "common_walk fuel hp (Some a) (Some b) = common_walk m hp (Some a') (Some b')"
      using False Suc.prems ab by (simp add: common_walk.simps [of "Suc m"] m)
    have p: "prev_n hp (Suc j) a = prev_n hp j a'" "prev_n hp (Suc j) b = prev_n hp j b'" for j
      using Suc.prems ab by simp_all
    have all: "(\<forall>j < Suc k. P j) \<longleftrightarrow> P 0 \<and> (\<forall>j < k. P (Suc j))" "(\<forall>j \<le> Suc k. P j) \<longleftrightarrow> P 0 \<and> (\<forall>j \<le> k. P (Suc j))" for P k
      by (simp_all only: All_less_Suc2 less_Suc_eq_le [symmetric])
    from Suc.IH [OF c m(2)] show ?thesis
    proof (elim disjE exE conjE)
      fix k x
      assume "common_walk m hp (Some a') (Some b') = Ret (Some x)" "prev_n hp k a' = Some x" "prev_n hp k b' = Some x"
        "\<forall>j < k. prev_n hp j a' \<noteq> prev_n hp j b'"
      then show ?thesis
        using False by (intro disjI1 exI [of _ "Suc k"] exI [of _ x]) (simp add: p all step del: prev_n.simps(2))
    qed (use False in \<open>simp add: all p step del: prev_n.simps(2)\<close>)
  qed
qed

definition ancestor :: "blkheap \<Rightarrow> blkptr \<Rightarrow> blkptr \<Rightarrow> bool" where
  "ancestor hp x p \<longleftrightarrow> (\<exists>k. prev_n hp k p = Some x)"

lemma ancestor_height:
  assumes "tree_ok hp" "hp p = Some b" "prev_n hp k p = Some x"
  shows "\<exists>c. hp x = Some c \<and> nHeight c + k = nHeight b"
proof (cases "k \<le> nHeight b")
  case True
  then show ?thesis
    using prev_n_height [OF assms(1,2), of k] assms(3) by auto
next
  case False
  then show ?thesis
    using prev_n_end [OF assms(1,2), of k] assms(3) by simp
qed

lemma ancestor_below:
  assumes "tree_ok hp" "hp p = Some b" "prev_n hp k p = Some q" "ancestor hp x p" "hp x = Some c" "hp q = Some d" "nHeight c \<le> nHeight d"
  shows "ancestor hp x q"
proof -
  obtain j where j: "prev_n hp j p = Some x"
    using assms(4) by (auto simp: ancestor_def)
  have "nHeight c + j = nHeight b" "nHeight d + k = nHeight b"
    using ancestor_height [OF assms(1,2) j] ancestor_height [OF assms(1,2,3)] assms(5,6) by auto
  then have "j = k + (j - k)"
    using assms(7) by simp
  then show ?thesis
    using prev_n_add [OF assms(3), of "j - k"] j by (auto simp: ancestor_def)
qed

lemma ancestor_trans: "ancestor hp x q \<Longrightarrow> prev_n hp k p = Some q \<Longrightarrow> ancestor hp x p"
  unfolding ancestor_def using prev_n_add by metis

text \<open>For blocks of the same height.\<close>

lemma common_walk_ancestor:
  assumes tree: "tree_ok hp" and ab: "hp a = Some ba" "hp b = Some bb" "nHeight ba = n" "nHeight bb = n" "n < fuel"
  shows "(\<exists>x. common_walk fuel hp (Some a) (Some b) = Ret (Some x) \<and> ancestor hp x a \<and> ancestor hp x b
      \<and> (\<forall>y. ancestor hp y a \<and> ancestor hp y b \<longrightarrow> ancestor hp y x))
    \<or> (common_walk fuel hp (Some a) (Some b) = Ret None \<and> (\<forall>y. \<not> (ancestor hp y a \<and> ancestor hp y b)))"
proof -
  have same: "\<exists>j \<le> n. prev_n hp j a = Some y \<and> prev_n hp j b = Some y" if "ancestor hp y a" "ancestor hp y b" for y
    using that ancestor_height [OF tree ab(1)] ancestor_height [OF tree ab(2)] ab(3,4)
    unfolding ancestor_def by (metis add_left_cancel le_add2 option.inject)
  from common_walk_ok [OF tree ab] show ?thesis
  proof (elim disjE exE conjE)
    fix k x
    assume x: "common_walk fuel hp (Some a) (Some b) = Ret (Some x)" "prev_n hp k a = Some x" "prev_n hp k b = Some x"
      "\<forall>j < k. prev_n hp j a \<noteq> prev_n hp j b"
    have "ancestor hp y x" if y: "ancestor hp y a" "ancestor hp y b" for y
    proof -
      obtain j where j: "prev_n hp j a = Some y" "prev_n hp j b = Some y"
        using same [OF y] by blast
      then have "j = k + (j - k)"
        using x(4) by (metis le_add_diff_inverse not_le)
      then show ?thesis
        using prev_n_add [OF x(2), of "j - k"] j by (auto simp: ancestor_def)
    qed
    then show ?thesis
      using x by (auto simp: ancestor_def)
  qed (use same in fastforce)
qed

lemma LastCommonAncestor_ok:
  assumes tree: "tree_ok hp" and ab: "hp pa = Some ba" "hp pb = Some bb"
  shows "(\<exists>x. LastCommonAncestor hp pa pb = Ret (Some x) \<and> ancestor hp x pa \<and> ancestor hp x pb
      \<and> (\<forall>y. ancestor hp y pa \<and> ancestor hp y pb \<longrightarrow> ancestor hp y x))
    \<or> (LastCommonAncestor hp pa pb = Ret None \<and> (\<forall>y. \<not> (ancestor hp y pa \<and> ancestor hp y pb)))"
proof -
  let ?n = "min (nHeight ba) (nHeight bb)"
  obtain a ca where a: "prev_n hp (nHeight ba - ?n) pa = Some a" "hp a = Some ca" "nHeight ca = ?n"
    using prev_n_height [OF tree ab(1), of "nHeight ba - ?n"] by auto
  obtain b cb where b: "prev_n hp (nHeight bb - ?n) pb = Some b" "hp b = Some cb" "nHeight cb = ?n"
    using prev_n_height [OF tree ab(2), of "nHeight bb - ?n"] by auto
  have eq: "LastCommonAncestor hp pa pb = common_walk (Suc ?n) hp (Some a) (Some b)"
    using a b ab GetAncestor_prev [OF tree ab(1), of "int (nHeight bb)"] GetAncestor_prev [OF tree ab(2), of "int (nHeight ba)"]
    by (auto simp: LastCommonAncestor_def min_def split: if_splits)
  have iff: "ancestor hp y pa \<and> ancestor hp y pb \<longleftrightarrow> ancestor hp y a \<and> ancestor hp y b" for y
  proof
    assume y: "ancestor hp y pa \<and> ancestor hp y pb"
    then obtain c where "hp y = Some c" "nHeight c \<le> ?n"
      using ancestor_height [OF tree ab(1)] ancestor_height [OF tree ab(2)] unfolding ancestor_def by fastforce
    then show "ancestor hp y a \<and> ancestor hp y b"
      using y a b ancestor_below [OF tree ab(1) a(1)] ancestor_below [OF tree ab(2) b(1)] by auto
  next
    assume "ancestor hp y a \<and> ancestor hp y b"
    then show "ancestor hp y pa \<and> ancestor hp y pb"
      using ancestor_trans a(1) b(1) by blast
  qed
  from common_walk_ancestor [OF tree a(2) b(2) a(3) b(3), of "Suc ?n"] show ?thesis
    unfolding eq using iff by blast
qed

section \<open>Median times\<close>

text \<open>The element at a position of the sorted list, by counting.\<close>

lemma sort_nth_ge:
  fixes xs :: "'a :: linorder list"
  assumes "k < length xs" "length xs - k \<le> length (filter (\<lambda>x. m \<le> x) xs)"
  shows "m \<le> sort xs ! k"
proof (rule ccontr)
  assume "\<not> m \<le> sort xs ! k"
  then have lt: "sort xs ! i < m" if "i \<le> k" for i
    using that assms(1) sorted_nth_mono [OF sorted_sort, of i k xs] by simp
  have "length (filter (\<lambda>x. m \<le> x) xs) = length (filter (\<lambda>x. m \<le> x) (sort xs))"
    by (metis filter_sort length_sort)
  also have "\<dots> = length (filter (\<lambda>x. m \<le> x) (take (Suc k) (sort xs))) + length (filter (\<lambda>x. m \<le> x) (drop (Suc k) (sort xs)))"
    by (metis append_take_drop_id filter_append length_append)
  also have "filter (\<lambda>x. m \<le> x) (take (Suc k) (sort xs)) = []"
    using lt assms(1) by (auto simp: filter_empty_conv in_set_conv_nth not_le)
  also have "length (filter (\<lambda>x. m \<le> x) (drop (Suc k) (sort xs))) \<le> length xs - Suc k"
    using length_filter_le [of "\<lambda>x. m \<le> x" "drop (Suc k) (sort xs)"] by simp
  finally show False
    using assms by simp
qed

lemma sort_nth_count:
  fixes xs :: "'a :: linorder list"
  assumes "k < length xs"
  shows "length xs - k \<le> length (filter (\<lambda>x. sort xs ! k \<le> x) xs)"
proof -
  have "filter (\<lambda>x. sort xs ! k \<le> x) (drop k (sort xs)) = drop k (sort xs)"
    using assms sorted_nth_mono [OF sorted_sort, of k _ xs] by (auto simp: filter_id_conv in_set_conv_nth)
  then have "length xs - k = length (filter (\<lambda>x. sort xs ! k \<le> x) (drop k (sort xs)))"
    by simp
  also have "\<dots> \<le> length (filter (\<lambda>x. sort xs ! k \<le> x) (sort xs))"
    by (metis append_take_drop_id filter_append le_add2 length_append)
  finally show ?thesis
    by (metis filter_sort length_sort)
qed

text \<open>The median does not fall when a later time enters a window of at most 11 times.\<close>

lemma median_mono:
  fixes t :: nat
  assumes "ts \<noteq> []" "length ts \<le> 11" "sort ts ! (length ts div 2) < t"
  shows "sort ts ! (length ts div 2) \<le> sort (t # take 10 ts) ! (length (t # take 10 ts) div 2)"
proof (rule sort_nth_ge)
  let ?m = "sort ts ! (length ts div 2)" and ?n = "length (t # take 10 ts)"
  let ?c = "\<lambda>xs. length (filter (\<lambda>x. ?m \<le> x) xs)"
  have old: "length ts - length ts div 2 \<le> ?c ts"
    using assms(1) by (intro sort_nth_count) simp
  have "?c ts = ?c (take 10 ts) + ?c (drop 10 ts)"
    by (metis append_take_drop_id filter_append length_append)
  moreover have "?c (drop 10 ts) \<le> length ts - 10"
    using length_filter_le [of "\<lambda>x. ?m \<le> x" "drop 10 ts"] by simp
  moreover have "?c (t # take 10 ts) = Suc (?c (take 10 ts))"
    using assms(3) by simp
  ultimately have c: "Suc (?c ts) \<le> ?c (t # take 10 ts) + (length ts - 10)"
    by simp
  have n: "?n = Suc (min (length ts) 10)"
    by simp
  show "?n div 2 < ?n"
    by simp
  show "?n - ?n div 2 \<le> ?c (t # take 10 ts)"
    using c old assms(2) unfolding n by (cases "length ts \<le> 10") (auto simp: min_def)
qed

lemma past_times_ret:
  assumes "tree_ok hp"
  shows "hp p = Some b \<Longrightarrow> \<exists>ts. past_times hp (Suc i) (Some p) = Ret (nTime b # ts)
    \<and> (case pprev b of None \<Rightarrow> ts = [] | Some q \<Rightarrow> past_times hp i (Some q) = Ret ts)"
proof (induction i arbitrary: p b)
  case 0
  then show ?case
    by (cases "pprev b") auto
next
  case (Suc i)
  show ?case
  proof (cases "pprev b")
    case (Some q)
    with tree_ok_prev [OF assms Suc.prems Some] Suc.IH [of q] Suc.prems show ?thesis
      by auto
  qed (use Suc.prems in simp)
qed

lemma past_times_None [simp]: "past_times hp i None = Ret []"
  by (cases i) simp_all

lemma past_times_take:
  assumes "tree_ok hp"
  shows "hp p = Some b \<Longrightarrow> \<exists>ts. past_times hp (Suc i) (Some p) = Ret ts \<and> ts \<noteq> [] \<and> length ts \<le> Suc i
    \<and> past_times hp i (Some p) = Ret (take i ts)"
proof (induction i arbitrary: p b)
  case 0
  then show ?case
    using past_times_ret [OF assms 0, of 0] by (auto split: option.splits)
next
  case (Suc i)
  show ?case
  proof (cases "pprev b")
    case None
    then show ?thesis
      using Suc.prems by simp
  next
    case (Some q)
    with tree_ok_prev [OF assms Suc.prems Some] obtain c where "hp q = Some c"
      by blast
    with Suc.IH [of q] Suc.prems Some show ?thesis
      by auto
  qed
qed

lemma median_ret:
  assumes "tree_ok hp" "hp p = Some b"
  shows "\<exists>ts. past_times hp 11 (Some p) = Ret ts \<and> ts \<noteq> [] \<and> length ts \<le> 11 \<and> past_times hp 10 (Some p) = Ret (take 10 ts)
    \<and> GetMedianTimePast hp p = Ret (sort ts ! (length ts div 2))"
  using past_times_take [OF assms, of 10] by (auto simp: GetMedianTimePast_def numeral_eq_Suc simp del: past_times.simps)

lemma median_next:
  assumes "tree_ok hp" "hp p = Some b" "pprev b = Some q" "GetMedianTimePast hp q = Ret m" "m < nTime b"
  shows "\<exists>m'. GetMedianTimePast hp p = Ret m' \<and> m \<le> m'"
proof -
  obtain c where "hp q = Some c"
    using tree_ok_prev [OF assms(1-3)] by blast
  from median_ret [OF assms(1) this] obtain ts where ts: "ts \<noteq> []" "length ts \<le> 11" "past_times hp 10 (Some q) = Ret (take 10 ts)"
    "m = sort ts ! (length ts div 2)"
    using assms(4) by auto
  have "past_times hp 11 (Some p) = Ret (nTime b # take 10 ts)"
    using past_times_ret [OF assms(1,2), of 10] ts(3) assms(3) by (auto simp: numeral_eq_Suc simp del: past_times.simps)
  then show ?thesis
    using median_mono [OF ts(1,2)] assms(5) ts(4) by (simp add: GetMedianTimePast_def)
qed

section \<open>Properties\<close>

text \<open>
  The states that creating indexes leads to, from the empty table. Allocations return fresh
  pointers, the memory may hold anything, and no header has the hash of its previous block.
\<close>

inductive reachable_chain :: "blk_chain \<Rightarrow> bool" where
  start: "reachable_chain \<lparr>ch_heap = Map.empty, ch_table = Map.empty, ch_best = None\<rparr>"
| create: "reachable_chain st \<Longrightarrow> ch_heap st new = None \<Longrightarrow> hd_hashPrevBlock block \<noteq> hash \<Longrightarrow>
    CreateBlockIndex ifaceIndex st block hash new junk = Ret (st', p) \<Longrightarrow> reachable_chain st'"

lemma reachable_ok: "reachable_chain st \<Longrightarrow> chain_ok st"
proof (induction rule: reachable_chain.induct)
  case start
  then show ?case
    by (simp add: chain_ok_def tree_ok_def)
next
  case (create st new block hash ifaceIndex junk st' p)
  then show ?case
    using create_ok [OF create.IH _ create.hyps(2,3), of ifaceIndex junk] by (cases "ch_table st hash") (auto simp: CreateBlockIndex_def)
qed

lemmas reachable_tree = chain_okD(1) [OF reachable_ok]

text \<open>A chain of two blocks, as an example.\<close>

definition sample_header :: "nat \<Rightarrow> nat \<Rightarrow> CBlockHeader" where
  "sample_header prv t = \<lparr>hd_version = 4, hd_hashPrevBlock = prv, hd_hashMerkleRoot = 0, hd_time = t, hd_bits = 0, hd_nonce = 0\<rparr>"

lemma sample_chain:
  "\<exists>st b c. reachable_chain st \<and> ch_heap st = [0 \<mapsto> b, 1 \<mapsto> c] \<and> pprev b = None \<and> pprev c = Some 0
    \<and> nHeight b = 0 \<and> nHeight c = 1 \<and> nTime b = 100 \<and> nTime c = 200 \<and> ch_table st = [1 \<mapsto> 0, 2 \<mapsto> 1]"
proof -
  let ?s = "\<lparr>ch_heap = Map.empty, ch_table = Map.empty, ch_best = None\<rparr>"
  have s: "chain_ok ?s"
    by (rule reachable_ok) (rule reachable_chain.start)
  obtain st b where st: "CreateBlockIndex 1 ?s (sample_header 0 100) 1 0 None = Ret (st, 0)" "chain_ok st" "ch_heap st = [0 \<mapsto> b]"
    "pprev b = None" "nHeight b = 0" "nTime b = 100" "ch_table st = [1 \<mapsto> 0]"
    using create_ok [OF s, of 1 0 "sample_header 0 100" 1 None] by (auto simp: sample_header_def)
  obtain st' c where st': "CreateBlockIndex 1 st (sample_header 1 200) 2 1 None = Ret (st', 1)" "ch_heap st' = [0 \<mapsto> b, 1 \<mapsto> c]"
    "pprev c = Some 0" "nHeight c = 1" "nTime c = 200" "ch_table st' = [1 \<mapsto> 0, 2 \<mapsto> 1]"
    using create_ok [OF st(2), of 2 1 "sample_header 1 200" 1 None] st by (auto simp: sample_header_def)
  have "reachable_chain st"
    by (rule reachable_chain.create [OF reachable_chain.start _ _ st(1)]) (simp_all add: sample_header_def)
  then have "reachable_chain st'"
    by (rule reachable_chain.create [OF _ _ _ st'(1)]) (simp_all add: sample_header_def st(3))
  with st st' show ?thesis
    by (intro exI [of _ st'] exI [of _ b] exI [of _ c]) simp
qed

lemma sample_chain_longer:
  "\<exists>st b c d. reachable_chain st \<and> ch_heap st = [0 \<mapsto> b, 1 \<mapsto> c, 2 \<mapsto> d] \<and> pprev b = None \<and> pprev c = Some 0 \<and> pprev d = Some 1
    \<and> nHeight b = 0 \<and> nHeight c = 1 \<and> nHeight d = 2 \<and> nTime b = 100 \<and> nTime c = 200 \<and> nTime d = 300"
proof -
  obtain st b c where st: "reachable_chain st" "ch_heap st = [0 \<mapsto> b, 1 \<mapsto> c]" "ch_table st = [1 \<mapsto> 0, 2 \<mapsto> 1]" "pprev b = None"
    "pprev c = Some 0" "nHeight b = 0" "nHeight c = 1" "nTime b = 100" "nTime c = 200"
    using sample_chain by blast
  obtain st' d where st': "CreateBlockIndex 1 st (sample_header 2 300) 3 2 None = Ret (st', 2)" "ch_heap st' = [0 \<mapsto> b, 1 \<mapsto> c, 2 \<mapsto> d]"
    "pprev d = Some 1" "nHeight d = 2" "nTime d = 300"
    using create_ok [OF reachable_ok [OF st(1)], of 3 2 "sample_header 2 300" 1 None] st by (auto simp: sample_header_def)
  have "reachable_chain st'"
    by (rule reachable_chain.create [OF st(1) _ _ st'(1)]) (simp_all add: sample_header_def st(2))
  with st st' show ?thesis
    by (intro exI [of _ st'] exI [of _ b] exI [of _ c] exI [of _ d]) simp
qed

text \<open>
  C5. The block table: creating an index always returns, and every state it leads to is a tree in
  which heights grow by one along the pointers to previous blocks, skip pointers lead to the
  ancestor at the skip height, and the best header has the most work of all. A new index has the
  work of its previous block plus its own.
\<close>
theorem CreateBlockIndex_invariant:
  assumes "reachable_chain st" "ch_heap st new = None" "hd_hashPrevBlock block \<noteq> hash"
  shows "\<exists>st' p. CreateBlockIndex ifaceIndex st block hash new junk = Ret (st', p) \<and> chain_ok st' \<and> ch_table st' hash = Some p
    \<and> (ch_table st hash = None \<longrightarrow>
        (\<exists>b. ch_heap st' p = Some b \<and> pprev b = ch_table st (hd_hashPrevBlock block)
          \<and> bnChainWork b = (case pprev b of None \<Rightarrow> 0 | Some q \<Rightarrow> bnChainWork (the (ch_heap st q)))
              + GetBlockWork (uses_algo ifaceIndex) (hd_bits block) (hd_version block)))"
proof (cases "ch_table st hash")
  case None
  from create_ok [OF reachable_ok [OF assms(1)] None assms(2,3), of ifaceIndex junk] show ?thesis
    by auto
next
  case (Some p)
  with reachable_ok [OF assms(1)] show ?thesis
    by (simp add: CreateBlockIndex_def)
qed

theorem CreateBlockIndex_invariant_witness:
  "\<exists>st st' p. reachable_chain st \<and> ch_heap st 1 \<noteq> None \<and> CreateBlockIndex 1 st (sample_header 2 300) 3 2 (Some 7) = Ret (st', p) \<and> chain_ok st'"
proof -
  obtain st where st: "reachable_chain st" "ch_heap st 2 = None" "ch_heap st 1 \<noteq> None"
    using sample_chain by force
  then show ?thesis
    using CreateBlockIndex_invariant [OF st(1,2), of "sample_header 2 300" 3 1 "Some 7"] by (auto simp: sample_header_def)
qed

text \<open>
  C12. Skip pointers do not change what \<open>GetAncestor\<close> finds: in every reachable state it returns
  and gives the block that following the pointers to previous blocks gives, and NULL for a height
  outside the chain.
\<close>
theorem GetAncestor_correct:
  assumes "reachable_chain st" "ch_heap st p = Some b"
  shows "GetAncestor (ch_heap st) p h =
    Ret (if 0 \<le> h \<and> h \<le> int (nHeight b) then prev_n (ch_heap st) (nHeight b - nat h) p else None)"
  using assms by (rule GetAncestor_prev [OF reachable_tree])

theorem GetAncestor_correct_witness:
  "\<exists>st. reachable_chain st \<and> GetAncestor (ch_heap st) 1 0 = Ret (Some 0) \<and> GetAncestor (ch_heap st) 1 5 = Ret None"
proof -
  obtain st c where st: "reachable_chain st" "ch_heap st 1 = Some c" "pprev c = Some 0" "nHeight c = 1"
    using sample_chain by force
  then show ?thesis
    using GetAncestor_correct [OF st(1,2), of 0] GetAncestor_correct [OF st(1,2), of 5] by (intro exI [of _ st]) simp
qed

text \<open>
  \<open>LastCommonAncestor\<close> returns the last block that the chains of two blocks share, from which
  every other shared block is reached, and NULL if they share none.
\<close>
lemma LastCommonAncestor_correct:
  assumes "reachable_chain st" "ch_heap st pa = Some ba" "ch_heap st pb = Some bb"
  shows "(\<exists>x. LastCommonAncestor (ch_heap st) pa pb = Ret (Some x) \<and> ancestor (ch_heap st) x pa \<and> ancestor (ch_heap st) x pb
      \<and> (\<forall>y. ancestor (ch_heap st) y pa \<and> ancestor (ch_heap st) y pb \<longrightarrow> ancestor (ch_heap st) y x))
    \<or> (LastCommonAncestor (ch_heap st) pa pb = Ret None
      \<and> (\<forall>y. \<not> (ancestor (ch_heap st) y pa \<and> ancestor (ch_heap st) y pb)))"
  using assms by (rule LastCommonAncestor_ok [OF reachable_tree])

text \<open>
  Median times do not fall: if the time of a block is after the median time of its previous
  block, its own median time is not before that one.
\<close>
lemma GetMedianTimePast_mono:
  assumes "reachable_chain st" "ch_heap st p = Some b" "pprev b = Some q" "GetMedianTimePast (ch_heap st) q = Ret m" "m < nTime b"
  shows "\<exists>m'. GetMedianTimePast (ch_heap st) p = Ret m' \<and> m \<le> m'"
  using assms by (rule median_next [OF reachable_tree])

end
