(* ===== verification/Version_Bits.thy ===== *)
theory Version_Bits
  imports Block_Index
begin

text \<open>
  Deployments of rule changes by version bits (\<open>versionbits.cpp\<close>, \<open>versionbits.h\<close>,
  \<open>core_ComputeBlockVersion\<close> of \<open>block.cpp\<close>): \<open>GetStateFor\<close> with its cache, the condition checkers
  and the deployments of the coins. A specification without cache gives the state of every period
  from the one before it; the locale \<open>threshold_checker\<close> holds what a checker promises and shows that
  the code computes the specification.
\<close>

unbundle bit_operations_syntax

section \<open>Threshold states\<close>

datatype ThresholdState =
  THRESHOLD_DEFINED | THRESHOLD_STARTED | THRESHOLD_LOCKED_IN | THRESHOLD_ACTIVE | THRESHOLD_FAILED

type_synonym ThresholdConditionCache = "blkptr option \<Rightarrow> ThresholdState option"
type_synonym version_bits_caches = "nat \<Rightarrow> nat \<Rightarrow> ThresholdConditionCache"

text \<open>The virtual functions of a checker, for the coin it is called with.\<close>

record checker =
  Condition :: "CBlockIndex \<Rightarrow> bool"
  BeginTime :: int
  EndTime :: int
  Period :: nat
  Threshold :: nat

text \<open>
  The loop that counts the blocks that signal. A height is fuel enough, as the pointers to
  previous blocks end at height 0.
\<close>

fun count_signals :: "nat \<Rightarrow> checker \<Rightarrow> bool \<Rightarrow> blkheap \<Rightarrow> blkptr option \<Rightarrow> nat \<Rightarrow> nat \<Rightarrow> nat res" where
  "count_signals fuel ck fAlgo hp pindexCount idx count =
     (case pindexCount of
        None \<Rightarrow> Ret count
      | Some p \<Rightarrow>
        if idx < Period ck
        then (case fuel of
                0 \<Rightarrow> Hang
              | Suc n \<Rightarrow>
                (case hp p of
                   None \<Rightarrow> Segv
                 | Some blk \<Rightarrow>
                   if \<not> fAlgo \<or> \<not> IsAlgoBitsMask (nVersion blk)
                   then count_signals n ck fAlgo hp (pprev blk) (idx + 1) (if Condition ck blk then count + 1 else count)
                   else count_signals n ck fAlgo hp (pprev blk) idx count))
        else Ret count)"

declare count_signals.simps [simp del]

definition next_state :: "checker \<Rightarrow> nat \<Rightarrow> blkheap \<Rightarrow> ThresholdState \<Rightarrow> blkptr \<Rightarrow> ThresholdState res" where
  "next_state ck ifaceIndex hp state pindexPrev =
     (case state of
        THRESHOLD_DEFINED \<Rightarrow>
          andThen (GetMedianTimePast hp pindexPrev)
            (\<lambda>m. Ret (if int m \<ge> EndTime ck then THRESHOLD_FAILED
                      else if int m \<ge> BeginTime ck then THRESHOLD_STARTED
                      else state))
      | THRESHOLD_STARTED \<Rightarrow>
          andThen (GetMedianTimePast hp pindexPrev)
            (\<lambda>m. if int m \<ge> EndTime ck then Ret THRESHOLD_FAILED
                  else (case hp pindexPrev of
                          None \<Rightarrow> Segv
                        | Some blk \<Rightarrow>
                          andThen (count_signals (Suc (nHeight blk)) ck (uses_algo ifaceIndex) hp (Some pindexPrev) 0 0)
                            (\<lambda>count. Ret (if count \<ge> Threshold ck then THRESHOLD_LOCKED_IN else state))))
      | THRESHOLD_LOCKED_IN \<Rightarrow> Ret THRESHOLD_ACTIVE
      | THRESHOLD_FAILED \<Rightarrow> Ret state
      | THRESHOLD_ACTIVE \<Rightarrow> Ret state)"

text \<open>The walk backwards, to a block with a known state; \<open>vToCompute\<close> has its last element first.\<close>

fun walk_back ::
  "nat \<Rightarrow> checker \<Rightarrow> blkheap \<Rightarrow> ThresholdConditionCache \<Rightarrow> blkptr option \<Rightarrow> blkptr list
    \<Rightarrow> (ThresholdConditionCache \<times> blkptr option \<times> blkptr list) res" where
  "walk_back fuel ck hp cache pindexPrev vToCompute =
     (if cache pindexPrev \<noteq> None then Ret (cache, pindexPrev, vToCompute)
      else case pindexPrev of
        None \<Rightarrow> Ret (cache(None \<mapsto> THRESHOLD_DEFINED), None, vToCompute)
      | Some p \<Rightarrow>
        andThen (GetMedianTimePast hp p)
          (\<lambda>m. if int m < BeginTime ck
                then Ret (cache(pindexPrev \<mapsto> THRESHOLD_DEFINED), pindexPrev, vToCompute)
                else case (fuel, hp p) of
                  (0, _) \<Rightarrow> Hang
                | (_, None) \<Rightarrow> Segv
                | (Suc n, Some blk) \<Rightarrow>
                    andThen (GetAncestor hp p (int (nHeight blk) - int (Period ck)))
                      (\<lambda>q. walk_back n ck hp cache q (p # vToCompute))))"

declare walk_back.simps [simp del]

fun walk_forward ::
  "checker \<Rightarrow> nat \<Rightarrow> blkheap \<Rightarrow> ThresholdState \<Rightarrow> ThresholdConditionCache \<Rightarrow> blkptr list
    \<Rightarrow> (ThresholdState \<times> ThresholdConditionCache) res" where
  "walk_forward ck ifaceIndex hp state cache [] = Ret (state, cache)"
| "walk_forward ck ifaceIndex hp state cache (p # vToCompute) =
     andThen (next_state ck ifaceIndex hp state p)
       (\<lambda>stateNext. walk_forward ck ifaceIndex hp stateNext (cache(Some p \<mapsto> stateNext)) vToCompute)"

text \<open>The first block of the period; the remainder by 0 is undefined.\<close>

definition period_start :: "checker \<Rightarrow> blkheap \<Rightarrow> blkptr option \<Rightarrow> blkptr option res" where
  "period_start ck hp pindexPrev =
     (case pindexPrev of
        None \<Rightarrow> Ret None
      | Some p \<Rightarrow>
        (case hp p of
           None \<Rightarrow> Segv
         | Some blk \<Rightarrow>
           if Period ck = 0 then Segv
           else GetAncestor hp p (int (nHeight blk) - int ((nHeight blk + 1) mod Period ck))))"

definition back_fuel :: "blkheap \<Rightarrow> blkptr option \<Rightarrow> nat" where
  "back_fuel hp pindexPrev = (case pindexPrev of None \<Rightarrow> 0 | Some p \<Rightarrow> (case hp p of None \<Rightarrow> 0 | Some blk \<Rightarrow> Suc (nHeight blk)))"

definition GetStateFor ::
  "checker \<Rightarrow> nat \<Rightarrow> nat \<Rightarrow> blkheap \<Rightarrow> version_bits_caches \<Rightarrow> blkptr option \<Rightarrow> (ThresholdState \<times> version_bits_caches) res" where
  "GetStateFor ck ifaceIndex pos hp vcache pindexPrev =
     (if ifaceIndex \<ge> 7 then Ret (THRESHOLD_DEFINED, vcache)
      else andThen (period_start ck hp pindexPrev)
        (\<lambda>pindexPrev. andThen (walk_back (back_fuel hp pindexPrev) ck hp (vcache ifaceIndex pos) pindexPrev [])
          (\<lambda>(cache, pindexPrev, vToCompute).
            andThen (walk_forward ck ifaceIndex hp (the (cache pindexPrev)) cache vToCompute)
              (\<lambda>(state, cache). Ret (state, vcache(ifaceIndex := (vcache ifaceIndex)(pos := cache)))))))"

section \<open>Deployments\<close>

record BIP9Deployment =
  dp_bit :: nat
  nStartTime :: int
  nTimeout :: int

record vb_iface =
  vb_index :: nat
  BIP16Height :: int
  BIP34Height :: int
  BIP65Height :: int
  BIP66Height :: int
  nRuleChangeActivationThreshold :: nat
  nMinerConfirmationWindow :: nat
  vDeployments :: "nat \<Rightarrow> BIP9Deployment"

definition VersionBitsMask :: "vb_iface \<Rightarrow> nat \<Rightarrow> nat" where
  "VersionBitsMask params pos = push_bit (dp_bit (vDeployments params pos)) 1"

definition signals :: "nat \<Rightarrow> CBlockIndex \<Rightarrow> bool" where
  "signals msk blk \<longleftrightarrow> nVersion blk AND 0xE0000000 = 0x20000000 \<and> nVersion blk AND msk \<noteq> 0"

definition VersionBitsConditionChecker :: "vb_iface \<Rightarrow> nat \<Rightarrow> checker" where
  "VersionBitsConditionChecker params pos =
     \<lparr>Condition = signals (VersionBitsMask params pos),
      BeginTime = nStartTime (vDeployments params pos),
      EndTime = nTimeout (vDeployments params pos),
      Period = nMinerConfirmationWindow params,
      Threshold = nRuleChangeActivationThreshold params\<rparr>"

definition VersionBitsState ::
  "blkheap \<Rightarrow> version_bits_caches \<Rightarrow> blkptr option \<Rightarrow> vb_iface \<Rightarrow> nat \<Rightarrow> (ThresholdState \<times> version_bits_caches) res" where
  "VersionBitsState hp vcache pindexPrev params pos =
     GetStateFor (VersionBitsConditionChecker params pos) (vb_index params) pos hp vcache pindexPrev"

definition IsWitnessEnabled :: "blkheap \<Rightarrow> version_bits_caches \<Rightarrow> vb_iface \<Rightarrow> blkptr option \<Rightarrow> (bool \<times> version_bits_caches) res" where
  "IsWitnessEnabled hp vcache iface pindexPrev =
     andThen (VersionBitsState hp vcache pindexPrev iface 2) (\<lambda>(state, vcache). Ret (state = THRESHOLD_ACTIVE, vcache))"

fun version_loop :: "blkheap \<Rightarrow> vb_iface \<Rightarrow> blkptr option \<Rightarrow> nat list \<Rightarrow> nat \<Rightarrow> version_bits_caches \<Rightarrow> (nat \<times> version_bits_caches) res" where
  "version_loop hp params pindexPrev [] ver vcache = Ret (ver, vcache)"
| "version_loop hp params pindexPrev (i # rest) ver vcache =
     andThen (VersionBitsState hp vcache pindexPrev params i)
       (\<lambda>(state, vcache).
         version_loop hp params pindexPrev rest
           (if state = THRESHOLD_LOCKED_IN \<or> state = THRESHOLD_STARTED then ver OR VersionBitsMask params i else ver)
           vcache)"

definition core_ComputeBlockVersion :: "blkheap \<Rightarrow> version_bits_caches \<Rightarrow> vb_iface \<Rightarrow> blkptr option \<Rightarrow> (nat \<times> version_bits_caches) res" where
  "core_ComputeBlockVersion hp vcache params pindexPrev =
     version_loop hp params pindexPrev [0..<9] 0x20000000 vcache"

text \<open>The deployments of the coins; a coin that sets none at a position has zeros there.\<close>

definition mk_deployments :: "(nat \<times> nat \<times> int \<times> int) list \<Rightarrow> nat \<Rightarrow> BIP9Deployment" where
  "mk_deployments ds pos =
     (case map_of ds pos of
        None \<Rightarrow> \<lparr>dp_bit = 0, nStartTime = 0, nTimeout = 0\<rparr>
      | Some (b, start, timeout) \<Rightarrow> \<lparr>dp_bit = b, nStartTime = start, nTimeout = timeout\<rparr>)"

definition shc_consensus :: vb_iface where
  "shc_consensus =
     \<lparr>vb_index = 1, BIP16Height = 1, BIP34Height = 1, BIP65Height = 1, BIP66Height = 1,
      nRuleChangeActivationThreshold = 9072, nMinerConfirmationWindow = 12096,
      vDeployments = mk_deployments
        [(0, 28, 1577836800, 1609459200), (1, 0, 1555781815, 1577836800), (2, 1, 1577836800, 1609459200),
         (6, 5, 1559347200, 1590969600), (7, 6, 1609459200, 1640995200), (8, 7, 1609459200, 1640995200)]\<rparr>"

definition emc2_consensus :: vb_iface where
  "emc2_consensus =
     \<lparr>vb_index = 3, BIP16Height = 1, BIP34Height = 1500000, BIP65Height = 1, BIP66Height = 1,
      nRuleChangeActivationThreshold = 15120, nMinerConfirmationWindow = 20160,
      vDeployments = mk_deployments
        [(0, 28, 1199145601, 1230767999), (1, 0, 1485561600, 1517356801), (2, 1, 1485561600, 1517356801)]\<rparr>"

definition ltc_consensus :: vb_iface where
  "ltc_consensus =
     \<lparr>vb_index = 4, BIP16Height = 218579, BIP34Height = 710000, BIP65Height = 918684, BIP66Height = 811879,
      nRuleChangeActivationThreshold = 6048, nMinerConfirmationWindow = 8064,
      vDeployments = mk_deployments
        [(0, 28, 1199145601, 1230767999), (1, 0, 1485561600, 1517356801), (2, 1, 1485561600, 1517356801)]\<rparr>"

definition testnet_consensus :: vb_iface where
  "testnet_consensus =
     \<lparr>vb_index = 5, BIP16Height = 1, BIP34Height = 1, BIP65Height = 1, BIP66Height = 1,
      nRuleChangeActivationThreshold = 907, nMinerConfirmationWindow = 1209,
      vDeployments = mk_deployments
        [(0, 28, 1546300800, 1609459200), (1, 0, 1546300800, 1609459200), (2, 1, 1546300800, 1609459200),
         (6, 5, 1556409600, 1609459200), (7, 6, 1577836800, 1609459200)]\<rparr>"

definition color_consensus :: vb_iface where
  "color_consensus =
     \<lparr>vb_index = 6, BIP16Height = 0, BIP34Height = 0, BIP65Height = 0, BIP66Height = 0,
      nRuleChangeActivationThreshold = 9072, nMinerConfirmationWindow = 12096,
      vDeployments = mk_deployments [(0, 28, 0, 0), (1, 0, 0, 0), (2, 1, 0, 0)]\<rparr>"

definition coin_consensus :: "vb_iface list" where
  "coin_consensus = [shc_consensus, emc2_consensus, ltc_consensus, testnet_consensus, color_consensus]"

section \<open>What the states mean\<close>

text \<open>
  The specification has no cache: the state of a period is computed from the state of the period
  before it and the block at its end.
\<close>

fun back_blocks :: "nat \<Rightarrow> blkheap \<Rightarrow> blkptr option \<Rightarrow> CBlockIndex list" where
  "back_blocks 0 hp p = []"
| "back_blocks (Suc n) hp None = []"
| "back_blocks (Suc n) hp (Some p) = (case hp p of None \<Rightarrow> [] | Some b \<Rightarrow> b # back_blocks n hp (pprev b))"

definition chain_blocks :: "blkheap \<Rightarrow> blkptr \<Rightarrow> CBlockIndex list" where
  "chain_blocks hp p = back_blocks (Suc (nHeight (the (hp p)))) hp (Some p)"

definition median_of :: "blkheap \<Rightarrow> blkptr \<Rightarrow> int" where
  "median_of hp p = (case GetMedianTimePast hp p of Ret m \<Rightarrow> int m | _ \<Rightarrow> 0)"

definition counted :: "nat \<Rightarrow> CBlockIndex \<Rightarrow> bool" where
  "counted ifaceIndex b \<longleftrightarrow> \<not> uses_algo ifaceIndex \<or> \<not> IsAlgoBitsMask (nVersion b)"

definition signalling :: "checker \<Rightarrow> nat \<Rightarrow> blkheap \<Rightarrow> blkptr \<Rightarrow> nat" where
  "signalling ck i hp p = length (filter (Condition ck) (take (Period ck) (filter (counted i) (chain_blocks hp p))))"

definition spec_next :: "checker \<Rightarrow> nat \<Rightarrow> blkheap \<Rightarrow> ThresholdState \<Rightarrow> blkptr \<Rightarrow> ThresholdState" where
  "spec_next ck i hp s p =
     (case s of
        THRESHOLD_DEFINED \<Rightarrow>
          if median_of hp p \<ge> EndTime ck then THRESHOLD_FAILED
          else if median_of hp p \<ge> BeginTime ck then THRESHOLD_STARTED else THRESHOLD_DEFINED
      | THRESHOLD_STARTED \<Rightarrow>
          if median_of hp p \<ge> EndTime ck then THRESHOLD_FAILED
          else if signalling ck i hp p \<ge> Threshold ck then THRESHOLD_LOCKED_IN else THRESHOLD_STARTED
      | THRESHOLD_LOCKED_IN \<Rightarrow> THRESHOLD_ACTIVE
      | _ \<Rightarrow> s)"

fun level_state :: "checker \<Rightarrow> nat \<Rightarrow> blkheap \<Rightarrow> nat \<Rightarrow> blkptr option \<Rightarrow> ThresholdState" where
  "level_state ck i hp 0 p = THRESHOLD_DEFINED"
| "level_state ck i hp (Suc k) None = THRESHOLD_DEFINED"
| "level_state ck i hp (Suc k) (Some p) = spec_next ck i hp (level_state ck i hp k (prev_n hp (Period ck) p)) p"

text \<open>The state of the block after \<open>p\<close>.\<close>

definition spec_state :: "checker \<Rightarrow> nat \<Rightarrow> blkheap \<Rightarrow> blkptr option \<Rightarrow> ThresholdState" where
  "spec_state ck i hp p =
     (case p of
        None \<Rightarrow> THRESHOLD_DEFINED
      | Some p \<Rightarrow>
        (let h = nHeight (the (hp p)) + 1
         in level_state ck i hp (h div Period ck) (prev_n hp (h mod Period ck) p)))"

definition cache_ok :: "checker \<Rightarrow> nat \<Rightarrow> blkheap \<Rightarrow> ThresholdConditionCache \<Rightarrow> bool" where
  "cache_ok ck i hp c \<longleftrightarrow>
     (\<forall>s. c None = Some s \<longrightarrow> s = THRESHOLD_DEFINED) \<and>
     (\<forall>p s. c (Some p) = Some s \<longrightarrow>
        (\<exists>b. hp p = Some b \<and> Period ck dvd nHeight b + 1 \<and> s = spec_state ck i hp (Some p)))"

text \<open>Each block of the chain of \<open>p\<close> is later than the median time of its previous block.\<close>

definition chain_times :: "blkheap \<Rightarrow> blkptr \<Rightarrow> bool" where
  "chain_times hp p \<longleftrightarrow>
     (\<forall>x b q. ancestor hp x p \<longrightarrow> hp x = Some b \<longrightarrow> pprev b = Some q \<longrightarrow> median_of hp q < int (nTime b))"

section \<open>The loops\<close>

lemma median_of_ret: "tree_ok hp \<Longrightarrow> hp p = Some b \<Longrightarrow> \<exists>m. GetMedianTimePast hp p = Ret m \<and> median_of hp p = int m"
  using median_ret [of hp p b] by (auto simp: median_of_def)

lemma chain_times_prev: "chain_times hp p \<Longrightarrow> prev_n hp k p = Some q \<Longrightarrow> chain_times hp q"
  unfolding chain_times_def using ancestor_trans by blast

lemma median_of_prev:
  assumes "tree_ok hp" "hp p = Some b" "chain_times hp p"
  shows "prev_n hp k p = Some q \<Longrightarrow> median_of hp q \<le> median_of hp p"
proof (induction k arbitrary: q)
  case (Suc k)
  from ancestor_height [OF assms(1,2) Suc.prems] have "k \<le> nHeight b"
    by auto
  from prev_n_height [OF assms(1,2) this] obtain x c where x: "prev_n hp k p = Some x" "hp x = Some c"
    by blast
  then have q: "pprev c = Some q"
    using prev_n_add [OF x(1), of 1] Suc.prems by (auto split: option.splits)
  have "ancestor hp x p"
    using x by (auto simp: ancestor_def)
  then have t: "median_of hp q < int (nTime c)"
    using assms(3) x q by (simp add: chain_times_def)
  obtain d where "hp q = Some d"
    using tree_ok_prev [OF assms(1) x(2) q] by blast
  from median_of_ret [OF assms(1) this] obtain m where m: "GetMedianTimePast hp q = Ret m" "median_of hp q = int m"
    by blast
  from median_next [OF assms(1) x(2) q m(1)] t m(2) have "median_of hp q \<le> median_of hp x"
    by (auto simp: median_of_def)
  with Suc.IH [OF x(1)] show ?case
    by simp
qed simp

lemma count_signals_spec:
  assumes "tree_ok hp"
  shows "hp p = Some b \<Longrightarrow> nHeight b < fuel \<Longrightarrow>
    count_signals fuel ck (uses_algo i) hp (Some p) idx n =
      Ret (n + length (filter (Condition ck) (take (Period ck - idx) (filter (counted i) (back_blocks fuel hp (Some p))))))"
proof (induction fuel arbitrary: p b idx n)
  case (Suc fuel)
  show ?case
  proof (cases "idx < Period ck")
    case idx: True
    have rest: "count_signals fuel ck fa hp (pprev b) j c =
        Ret (c + length (filter (Condition ck) (take (Period ck - j) (filter (counted i) (back_blocks fuel hp (pprev b))))))"
      if "fa = uses_algo i" for j c fa
    proof (cases "pprev b")
      case None
      then show ?thesis
        by (cases fuel) (simp_all add: count_signals.simps)
    next
      case (Some q)
      with tree_ok_prev [OF assms Suc.prems(1)] obtain d where "hp q = Some d" "nHeight b = Suc (nHeight d)"
        by blast
      with Suc.IH [of q d] Suc.prems(2) Some that show ?thesis
        by simp
    qed
    from idx have "Period ck - idx = Suc (Period ck - Suc idx)"
      by simp
    with idx Suc.prems(1) show ?thesis
      by (subst count_signals.simps) (simp add: rest counted_def)
  qed (simp add: count_signals.simps)
qed simp

lemma next_state_spec: "tree_ok hp \<Longrightarrow> hp p = Some b \<Longrightarrow> next_state ck i hp s p = Ret (spec_next ck i hp s p)"
  using median_of_ret [of hp p b] count_signals_spec [of hp p b "Suc (nHeight b)" ck i 0 0]
  by (auto simp: next_state_def spec_next_def signalling_def chain_blocks_def split: ThresholdState.split)

section \<open>Checkers\<close>

text \<open>
  A checker promises a period that is not empty and an end that is not before the beginning. Then
  the cache and the early end of the walk do not change the states.
\<close>

locale threshold_checker =
  fixes ck :: checker
  assumes period: "0 < Period ck"
    and times: "BeginTime ck \<le> EndTime ck"
begin

lemma level_before_start:
  assumes "tree_ok hp"
  shows "hp p = Some b \<Longrightarrow> chain_times hp p \<Longrightarrow> median_of hp p < BeginTime ck \<Longrightarrow>
    level_state ck i hp k (Some p) = THRESHOLD_DEFINED"
proof (induction k arbitrary: p b)
  case (Suc k)
  have "level_state ck i hp k (prev_n hp (Period ck) p) = THRESHOLD_DEFINED"
  proof (cases "prev_n hp (Period ck) p")
    case None
    then show ?thesis
      by (cases k) simp_all
  next
    case (Some q)
    with ancestor_height [OF assms Suc.prems(1)] obtain c where "hp q = Some c"
      by blast
    moreover have "chain_times hp q"
      by (rule chain_times_prev [OF Suc.prems(2) Some])
    ultimately show ?thesis
      using Suc.IH [of q c] median_of_prev [OF assms Suc.prems(1,2) Some] Suc.prems(3) Some by simp
  qed
  with Suc.prems(3) times show ?case
    by (simp add: spec_next_def)
qed simp

lemma boundary_state:
  assumes "hp p = Some b" "nHeight b + 1 = k * Period ck"
  shows "spec_state ck i hp (Some p) = level_state ck i hp k (Some p)"
  using assms period by (simp add: spec_state_def)

lemma prev_level:
  assumes "tree_ok hp" "hp q = Some b" "nHeight b + 1 = Suc k * Period ck" "chain_times hp q"
  shows "case prev_n hp (Period ck) q of None \<Rightarrow> k = 0
    | Some x \<Rightarrow> \<exists>d. hp x = Some d \<and> nHeight d + 1 = k * Period ck \<and> chain_times hp x"
proof (cases "prev_n hp (Period ck) q")
  case None
  then have "nHeight b < Period ck"
    using prev_n_height [OF assms(1,2), of "Period ck"] by fastforce
  with assms(3) None show ?thesis
    by (cases k) auto
next
  case (Some x)
  then obtain d where "hp x = Some d" "nHeight d + Period ck = nHeight b"
    using ancestor_height [OF assms(1,2)] by blast
  moreover have "chain_times hp x"
    by (rule chain_times_prev [OF assms(4) Some])
  ultimately show ?thesis
    using assms(3) Some by simp
qed

lemma walk_level:
  assumes tree: "tree_ok hp"
  shows "cache_ok ck i hp c \<Longrightarrow>
    (case p of None \<Rightarrow> k = 0 | Some q \<Rightarrow> \<exists>b. hp q = Some b \<and> nHeight b + 1 = k * Period ck \<and> chain_times hp q) \<Longrightarrow> k \<le> fuel \<Longrightarrow>
    \<exists>c'. cache_ok ck i hp c' \<and> andThen (walk_back fuel ck hp c p todo)
        (\<lambda>(c, p, todo). walk_forward ck i hp (the (c p)) c todo)
      = walk_forward ck i hp (level_state ck i hp k p) c' todo"
proof (induction k arbitrary: p fuel todo c)
  case 0
  then have "p = None"
    using period by (auto split: option.splits)
  show ?case
  proof (cases "c None")
    case None
    have "cache_ok ck i hp (c(None \<mapsto> THRESHOLD_DEFINED))"
      using 0(1) by (simp add: cache_ok_def)
    moreover have "walk_back fuel ck hp c p todo = Ret (c(None \<mapsto> THRESHOLD_DEFINED), None, todo)"
      using None \<open>p = None\<close> by (simp add: walk_back.simps)
    ultimately show ?thesis
      by auto
  next
    case (Some s)
    with 0 \<open>p = None\<close> show ?thesis
      by (intro exI [of _ c]) (simp add: walk_back.simps cache_ok_def)
  qed
next
  case (Suc k)
  then obtain q b n where q: "p = Some q" "hp q = Some b" "nHeight b + 1 = Suc k * Period ck" "chain_times hp q" "fuel = Suc n"
    by (cases fuel) (auto split: option.splits)
  have here: "spec_state ck i hp (Some q) = level_state ck i hp (Suc k) (Some q)"
    by (rule boundary_state [where hp = hp and p = q, OF q(2,3)])
  obtain m where m: "GetMedianTimePast hp q = Ret m" "median_of hp q = int m"
    using median_of_ret [OF tree q(2)] by blast
  show ?case
  proof (cases "c (Some q)")
    case (Some s)
    then have "s = level_state ck i hp (Suc k) (Some q)"
      using Suc.prems(1) here by (auto simp: cache_ok_def)
    with Some Suc.prems(1) q show ?thesis
      by (intro exI [of _ c]) (simp add: walk_back.simps)
  next
    case None
    show ?thesis
    proof (cases "int m < BeginTime ck")
      case True
      then have d: "level_state ck i hp (Suc k) (Some q) = THRESHOLD_DEFINED"
        using level_before_start [OF tree q(2,4)] m(2) by (simp del: level_state.simps)
      have "cache_ok ck i hp (c(Some q \<mapsto> THRESHOLD_DEFINED))"
        using Suc.prems(1) here d q(2,3) by (auto simp: cache_ok_def)
      moreover have "walk_back fuel ck hp c p todo = Ret (c(Some q \<mapsto> THRESHOLD_DEFINED), p, todo)"
        using True None q m by (simp add: walk_back.simps)
      ultimately show ?thesis
        using d q(1) by auto
    next
      case False
      let ?p = "prev_n hp (Period ck) q"
      have anc: "GetAncestor hp q (int (nHeight b) - int (Period ck)) = Ret ?p"
        using GetAncestor_prev [OF tree q(2)] prev_n_end [OF tree q(2), of "Period ck"] by (auto simp: nat_diff_distrib)
      have lvl: "case ?p of None \<Rightarrow> k = 0 | Some x \<Rightarrow> \<exists>d. hp x = Some d \<and> nHeight d + 1 = k * Period ck \<and> chain_times hp x"
        using prev_level [OF tree q(2-4)] .
      have "k \<le> n"
        using Suc.prems(3) q(5) by simp
      from Suc.IH [OF Suc.prems(1) lvl this, of "q # todo"] obtain c' where c': "cache_ok ck i hp c'"
        "andThen (walk_back n ck hp c ?p (q # todo)) (\<lambda>(c, p, todo). walk_forward ck i hp (the (c p)) c todo)
          = walk_forward ck i hp (level_state ck i hp k ?p) c' (q # todo)"
        by blast
      let ?s = "level_state ck i hp (Suc k) (Some q)"
      have "cache_ok ck i hp (c'(Some q \<mapsto> ?s))"
        using c'(1) here q(2,3) by (auto simp: cache_ok_def simp del: level_state.simps)
      moreover have "andThen (walk_back fuel ck hp c p todo) (\<lambda>(c, p, todo). walk_forward ck i hp (the (c p)) c todo)
          = walk_forward ck i hp ?s (c'(Some q \<mapsto> ?s)) todo"
        using None False q m c'(2) anc by (simp add: walk_back.simps [of "Suc n"] next_state_spec [OF tree q(2)])
      ultimately show ?thesis
        using q(1) by blast
    qed
  qed
qed

lemma period_start_level:
  assumes "tree_ok hp" "hp q = Some b" "chain_times hp q"
  defines "x \<equiv> prev_n hp ((nHeight b + 1) mod Period ck) q" and "k \<equiv> (nHeight b + 1) div Period ck"
  shows "period_start ck hp (Some q) = Ret x"
    "case x of None \<Rightarrow> k = 0 | Some y \<Rightarrow> \<exists>d. hp y = Some d \<and> nHeight d + 1 = k * Period ck \<and> chain_times hp y"
proof -
  let ?r = "(nHeight b + 1) mod Period ck"
  have r: "nHeight b + 1 = k * Period ck + ?r"
    by (simp add: k_def)
  have "?r \<le> nHeight b + 1"
    by simp
  show "period_start ck hp (Some q) = Ret x"
    using GetAncestor_prev [OF assms(1,2)] prev_n_end [OF assms(1,2), of ?r] period assms(2)
    by (auto simp: period_start_def x_def nat_diff_distrib)
  show "case x of None \<Rightarrow> k = 0 | Some y \<Rightarrow> \<exists>d. hp y = Some d \<and> nHeight d + 1 = k * Period ck \<and> chain_times hp y"
  proof (cases x)
    case None
    then have "nHeight b < ?r"
      using prev_n_height [OF assms(1,2), of ?r] by (fastforce simp: x_def)
    with r None period show ?thesis
      by (cases k) auto
  next
    case (Some y)
    then obtain d where "hp y = Some d" "nHeight d + ?r = nHeight b"
      using ancestor_height [OF assms(1,2), of ?r y] by (auto simp: x_def)
    moreover have "chain_times hp y"
      using chain_times_prev [OF assms(3)] Some by (simp add: x_def)
    ultimately show ?thesis
      using r Some by simp
  qed
qed

lemma andThen_pair:
  "andThen m (\<lambda>(c, p, t). andThen (f c p t) g) = andThen (andThen m (\<lambda>(c, p, t). f c p t)) g"
  by (cases m) auto

lemma state_for_spec:
  assumes "tree_ok hp" "cache_ok ck i hp (vc i pos)" "i < 7" "\<forall>q. p = Some q \<longrightarrow> hp q \<noteq> None \<and> chain_times hp q"
  shows "\<exists>c'. cache_ok ck i hp c' \<and> GetStateFor ck i pos hp vc p = Ret (spec_state ck i hp p, vc(i := (vc i)(pos := c')))"
proof -
  obtain x k where x: "period_start ck hp p = Ret x" "spec_state ck i hp p = level_state ck i hp k x"
    "case x of None \<Rightarrow> k = 0 | Some y \<Rightarrow> \<exists>d. hp y = Some d \<and> nHeight d + 1 = k * Period ck \<and> chain_times hp y"
  proof (cases p)
    case None
    then show ?thesis
      using that [of None 0] by (simp add: period_start_def spec_state_def)
  next
    case (Some q)
    then obtain b where "hp q = Some b" "chain_times hp q"
      using assms(4) by auto
    with Some show ?thesis
      using that [OF _ _ period_start_level(2) [OF assms(1)]] period_start_level(1) [OF assms(1)] by (simp add: spec_state_def)
  qed
  have "k \<le> back_fuel hp x"
  proof (cases x)
    case None
    with x(3) show ?thesis by simp
  next
    case (Some y)
    then obtain d where "hp y = Some d" "nHeight d + 1 = k * Period ck"
      using x(3) by auto
    then show ?thesis
      using Some period by (simp add: back_fuel_def)
  qed
  from walk_level [OF assms(1,2) x(3) this, of "[]"] x(1,2) assms(3) show ?thesis
    by (auto simp: GetStateFor_def andThen_pair)
qed

lemma spec_period_next:
  assumes "tree_ok hp" "hp p' = Some b" "prev_n hp (Period ck) p' = Some p"
  shows "spec_state ck i hp (Some p') =
    (case prev_n hp ((nHeight b + 1) mod Period ck) p' of
       None \<Rightarrow> THRESHOLD_DEFINED
     | Some x \<Rightarrow> spec_next ck i hp (spec_state ck i hp (Some p)) x)"
proof -
  let ?P = "Period ck" and ?r = "(nHeight b + 1) mod Period ck"
  obtain c where c: "hp p = Some c" "nHeight c + ?P = nHeight b"
    using ancestor_height [OF assms] by blast
  then have h: "nHeight b + 1 = (nHeight c + 1) + ?P"
    by simp
  have k: "(nHeight b + 1) div ?P = Suc ((nHeight c + 1) div ?P)" "?r = (nHeight c + 1) mod ?P"
    using period div_add_self2 [of ?P "nHeight c + 1"] mod_add_self2 [of "nHeight c + 1" ?P] unfolding h by simp_all
  show ?thesis
  proof (cases "prev_n hp ?r p'")
    case None
    then show ?thesis
      using k(1) assms(2) by (simp add: spec_state_def)
  next
    case (Some x)
    have "prev_n hp ?P x = prev_n hp (?P + ?r) p'"
      using prev_n_add [OF Some, of ?P] by (simp add: add.commute)
    also have "\<dots> = prev_n hp ?r p"
      by (rule prev_n_add [OF assms(3)])
    finally show ?thesis
      using Some k assms(2) c(1) by (simp add: spec_state_def)
  qed
qed

end

section \<open>The coins\<close>

lemma coin_cases: "prm \<in> set coin_consensus \<Longrightarrow>
    prm = shc_consensus \<or> prm = emc2_consensus \<or> prm = ltc_consensus \<or> prm = testnet_consensus \<or> prm = color_consensus"
  by (auto simp: coin_consensus_def)

lemmas consensus_defs = shc_consensus_def emc2_consensus_def ltc_consensus_def testnet_consensus_def color_consensus_def

lemma deployment_bit_less: "prm \<in> set coin_consensus \<Longrightarrow> dp_bit (vDeployments prm pos) < 29"
  by (drule coin_cases) (auto simp: consensus_defs mk_deployments_def)

lemma coin_checker: "prm \<in> set coin_consensus \<Longrightarrow> threshold_checker (VersionBitsConditionChecker prm pos)"
  by (drule coin_cases) (unfold_locales; auto simp: consensus_defs mk_deployments_def VersionBitsConditionChecker_def)

lemma coin_index_less: "prm \<in> set coin_consensus \<Longrightarrow> vb_index prm < 7"
  by (drule coin_cases) (auto simp: consensus_defs)

lemma shc_coin: "shc_consensus \<in> set coin_consensus"
  by (simp add: coin_consensus_def)

interpretation shc_checker: threshold_checker "VersionBitsConditionChecker shc_consensus pos" for pos
  by (rule coin_checker) (rule shc_coin)

abbreviation (input) spec_of :: "vb_iface \<Rightarrow> blkheap \<Rightarrow> nat \<Rightarrow> blkptr option \<Rightarrow> ThresholdState" where
  "spec_of prm hp pos p \<equiv> spec_state (VersionBitsConditionChecker prm pos) (vb_index prm) hp p"

definition caches_ok :: "vb_iface \<Rightarrow> blkheap \<Rightarrow> version_bits_caches \<Rightarrow> bool" where
  "caches_ok prm hp vc \<longleftrightarrow> (\<forall>pos. cache_ok (VersionBitsConditionChecker prm pos) (vb_index prm) hp (vc (vb_index prm) pos))"

definition known :: "blkheap \<Rightarrow> blkptr option \<Rightarrow> bool" where
  "known hp p \<longleftrightarrow> (\<forall>q. p = Some q \<longrightarrow> hp q \<noteq> None \<and> chain_times hp q)"

lemma version_state:
  assumes "tree_ok hp" "prm \<in> set coin_consensus" "caches_ok prm hp vc" "known hp p"
  shows "\<exists>vc'. VersionBitsState hp vc p prm pos = Ret (spec_of prm hp pos p, vc') \<and> caches_ok prm hp vc'"
proof -
  let ?ck = "VersionBitsConditionChecker prm pos" and ?i = "vb_index prm"
  have "cache_ok ?ck ?i hp (vc ?i pos)"
    using assms(3) by (simp add: caches_ok_def)
  from threshold_checker.state_for_spec [where vc = vc, OF coin_checker [OF assms(2)] assms(1) this coin_index_less [OF assms(2)]] assms(4)
  obtain c where c: "cache_ok ?ck ?i hp c" "VersionBitsState hp vc p prm pos = Ret (spec_of prm hp pos p, vc(?i := (vc ?i)(pos := c)))"
    unfolding known_def VersionBitsState_def by blast
  then have "caches_ok prm hp (vc(?i := (vc ?i)(pos := c)))"
    using assms(3) by (auto simp: caches_ok_def)
  with c(2) show ?thesis
    by blast
qed

section \<open>New blocks keep the states\<close>

lemma past_times_fresh:
  assumes "tree_ok hp" "hp new = None"
  shows "hp p \<noteq> None \<Longrightarrow> past_times (hp(new \<mapsto> x)) i (Some p) = past_times hp i (Some p)"
proof (induction i arbitrary: p)
  case (Suc i)
  then obtain b where b: "hp p = Some b"
    by blast
  show ?case
  proof (cases "pprev b")
    case None
    with b assms(2) show ?thesis
      by auto
  next
    case (Some q)
    with tree_ok_prev [OF assms(1) b] Suc.IH [of q] b assms(2) show ?thesis
      by auto
  qed
qed simp

lemma median_fresh: "tree_ok hp \<Longrightarrow> hp new = None \<Longrightarrow> hp p \<noteq> None \<Longrightarrow> median_of (hp(new \<mapsto> x)) p = median_of hp p"
  by (simp add: median_of_def GetMedianTimePast_def past_times_fresh)

lemma back_blocks_fresh:
  assumes "tree_ok hp" "hp new = None"
  shows "hp p \<noteq> None \<Longrightarrow> back_blocks n (hp(new \<mapsto> x)) (Some p) = back_blocks n hp (Some p)"
proof (induction n arbitrary: p)
  case (Suc n)
  then obtain b where b: "hp p = Some b"
    by blast
  show ?case
  proof (cases "pprev b")
    case None
    with b assms(2) show ?thesis
      by (cases n) auto
  next
    case (Some q)
    with tree_ok_prev [OF assms(1) b] Suc.IH [of q] b assms(2) show ?thesis
      by auto
  qed
qed simp

lemma spec_next_fresh:
  assumes "tree_ok hp" "hp new = None" "hp p \<noteq> None"
  shows "spec_next ck i (hp(new \<mapsto> x)) s p = spec_next ck i hp s p"
proof -
  have "p \<noteq> new"
    using assms(2,3) by auto
  then show ?thesis
    by (simp add: spec_next_def signalling_def chain_blocks_def median_fresh [OF assms] back_blocks_fresh [OF assms] del: back_blocks.simps)
qed

lemma prev_n_known: "tree_ok hp \<Longrightarrow> hp p \<noteq> None \<Longrightarrow> prev_n hp k p = Some q \<Longrightarrow> hp q \<noteq> None"
  using ancestor_height by fastforce

lemma level_state_fresh:
  assumes "tree_ok hp" "hp new = None"
  shows "(\<forall>q. p = Some q \<longrightarrow> hp q \<noteq> None) \<Longrightarrow> level_state ck i (hp(new \<mapsto> x)) k p = level_state ck i hp k p"
proof (induction k arbitrary: p)
  case (Suc k)
  then show ?case
    using spec_next_fresh [OF assms] prev_n_fresh [OF assms] prev_n_known [OF assms(1)] by (cases p) (auto simp del: fun_upd_apply)
qed simp

lemma spec_state_fresh:
  assumes "tree_ok hp" "hp new = None" "hp p \<noteq> None"
  shows "spec_state ck i (hp(new \<mapsto> x)) (Some p) = spec_state ck i hp (Some p)"
proof -
  have "p \<noteq> new"
    using assms(2,3) by auto
  then show ?thesis
    using prev_n_known [OF assms(1,3)] by (simp add: spec_state_def Let_def prev_n_fresh [OF assms] level_state_fresh [OF assms(1,2)])
qed

lemma cache_ok_fresh:
  assumes "tree_ok hp" "hp new = None" "cache_ok ck i hp c"
  shows "cache_ok ck i (hp(new \<mapsto> x)) c"
proof -
  have "\<exists>b'. (hp(new \<mapsto> x)) p = Some b' \<and> Period ck dvd nHeight b' + 1 \<and> s = spec_state ck i (hp(new \<mapsto> x)) (Some p)"
    if "c (Some p) = Some s" for p s
    using that assms(2,3) spec_state_fresh [OF assms(1,2), of p ck i x] by (fastforce simp: cache_ok_def)
  then show ?thesis
    using assms(3) by (simp add: cache_ok_def)
qed

section \<open>Terminal states\<close>

context threshold_checker
begin

lemma level_terminal:
  assumes "tree_ok hp" "s = THRESHOLD_ACTIVE \<or> s = THRESHOLD_FAILED" "level_state ck i hp k (Some x) = s"
  shows "hp y = Some b \<Longrightarrow> prev_n hp (d * Period ck) y = Some x \<Longrightarrow> level_state ck i hp (k + d) (Some y) = s"
proof (induction d arbitrary: y b)
  case (Suc d)
  from ancestor_height [OF assms(1) Suc.prems] have "Period ck \<le> nHeight b"
    by auto
  from prev_n_height [OF assms(1) Suc.prems(1) this] obtain z c where z: "prev_n hp (Period ck) y = Some z" "hp z = Some c"
    by blast
  from prev_n_add [OF z(1), of "d * Period ck"] Suc.prems(2) have "prev_n hp (d * Period ck) z = Some x"
    by simp
  from Suc.IH [OF z(2) this] z(1) assms(2) show ?case
    by (auto simp: spec_next_def)
qed (use assms(3) in simp)

lemma spec_terminal:
  assumes "tree_ok hp" "hp p' = Some b'" "ancestor hp p p'" "s = THRESHOLD_ACTIVE \<or> s = THRESHOLD_FAILED"
    and "spec_state ck i hp (Some p) = s"
  shows "spec_state ck i hp (Some p') = s"
proof -
  let ?P = "Period ck"
  obtain j where j: "prev_n hp j p' = Some p"
    using assms(3) by (auto simp: ancestor_def)
  then obtain b where b: "hp p = Some b" "nHeight b + j = nHeight b'"
    using ancestor_height [OF assms(1,2)] by blast
  let ?k = "(nHeight b + 1) div ?P" and ?r = "(nHeight b + 1) mod ?P"
  let ?k' = "(nHeight b' + 1) div ?P" and ?r' = "(nHeight b' + 1) mod ?P"
  obtain x where x: "prev_n hp ?r p = Some x" "level_state ck i hp ?k (Some x) = s" "?k \<noteq> 0"
    using assms(4,5) b(1) by (cases "prev_n hp ?r p"; cases ?k) (auto simp: spec_state_def simp del: div_eq_0_iff)
  have le: "?k \<le> ?k'"
    using b(2) by (intro div_le_mono) simp
  have h: "nHeight b + 1 = ?k * ?P + ?r" "nHeight b' + 1 = ?k' * ?P + ?r'"
    by simp_all
  have "?k' * ?P \<ge> ?P"
    using le x(3) by simp
  then have "?r' \<le> nHeight b'"
    using h(2) period by linarith
  from prev_n_height [OF assms(1,2) this] obtain y c where y: "prev_n hp ?r' p' = Some y" "hp y = Some c"
    by blast
  have "prev_n hp (j + ?r) p' = Some x"
    using prev_n_add [OF j] x(1) by simp
  moreover have "j + ?r = ?r' + (?k' - ?k) * ?P"
  proof -
    have "?k' * ?P = ?k * ?P + (?k' - ?k) * ?P"
      using le by (simp only: add_mult_distrib [symmetric] le_add_diff_inverse)
    with h b(2) show ?thesis
      by linarith
  qed
  ultimately have "prev_n hp ((?k' - ?k) * ?P) y = Some x"
    using prev_n_add [OF y(1)] by simp
  from level_terminal [OF assms(1,4) x(2) y(2) this] le y(1) assms(2) show ?thesis
    by (simp add: spec_state_def)
qed

end

section \<open>Runs\<close>

text \<open>
  The states that creating blocks and asking for states lead to. Questions are about chains of
  blocks whose times \<open>AcceptBlock\<close> accepts.
\<close>

inductive vb_reachable :: "checker \<Rightarrow> nat \<Rightarrow> nat \<Rightarrow> blk_chain \<Rightarrow> version_bits_caches \<Rightarrow> bool" for ck i pos where
  start: "vb_reachable ck i pos \<lparr>ch_heap = Map.empty, ch_table = Map.empty, ch_best = None\<rparr> (\<lambda>_ _. Map.empty)"
| create: "vb_reachable ck i pos st vc \<Longrightarrow> ch_heap st new = None \<Longrightarrow> hd_hashPrevBlock block \<noteq> hash \<Longrightarrow>
    CreateBlockIndex ifaceIndex st block hash new junk = Ret (st', p) \<Longrightarrow> vb_reachable ck i pos st' vc"
| query: "vb_reachable ck i pos st vc \<Longrightarrow> known (ch_heap st) p \<Longrightarrow>
    GetStateFor ck i pos (ch_heap st) vc p = Ret (s, vc') \<Longrightarrow> vb_reachable ck i pos st vc'"

lemma vb_reachable_chain: "vb_reachable ck i pos st vc \<Longrightarrow> reachable_chain st"
  by (induction rule: vb_reachable.induct) (auto intro: reachable_chain.intros)

lemma reachable_vb: "reachable_chain st \<Longrightarrow> vb_reachable ck i pos st (\<lambda>_ _. Map.empty)"
  by (induction rule: reachable_chain.induct) (auto intro: vb_reachable.intros)

lemma create_cases:
  assumes "chain_ok st" "ch_heap st new = None" "hd_hashPrevBlock block \<noteq> hash" "CreateBlockIndex i st block hash new junk = Ret (st', p)"
  shows "st' = st \<or> (\<exists>b. ch_heap st' = (ch_heap st)(new \<mapsto> b))"
  using create_ok [OF assms(1) _ assms(2,3), of i junk] assms(4) by (cases "ch_table st hash") (auto simp: CreateBlockIndex_def)

context threshold_checker
begin

lemma vb_reachable_cache:
  assumes "i < 7"
  shows "vb_reachable ck i pos st vc \<Longrightarrow> cache_ok ck i (ch_heap st) (vc i pos)"
proof (induction rule: vb_reachable.induct)
  case start
  show ?case
    by (simp add: cache_ok_def)
next
  case (create st vc new block hash ifaceIndex junk st' p)
  note ok = reachable_ok [OF vb_reachable_chain [OF create.hyps(1)]]
  from create_cases [OF ok create.hyps(2-4)] show ?case
    using cache_ok_fresh [OF chain_okD(1) [OF ok] create.hyps(2) create.IH] create.IH by metis
next
  case (query st vc p s vc')
  note tree = reachable_tree [OF vb_reachable_chain [OF query.hyps(1)]]
  from state_for_spec [where vc = vc and pos = pos and p = p, OF tree query.IH assms] query.hyps(2,3) show ?case
    by (auto simp: known_def)
qed

lemma vb_state:
  assumes "i < 7" "vb_reachable ck i pos st vc" "known (ch_heap st) p"
  shows "\<exists>vc'. GetStateFor ck i pos (ch_heap st) vc p = Ret (spec_state ck i (ch_heap st) p, vc') \<and> vb_reachable ck i pos st vc'"
  using state_for_spec [where vc = vc and pos = pos and p = p, OF reachable_tree [OF vb_reachable_chain [OF assms(2)]]
      vb_reachable_cache [OF assms(1,2)] assms(1)] vb_reachable.query [OF assms(2,3)] assms(3)
  by (auto simp: known_def)

end

section \<open>Block versions\<close>

definition wanted :: "vb_iface \<Rightarrow> blkheap \<Rightarrow> blkptr option \<Rightarrow> nat \<Rightarrow> bool" where
  "wanted prm hp p pos \<longleftrightarrow> spec_of prm hp pos p = THRESHOLD_LOCKED_IN \<or> spec_of prm hp pos p = THRESHOLD_STARTED"

lemma version_loop_bits:
  assumes "tree_ok hp" "prm \<in> set coin_consensus" "known hp p"
  shows "caches_ok prm hp vc \<Longrightarrow>
    \<exists>ver' vc'. version_loop hp prm p ps ver vc = Ret (ver', vc') \<and> caches_ok prm hp vc'
      \<and> (\<forall>n. bit ver' n \<longleftrightarrow> bit ver n \<or> (\<exists>pos \<in> set ps. wanted prm hp p pos \<and> dp_bit (vDeployments prm pos) = n))"
proof (induction ps arbitrary: ver vc)
  case (Cons pos ps)
  from version_state [OF assms(1,2) Cons.prems assms(3), of pos] obtain vc'
    where vc': "VersionBitsState hp vc p prm pos = Ret (spec_of prm hp pos p, vc')" "caches_ok prm hp vc'"
    by blast
  let ?v = "if wanted prm hp p pos then ver OR VersionBitsMask prm pos else ver"
  have v: "bit ?v n \<longleftrightarrow> bit ver n \<or> (wanted prm hp p pos \<and> dp_bit (vDeployments prm pos) = n)" for n
    by (auto simp: bit_or_iff VersionBitsMask_def bit_exp_iff)
  from Cons.IH [OF vc'(2), of ?v] vc'(1) show ?case
    by (auto simp: v wanted_def [symmetric])
qed simp

lemma top_bits: "bit (0xE0000000 :: nat) n \<longleftrightarrow> n \<in> {29, 30, 31}" "bit (0x20000000 :: nat) n \<longleftrightarrow> n = 29"
proof -
  have e: "(0xE0000000 :: nat) = push_bit 29 (mask 3)" "(0x20000000 :: nat) = 2 ^ 29"
    by (simp_all add: push_bit_eq_mult mask_eq_exp_minus_1)
  show "bit (0xE0000000 :: nat) n \<longleftrightarrow> n \<in> {29, 30, 31}"
    by (simp only: e(1) bit_push_bit_iff bit_mask_iff) auto
  show "bit (0x20000000 :: nat) n \<longleftrightarrow> n = 29"
    by (simp only: e(2) bit_exp_iff) auto
qed

lemma signals_bits:
  assumes "\<And>n. bit ver n \<longleftrightarrow> n = 29 \<or> (n < 29 \<and> Q n)" "d < 29" "nVersion b = ver"
  shows "signals (push_bit d 1) b \<longleftrightarrow> Q d"
proof -
  have "nVersion b AND 0xE0000000 = 0x20000000"
    by (rule bit_eqI) (auto simp: bit_and_iff assms(1,3) top_bits)
  moreover have "nVersion b AND push_bit d 1 \<noteq> 0 \<longleftrightarrow> bit (nVersion b) d"
    by (simp add: push_bit_eq_mult and_exp_eq_0_iff_not_bit)
  ultimately show ?thesis
    using assms by (simp add: signals_def)
qed

section \<open>An example\<close>

definition sample_checker :: checker where
  "sample_checker = \<lparr>Condition = \<lambda>b. True, BeginTime = 50, EndTime = 1000, Period = 1, Threshold = 1\<rparr>"

lemma sample_checker_fields [simp]: "Period sample_checker = 1" "BeginTime sample_checker = 50" "EndTime sample_checker = 1000"
  "Threshold sample_checker = 1"
  by (simp_all add: sample_checker_def)

lemma past_times_numeral:
  "past_times hp (numeral n) (Some p) =
    (case hp p of None \<Rightarrow> Segv | Some b \<Rightarrow> andThen (past_times hp (pred_numeral n) (pprev b)) (\<lambda>ts. Ret (nTime b # ts)))"
  by (simp add: numeral_eq_Suc)

lemma sample_medians:
  assumes "hp = [0 \<mapsto> b, 1 \<mapsto> c, 2 \<mapsto> d]" "pprev b = None" "pprev c = Some 0" "pprev d = Some 1" "nTime b = 100" "nTime c = 200" "nTime d = 300"
  shows "median_of hp 0 = 100" "median_of hp 1 = 200" "median_of hp 2 = 200"
  using assms(2-) unfolding assms(1) median_of_def GetMedianTimePast_def by (simp_all add: past_times_numeral)

lemma chain_times_all: "(\<And>x b q. hp x = Some b \<Longrightarrow> pprev b = Some q \<Longrightarrow> median_of hp q < int (nTime b)) \<Longrightarrow> chain_times hp p"
  by (auto simp: chain_times_def)

lemma sample_run:
  "\<exists>st b. vb_reachable sample_checker 3 0 st (\<lambda>_ _. Map.empty) \<and> ch_heap st 2 = Some b \<and> (\<forall>p \<in> {0, 1, 2}. known (ch_heap st) (Some p))
    \<and> (\<forall>c. ch_heap st 0 = Some c \<longrightarrow> nHeight c = 0) \<and> nHeight b = 2
    \<and> prev_n (ch_heap st) 1 2 = Some 1 \<and> prev_n (ch_heap st) 1 1 = Some 0
    \<and> median_of (ch_heap st) 0 = 100 \<and> median_of (ch_heap st) 1 = 200 \<and> signalling sample_checker 3 (ch_heap st) 1 = 1
    \<and> (\<exists>vc. GetStateFor sample_checker 3 0 (ch_heap st) (\<lambda>_ _. Map.empty) (Some 0) = Ret (THRESHOLD_STARTED, vc))"
proof -
  obtain st b c d where st: "reachable_chain st" "ch_heap st = [0 \<mapsto> b, 1 \<mapsto> c, 2 \<mapsto> d]" "pprev b = None" "pprev c = Some 0"
    "pprev d = Some 1" "nHeight b = 0" "nHeight c = 1" "nHeight d = 2" "nTime b = 100" "nTime c = 200" "nTime d = 300"
    using sample_chain_longer by blast
  let ?hp = "ch_heap st"
  note m = sample_medians [OF st(2-5,9-11)]
  have t: "chain_times ?hp p" for p
    using m st by (intro chain_times_all) (auto split: if_splits)
  have r: "vb_reachable sample_checker 3 0 st (\<lambda>_ _. Map.empty)"
    by (rule reachable_vb [OF st(1)])
  have tc: "threshold_checker sample_checker"
    by unfold_locales (simp_all add: sample_checker_def)
  have "spec_state sample_checker 3 ?hp (Some 0) = THRESHOLD_STARTED"
    using st m by (simp add: spec_state_def sample_checker_def spec_next_def)
  with threshold_checker.vb_state [OF tc _ r, of "Some 0"] t st(2) have s: "\<exists>vc. GetStateFor sample_checker 3 0 ?hp (\<lambda>_ _. Map.empty) (Some 0) = Ret (THRESHOLD_STARTED, vc)"
    by (auto simp: known_def)
  have "signalling sample_checker 3 ?hp 1 = 1"
    using st by (simp add: signalling_def sample_checker_def counted_def uses_algo_def chain_blocks_def)
  with r s t m st show ?thesis
    by (intro exI [of _ st] exI [of _ d]) (simp add: known_def)
qed

section \<open>Properties\<close>

text \<open>
  C4. The cache, the early end of the walk and the skipping of whole periods do not change a state:
  in every run, \<open>GetStateFor\<close> returns the state that computing all periods from the first one
  gives, and leaves a cache from which the next question is answered as well.
\<close>
theorem GetStateFor_refines:
  assumes "0 < Period ck" "BeginTime ck \<le> EndTime ck" "i < 7" "vb_reachable ck i pos st vc" "known (ch_heap st) p"
  shows "\<exists>vc'. GetStateFor ck i pos (ch_heap st) vc p = Ret (spec_state ck i (ch_heap st) p, vc') \<and> vb_reachable ck i pos st vc'"
  by (rule threshold_checker.vb_state [OF threshold_checker.intro]) (use assms in auto)

theorem GetStateFor_refines_witness:
  "\<exists>(st :: blk_chain) vc'. GetStateFor sample_checker 3 0 (ch_heap st) (\<lambda>_ _. Map.empty) (Some 2) = Ret (spec_state sample_checker 3 (ch_heap st) (Some 2), vc')"
proof -
  obtain st where st: "vb_reachable sample_checker 3 0 st (\<lambda>_ _. Map.empty)" "known (ch_heap st) (Some 2)"
    using sample_run by blast
  from GetStateFor_refines [OF _ _ _ this] show ?thesis
    by auto
qed

text \<open>
  C23. A deployment with support activates: if it has started at a block, and at the end of the next
  period the timeout has not passed and enough of the blocks counted there signal, it is locked in
  one period after the block and active two periods after it.
\<close>
theorem GetStateFor_activates:
  fixes st :: blk_chain
  defines "hp \<equiv> ch_heap st"
  assumes "0 < Period ck" "BeginTime ck \<le> EndTime ck" "i < 7" "vb_reachable ck i pos st vc"
    and p2: "hp p2 = Some b" "chain_times hp p2" "prev_n hp (Period ck) p2 = Some p1" "prev_n hp (Period ck) p1 = Some p0"
    and started: "GetStateFor ck i pos hp vc (Some p0) = Ret (THRESHOLD_STARTED, vc0)"
    and x: "prev_n hp ((nHeight b + 1) mod Period ck) p1 = Some x" "median_of hp x < EndTime ck" "Threshold ck \<le> signalling ck i hp x"
  shows "\<exists>vc1 vc2. GetStateFor ck i pos hp vc (Some p1) = Ret (THRESHOLD_LOCKED_IN, vc1)
    \<and> GetStateFor ck i pos hp vc (Some p2) = Ret (THRESHOLD_ACTIVE, vc2)"
proof -
  have tc: "threshold_checker ck"
    by (rule threshold_checker.intro) (use assms in auto)
  have tree: "tree_ok hp"
    using reachable_tree [OF vb_reachable_chain [OF assms(5)]] by (simp add: hp_def)
  obtain b1 where b1: "hp p1 = Some b1" "nHeight b1 + Period ck = nHeight b"
    using ancestor_height [OF tree p2(1,3)] by blast
  obtain b0 where b0: "hp p0 = Some b0"
    using ancestor_height [OF tree b1(1) p2(4)] by blast
  have t1: "chain_times hp p1"
    by (rule chain_times_prev [OF p2(2,3)])
  have t0: "chain_times hp p0"
    by (rule chain_times_prev [OF t1 p2(4)])
  note state = threshold_checker.vb_state [OF tc assms(4,5), folded hp_def]
  have s0: "spec_state ck i hp (Some p0) = THRESHOLD_STARTED"
    using state [of "Some p0"] started b0 t0 by (auto simp: known_def)
  have r: "(nHeight b + 1) mod Period ck = (nHeight b1 + 1) mod Period ck"
    using mod_add_self2 [of "nHeight b1 + 1" "Period ck"] b1(2) by (simp add: ac_simps)
  have s1: "spec_state ck i hp (Some p1) = THRESHOLD_LOCKED_IN"
    using threshold_checker.spec_period_next [OF tc tree b1(1) p2(4), of i] s0 x r by (simp add: spec_next_def)
  obtain y where "prev_n hp ((nHeight b + 1) mod Period ck) p2 = Some y"
  proof -
    obtain c :: CBlockIndex where "nHeight c + (nHeight b + 1) mod Period ck = nHeight b1"
      using ancestor_height [OF tree b1(1) x(1)] by blast
    then show ?thesis
      using prev_n_height [OF tree p2(1), of "(nHeight b + 1) mod Period ck"] b1(2) that by auto
  qed
  then have "spec_state ck i hp (Some p2) = THRESHOLD_ACTIVE"
    using threshold_checker.spec_period_next [OF tc tree p2(1,3), of i] s1 by (simp add: spec_next_def)
  then show ?thesis
    using state [of "Some p1"] state [of "Some p2"] s1 b1(1) t1 p2(1,2) by (auto simp: known_def)
qed

theorem GetStateFor_activates_witness:
  "\<exists>(st :: blk_chain) vc1 vc2. GetStateFor sample_checker 3 0 (ch_heap st) (\<lambda>_ _. Map.empty) (Some 1) = Ret (THRESHOLD_LOCKED_IN, vc1)
    \<and> GetStateFor sample_checker 3 0 (ch_heap st) (\<lambda>_ _. Map.empty) (Some 2) = Ret (THRESHOLD_ACTIVE, vc2)"
proof -
  obtain st b vc where st: "vb_reachable sample_checker 3 0 st (\<lambda>_ _. Map.empty)" "ch_heap st 2 = Some b" "\<forall>p \<in> {0, 1, 2}. known (ch_heap st) (Some p)"
    "nHeight b = 2" "prev_n (ch_heap st) 1 2 = Some 1" "prev_n (ch_heap st) 1 1 = Some 0" "median_of (ch_heap st) 1 = 200"
    "signalling sample_checker 3 (ch_heap st) 1 = 1"
    "GetStateFor sample_checker 3 0 (ch_heap st) (\<lambda>_ _. Map.empty) (Some 0) = Ret (THRESHOLD_STARTED, vc)"
    using sample_run by blast
  from GetStateFor_activates [OF _ _ _ st(1,2) _ _ _ st(9), of 1 1] st(3-8) show ?thesis
    by (auto simp: known_def)
qed

text \<open>
  C24. Active and failed deployments stay so: every later block of the chain has the same state.
\<close>
theorem GetStateFor_terminal:
  assumes "0 < Period ck" "BeginTime ck \<le> EndTime ck" "i < 7" "vb_reachable ck i pos st vc" "known (ch_heap st) (Some p')"
    and "ancestor (ch_heap st) p p'" "GetStateFor ck i pos (ch_heap st) vc (Some p) = Ret (s, vc1)"
    and "s = THRESHOLD_ACTIVE \<or> s = THRESHOLD_FAILED"
  shows "\<exists>vc2. GetStateFor ck i pos (ch_heap st) vc (Some p') = Ret (s, vc2)"
proof -
  have tc: "threshold_checker ck"
    by (rule threshold_checker.intro) (use assms in auto)
  note tree = reachable_tree [OF vb_reachable_chain [OF assms(4)]]
  obtain b k where b: "ch_heap st p' = Some b" "prev_n (ch_heap st) k p' = Some p"
    using assms(5,6) by (auto simp: known_def ancestor_def)
  have "known (ch_heap st) (Some p)"
    using assms(5) chain_times_prev [OF _ b(2)] ancestor_height [OF tree b] by (auto simp: known_def)
  from threshold_checker.vb_state [OF tc assms(3,4) this] assms(7) have "spec_state ck i (ch_heap st) (Some p) = s"
    by auto
  from threshold_checker.spec_terminal [OF tc tree b(1) assms(6,8) this] threshold_checker.vb_state [OF tc assms(3-5)] show ?thesis
    by auto
qed

theorem GetStateFor_terminal_witness:
  "\<exists>(st :: blk_chain) vc. GetStateFor (sample_checker\<lparr>EndTime := 60\<rparr>) 3 0 (ch_heap st) (\<lambda>_ _. Map.empty) (Some 2) = Ret (THRESHOLD_FAILED, vc)"
proof -
  let ?ck = "sample_checker\<lparr>EndTime := 60\<rparr>"
  obtain st where st: "vb_reachable sample_checker 3 0 st (\<lambda>_ _. Map.empty)" "\<forall>p \<in> {0, 1, 2}. known (ch_heap st) (Some p)" "prev_n (ch_heap st) 1 2 = Some 1"
     "\<forall>c. ch_heap st 0 = Some c \<longrightarrow> nHeight c = 0" "prev_n (ch_heap st) 1 1 = Some 0" "median_of (ch_heap st) 0 = 100"
    using sample_run by blast
  then have r: "vb_reachable ?ck 3 0 st (\<lambda>_ _. Map.empty)"
    by (intro reachable_vb vb_reachable_chain)
  have a: "ancestor (ch_heap st) 0 2"
    unfolding ancestor_def using prev_n_add [OF st(3), of 1] st(5) by metis
  have "spec_state ?ck 3 (ch_heap st) (Some 0) = THRESHOLD_FAILED"
    using st by (auto simp: spec_state_def sample_checker_def spec_next_def known_def)
  moreover have "threshold_checker ?ck"
    by unfold_locales (simp_all add: sample_checker_def)
  ultimately obtain vc where "GetStateFor ?ck 3 0 (ch_heap st) (\<lambda>_ _. Map.empty) (Some 0) = Ret (THRESHOLD_FAILED, vc)"
    using threshold_checker.vb_state [OF _ _ r, of "Some 0"] st(2) by auto
  from GetStateFor_terminal [OF _ _ _ r _ a this] st(2) show ?thesis
    by (auto simp: sample_checker_def)
qed

text \<open>
  C30. The version of a new block: its top bits say that it uses version bits, and it signals for
  exactly the bits of the deployments that have started or are locked in.
\<close>
theorem core_ComputeBlockVersion_signals:
  assumes "reachable_chain st" "prm \<in> set coin_consensus" "caches_ok prm (ch_heap st) vc" "known (ch_heap st) p" "d < 9"
  shows "\<exists>ver vc'. core_ComputeBlockVersion (ch_heap st) vc prm p = Ret (ver, vc') \<and> caches_ok prm (ch_heap st) vc'
    \<and> (\<forall>b. nVersion b = ver \<longrightarrow> Condition (VersionBitsConditionChecker prm d) b =
        (\<exists>pos < 9. wanted prm (ch_heap st) p pos \<and> dp_bit (vDeployments prm pos) = dp_bit (vDeployments prm d)))"
proof -
  from version_loop_bits [OF reachable_tree [OF assms(1)] assms(2,4,3), of "[0..<9]" "0x20000000"]
  obtain ver vc' where ver: "core_ComputeBlockVersion (ch_heap st) vc prm p = Ret (ver, vc')" "caches_ok prm (ch_heap st) vc'"
    "\<And>n. bit ver n \<longleftrightarrow> n = 29 \<or> (\<exists>pos < 9. wanted prm (ch_heap st) p pos \<and> dp_bit (vDeployments prm pos) = n)"
    by (auto simp: core_ComputeBlockVersion_def top_bits Bex_def)
  have "bit ver n \<longleftrightarrow> n = 29 \<or> n < 29 \<and> (\<exists>pos < 9. wanted prm (ch_heap st) p pos \<and> dp_bit (vDeployments prm pos) = n)" for n
    using ver(3) deployment_bit_less [OF assms(2)] by auto
  from signals_bits [OF this deployment_bit_less [OF assms(2)]] ver(1,2) show ?thesis
    by (auto simp: VersionBitsConditionChecker_def VersionBitsMask_def)
qed

theorem core_ComputeBlockVersion_signals_witness:
  "\<exists>(st :: blk_chain) ver vc'. core_ComputeBlockVersion (ch_heap st) (\<lambda>_ _. Map.empty) shc_consensus (Some 2) = Ret (ver, vc')
    \<and> (\<forall>b. nVersion b = ver \<longrightarrow> \<not> Condition (VersionBitsConditionChecker shc_consensus 2) b)"
proof -
  obtain st b where st: "vb_reachable sample_checker 3 0 st (\<lambda>_ _. Map.empty)" "\<forall>p \<in> {0, 1, 2}. known (ch_heap st) (Some p)"
    "ch_heap st 2 = Some b" "nHeight b = 2"
    using sample_run by blast
  have "\<not> wanted shc_consensus (ch_heap st) (Some 2) pos" for pos
    using st(3,4) by (simp add: wanted_def spec_state_def shc_consensus_def VersionBitsConditionChecker_def)
  then show ?thesis
    using core_ComputeBlockVersion_signals [OF vb_reachable_chain [OF st(1)] shc_coin, of "\<lambda>_ _. Map.empty" "Some 2" 2] st(2)
    by (auto simp: caches_ok_def cache_ok_def)
qed

end
