(* ===== verification/Header_Accept.thy ===== *)
theory Header_Accept
  imports Version_Bits
begin

text \<open>
  Accepting block headers (\<open>validation.cpp\<close>): the check of the proof of work, the checks in the
  context of the previous block, \<open>core_AcceptBlockHeader\<close> and \<open>ProcessNewBlockHeaders\<close>. The hash
  functions of headers are parameters.
\<close>

unbundle bit_operations_syntax

section \<open>Checking a header\<close>

text \<open>
  The hash of a header and its proof-of-work hash are parameters, and what freshly allocated memory
  holds.
\<close>

record header_env =
  hash_of :: "CBlockHeader \<Rightarrow> blkhash"
  pow_of :: "CBlockHeader \<Rightarrow> nat"
  memory :: "blkptr \<Rightarrow> blkptr option"

text \<open>The low 32 bytes of the magnitude.\<close>

definition getuint256 :: "bignum \<Rightarrow> nat" where
  "getuint256 bn = snd bn mod 2 ^ 256"

definition CheckBlockHeader :: "header_env \<Rightarrow> CBlockHeader \<Rightarrow> bool" where
  "CheckBlockHeader env pblock \<longleftrightarrow>
     (let bnTarget = SetCompact (hd_bits pblock)
      in \<not> pow_of env pblock > getuint256 bnTarget)"

text \<open>Heights of the coins are compared as unsigned values.\<close>

definition at_height :: "int \<Rightarrow> nat \<Rightarrow> bool" where
  "at_height bipHeight h \<longleftrightarrow> bipHeight \<noteq> -1 \<and> h \<ge> nat (bipHeight mod 2 ^ 32)"

definition obsolete_version :: "vb_iface \<Rightarrow> nat \<Rightarrow> nat \<Rightarrow> bool" where
  "obsolete_version iface ver h \<longleftrightarrow>
     (at_height (BIP34Height iface) h \<and> ver < 2) \<or>
     (at_height (BIP66Height iface) h \<and> ver < 3) \<or>
     (at_height (BIP65Height iface) h \<and> ver < 4)"

definition next_height :: "blkheap \<Rightarrow> blkptr option \<Rightarrow> nat res" where
  "next_height hp pindexPrev =
     (case pindexPrev of
        None \<Rightarrow> Ret 0
      | Some p \<Rightarrow> (case hp p of None \<Rightarrow> Segv | Some blk \<Rightarrow> Ret (nHeight blk + 1)))"

definition ContextualCheckBlockHeader ::
  "blkheap \<Rightarrow> version_bits_caches \<Rightarrow> vb_iface \<Rightarrow> CBlockHeader \<Rightarrow> blkptr option \<Rightarrow> (bool \<times> version_bits_caches) res" where
  "ContextualCheckBlockHeader hp vcache iface block pindexPrev =
     andThen (next_height hp pindexPrev)
       (\<lambda>h.
         if vb_index iface \<noteq> 3 \<and> obsolete_version iface (hd_version block) h then Ret (False, vcache)
         else if hd_version block < 0x20000000
         then andThen (IsWitnessEnabled hp vcache iface pindexPrev)
                (\<lambda>(enabled, vcache). Ret (\<not> enabled, vcache))
         else Ret (True, vcache))"

section \<open>Accepting headers\<close>

text \<open>The state: the block table, the caches and the next pointer that an allocation returns.\<close>

record node =
  nd_chain :: blk_chain
  nd_caches :: version_bits_caches
  nd_next :: blkptr

definition GetBlockIndexByHash :: "blk_chain \<Rightarrow> blkhash \<Rightarrow> blkptr option" where
  "GetBlockIndexByHash st hash = ch_table st hash"

definition failed_at :: "blk_chain \<Rightarrow> blkptr \<Rightarrow> bool" where
  "failed_at st p \<longleftrightarrow> nStatus (the (ch_heap st p)) AND BLOCK_FAILED_MASK \<noteq> 0"

definition create_index :: "header_env \<Rightarrow> vb_iface \<Rightarrow> node \<Rightarrow> CBlockHeader \<Rightarrow> (bool \<times> blkptr option \<times> node) res" where
  "create_index env iface nd block =
     andThen (CreateBlockIndex (vb_index iface) (nd_chain nd) block (hash_of env block) (nd_next nd) (memory env (nd_next nd)))
       (\<lambda>(st, p). Ret (True, Some p, nd\<lparr>nd_chain := st, nd_next := nd_next nd + 1\<rparr>))"

text \<open>The index found is written to \<open>pindex_p\<close>, which is not changed when the header is refused earlier.\<close>

definition core_AcceptBlockHeader ::
  "header_env \<Rightarrow> vb_iface \<Rightarrow> node \<Rightarrow> CBlockHeader \<Rightarrow> blkptr option \<Rightarrow> (bool \<times> blkptr option \<times> node) res" where
  "core_AcceptBlockHeader env iface nd block pindex_p =
     (let st = nd_chain nd;
          pindex = GetBlockIndexByHash st (hash_of env block);
          pindexPrev = GetBlockIndexByHash st (hd_hashPrevBlock block)
      in if hd_hashPrevBlock block \<noteq> 0
         then (case pindex of
                 Some p \<Rightarrow> Ret (\<not> failed_at st p, Some p, nd)
               | None \<Rightarrow>
                 (case pindexPrev of
                    None \<Rightarrow> Ret (False, pindex_p, nd)
                  | Some q \<Rightarrow>
                    if failed_at st q then Ret (False, pindex_p, nd)
                    else if \<not> CheckBlockHeader env block then Ret (False, pindex_p, nd)
                    else andThen (ContextualCheckBlockHeader (ch_heap st) (nd_caches nd) iface block pindexPrev)
                           (\<lambda>(ok, vcache).
                             let nd = nd\<lparr>nd_caches := vcache\<rparr>
                             in if ok then create_index env iface nd block else Ret (False, pindex_p, nd))))
         else (case pindex of
                 Some p \<Rightarrow> Ret (True, Some p, nd)
               | None \<Rightarrow> create_index env iface nd block))"

fun ProcessNewBlockHeaders ::
  "header_env \<Rightarrow> vb_iface \<Rightarrow> node \<Rightarrow> CBlockHeader list \<Rightarrow> blkptr option \<Rightarrow> (bool \<times> blkptr option \<times> node) res" where
  "ProcessNewBlockHeaders env iface nd [] ppindex = Ret (True, ppindex, nd)"
| "ProcessNewBlockHeaders env iface nd (header # headers) ppindex =
     andThen (core_AcceptBlockHeader env iface nd header ppindex)
       (\<lambda>(ok, ppindex, nd).
         if ok then ProcessNewBlockHeaders env iface nd headers ppindex else Ret (False, ppindex, nd))"

section \<open>States are always found\<close>

text \<open>Whatever the caches hold, asking for a state returns.\<close>

lemma walk_back_returns:
  assumes tree: "tree_ok hp" and period: "0 < Period ck"
  shows "(case p of None \<Rightarrow> True | Some q \<Rightarrow> \<exists>b. hp q = Some b \<and> nHeight b < fuel) \<Longrightarrow> (\<forall>q \<in> set todo. hp q \<noteq> None) \<Longrightarrow>
    \<exists>c' p' todo'. walk_back fuel ck hp c p todo = Ret (c', p', todo') \<and> (\<forall>q \<in> set todo'. hp q \<noteq> None)"
proof (induction fuel arbitrary: p todo)
  case 0
  then have "p = None"
    by (auto split: option.splits)
  with 0 show ?case
    by (simp add: walk_back.simps)
next
  case (Suc n)
  show ?case
  proof (cases p)
    case None
    with Suc.prems(2) show ?thesis
      by (simp add: walk_back.simps)
  next
    case (Some q)
    with Suc.prems(1) obtain b where b: "hp q = Some b" "nHeight b < Suc n"
      by auto
    obtain m where m: "GetMedianTimePast hp q = Ret m"
      using median_of_ret [OF tree b(1)] by blast
    let ?r = "if 0 \<le> int (nHeight b) - int (Period ck) then prev_n hp (Period ck) q else None"
    have r: "GetAncestor hp q (int (nHeight b) - int (Period ck)) = Ret ?r"
      using GetAncestor_prev [OF tree b(1)] by (simp add: nat_diff_distrib)
    have "case ?r of None \<Rightarrow> True | Some x \<Rightarrow> \<exists>d. hp x = Some d \<and> nHeight d < n"
      using ancestor_height [OF tree b(1)] b(2) period by (fastforce split: option.splits)
    from Suc.IH [OF this, of "q # todo"] Suc.prems(2) b(1) Some m r show ?thesis
      by (auto simp: walk_back.simps [of "Suc n"])
  qed
qed

lemma walk_forward_returns:
  assumes "tree_ok hp"
  shows "\<forall>q \<in> set todo. hp q \<noteq> None \<Longrightarrow> \<exists>s' c'. walk_forward ck i hp s c todo = Ret (s', c')"
proof (induction todo arbitrary: s c)
  case (Cons q todo)
  then obtain b where "hp q = Some b"
    by auto
  then show ?case
    using Cons next_state_spec [OF assms] by simp
qed simp

lemma state_for_returns:
  assumes "tree_ok hp" "0 < Period ck" "\<forall>q. p = Some q \<longrightarrow> hp q \<noteq> None"
  shows "\<exists>s vc'. GetStateFor ck i pos hp vc p = Ret (s, vc')"
proof -
  obtain x where x: "period_start ck hp p = Ret x" "\<forall>q. x = Some q \<longrightarrow> hp q \<noteq> None"
  proof (cases p)
    case None
    then show ?thesis
      using that by (simp add: period_start_def)
  next
    case (Some q)
    then obtain b where b: "hp q = Some b"
      using assms(3) by auto
    then show ?thesis
      using that assms(2) Some GetAncestor_prev [OF assms(1) b] prev_n_known [OF assms(1), of q]
      by (auto simp: period_start_def split: if_splits)
  qed
  have "case x of None \<Rightarrow> True | Some q \<Rightarrow> \<exists>b. hp q = Some b \<and> nHeight b < back_fuel hp x"
    using x(2) by (auto simp: back_fuel_def split: option.splits)
  from walk_back_returns [OF assms(1,2) this, of "[]" "vc i pos"] obtain c' p' todo'
    where w: "walk_back (back_fuel hp x) ck hp (vc i pos) x [] = Ret (c', p', todo')" "\<forall>q \<in> set todo'. hp q \<noteq> None"
    by auto
  from walk_forward_returns [OF assms(1) w(2), of ck i "the (c' p')" c'] w(1) x(1) show ?thesis
    by (auto simp: GetStateFor_def)
qed

section \<open>Headers keep the table\<close>

definition node_inv :: "node \<Rightarrow> bool" where
  "node_inv nd \<longleftrightarrow> chain_ok (nd_chain nd) \<and> (\<forall>p \<ge> nd_next nd. ch_heap (nd_chain nd) p = None)"

lemma contextual_returns:
  assumes "tree_ok hp" "iface \<in> set coin_consensus" "hp q = Some c"
  shows "\<exists>ok vc'. ContextualCheckBlockHeader hp vc iface block (Some q) = Ret (ok, vc')
    \<and> (ok \<longrightarrow> vb_index iface \<noteq> 3 \<longrightarrow> \<not> obsolete_version iface (hd_version block) (nHeight c + 1))"
proof -
  let ?ck = "VersionBitsConditionChecker iface 2"
  have "0 < Period ?ck"
    using threshold_checker.period [OF coin_checker [OF assms(2)]] .
  from state_for_returns [OF assms(1) this, of "Some q" "vb_index iface" 2 vc] assms(3) show ?thesis
    by (auto simp: ContextualCheckBlockHeader_def next_height_def IsWitnessEnabled_def VersionBitsState_def)
qed

lemma create_index_ok:
  assumes "node_inv nd" "ch_table (nd_chain nd) (hash_of env block) = None" "hd_hashPrevBlock block \<noteq> hash_of env block"
  shows "\<exists>nd' b. create_index env iface nd block = Ret (True, Some (nd_next nd), nd') \<and> node_inv nd'
    \<and> ch_heap (nd_chain nd') = (ch_heap (nd_chain nd))(nd_next nd \<mapsto> b)
    \<and> ch_table (nd_chain nd') = (ch_table (nd_chain nd))(hash_of env block \<mapsto> nd_next nd)
    \<and> pprev b = ch_table (nd_chain nd) (hd_hashPrevBlock block)
    \<and> nHeight b = (case pprev b of None \<Rightarrow> 0 | Some q \<Rightarrow> Suc (nHeight (the (ch_heap (nd_chain nd) q))))"
proof -
  have "chain_ok (nd_chain nd)" "ch_heap (nd_chain nd) (nd_next nd) = None"
    using assms(1) by (simp_all add: node_inv_def)
  from create_ok [OF this(1) assms(2) this(2) assms(3), of "vb_index iface" "memory env (nd_next nd)"] obtain st b where
    st: "CreateBlockIndex (vb_index iface) (nd_chain nd) block (hash_of env block) (nd_next nd) (memory env (nd_next nd)) = Ret (st, nd_next nd)"
    "chain_ok st" "ch_heap st = (ch_heap (nd_chain nd))(nd_next nd \<mapsto> b)"
    "ch_table st = (ch_table (nd_chain nd))(hash_of env block \<mapsto> nd_next nd)"
    "pprev b = ch_table (nd_chain nd) (hd_hashPrevBlock block)"
    "nHeight b = (case pprev b of None \<Rightarrow> 0 | Some q \<Rightarrow> Suc (nHeight (the (ch_heap (nd_chain nd) q))))"
    by blast
  let ?nd = "nd\<lparr>nd_chain := st, nd_next := nd_next nd + 1\<rparr>"
  have "node_inv ?nd"
    using st(2,3) assms(1) by (simp add: node_inv_def)
  with st show ?thesis
    by (intro exI [of _ ?nd] exI [of _ b]) (simp add: create_index_def)
qed

definition extends :: "node \<Rightarrow> node \<Rightarrow> bool" where
  "extends nd nd' \<longleftrightarrow> ch_table (nd_chain nd) \<subseteq>\<^sub>m ch_table (nd_chain nd')"

lemma extends_refl [simp]: "extends nd nd"
  by (simp add: extends_def)

lemma extends_trans: "extends a b \<Longrightarrow> extends b c \<Longrightarrow> extends a c"
  unfolding extends_def by (rule map_le_trans)

lemma extends_lookup: "extends a b \<Longrightarrow> ch_table (nd_chain a) h = Some p \<Longrightarrow> ch_table (nd_chain b) h = Some p"
  by (auto simp: extends_def map_le_def dom_def)

text \<open>What accepting a header does, on every path.\<close>

lemma accept_header:
  assumes "node_inv nd" "iface \<in> set coin_consensus" "hash_of env block \<noteq> 0"
  shows "\<exists>ok out' nd'. core_AcceptBlockHeader env iface nd block out = Ret (ok, out', nd') \<and> node_inv nd' \<and> extends nd nd'
    \<and> (ok \<longrightarrow> out' \<noteq> None \<and> out' = ch_table (nd_chain nd') (hash_of env block))"
proof (cases "ch_table (nd_chain nd) (hash_of env block)")
  case (Some p)
  with assms(1) show ?thesis
    by (auto simp: core_AcceptBlockHeader_def GetBlockIndexByHash_def Let_def)
next
  case None
  have new: "\<exists>nd'. create_index env iface (nd\<lparr>nd_caches := vc\<rparr>) block = Ret (True, Some (nd_next nd), nd') \<and> node_inv nd' \<and> extends nd nd'
      \<and> ch_table (nd_chain nd') (hash_of env block) = Some (nd_next nd)" if "hd_hashPrevBlock block \<noteq> hash_of env block" for vc
    using create_index_ok [of "nd\<lparr>nd_caches := vc\<rparr>" env block iface] assms(1) None that
    by (auto simp: node_inv_def extends_def map_le_def)
  show ?thesis
  proof (cases "hd_hashPrevBlock block = 0")
    case True
    with new [of "nd_caches nd"] None assms(3) show ?thesis
      by (auto simp: core_AcceptBlockHeader_def GetBlockIndexByHash_def)
  next
    case prev: False
    show ?thesis
    proof (cases "ch_table (nd_chain nd) (hd_hashPrevBlock block)")
      case None': None
      with None prev assms(1) show ?thesis
        by (auto simp: core_AcceptBlockHeader_def GetBlockIndexByHash_def)
    next
      case (Some q)
      have ok: "chain_ok (nd_chain nd)"
        using assms(1) by (simp add: node_inv_def)
      obtain c where "ch_heap (nd_chain nd) q = Some c"
        using chain_okD(2) [OF ok Some] by blast
      from contextual_returns [OF chain_okD(1) [OF ok] assms(2) this, of "nd_caches nd" block] obtain ok' vc'
        where "ContextualCheckBlockHeader (ch_heap (nd_chain nd)) (nd_caches nd) iface block (Some q) = Ret (ok', vc')"
        by blast
      moreover have "node_inv (nd\<lparr>nd_caches := vc'\<rparr>)" "extends nd (nd\<lparr>nd_caches := vc'\<rparr>)"
        using assms(1) by (simp_all add: node_inv_def extends_def)
      moreover have "hd_hashPrevBlock block \<noteq> hash_of env block"
        using None Some by auto
      ultimately show ?thesis
        using new [of vc'] None Some prev assms(1) by (auto simp: core_AcceptBlockHeader_def GetBlockIndexByHash_def Let_def)
    qed
  qed
qed

section \<open>An example\<close>

definition sample_env :: header_env where
  "sample_env = \<lparr>hash_of = \<lambda>h. hd_nonce h + 1, pow_of = \<lambda>h. 0, memory = \<lambda>p. None\<rparr>"

definition empty_node :: node where
  "empty_node = \<lparr>nd_chain = \<lparr>ch_heap = Map.empty, ch_table = Map.empty, ch_best = None\<rparr>, nd_caches = \<lambda>_ _. Map.empty, nd_next = 0\<rparr>"

definition header_on :: "nat \<Rightarrow> nat \<Rightarrow> CBlockHeader" where
  "header_on prv n = \<lparr>hd_version = 0x20000000, hd_hashPrevBlock = prv, hd_hashMerkleRoot = 0, hd_time = 100, hd_bits = 0, hd_nonce = n\<rparr>"

lemma empty_node_inv: "node_inv empty_node"
  by (simp add: node_inv_def empty_node_def chain_ok_def tree_ok_def)


section \<open>Properties\<close>



text \<open>
  C19. Receiving headers always ends, keeps the invariant of the block table and forgets no block. When all
  are accepted, all are in the table and the index reported is that of the last one.
\<close>
theorem ProcessNewBlockHeaders_returns:
  assumes "iface \<in> set coin_consensus"
  shows "node_inv nd \<Longrightarrow> \<forall>h \<in> set headers. hash_of env h \<noteq> 0 \<Longrightarrow>
    \<exists>ok out' nd'. ProcessNewBlockHeaders env iface nd headers out = Ret (ok, out', nd') \<and> node_inv nd' \<and> extends nd nd'
      \<and> (ok \<longrightarrow> (\<forall>h \<in> set headers. ch_table (nd_chain nd') (hash_of env h) \<noteq> None)
          \<and> out' = (if headers = [] then out else ch_table (nd_chain nd') (hash_of env (last headers))))"
proof (induction headers arbitrary: nd out)
  case (Cons h headers)
  from accept_header [OF Cons.prems(1) assms, of env h out] Cons.prems(2) obtain ok out1 nd1
    where 1: "core_AcceptBlockHeader env iface nd h out = Ret (ok, out1, nd1)" "node_inv nd1" "extends nd nd1"
    "ok \<longrightarrow> out1 \<noteq> None \<and> out1 = ch_table (nd_chain nd1) (hash_of env h)"
    by auto
  from Cons.IH [OF 1(2), of out1] Cons.prems(2) obtain ok2 out2 nd2
    where 2: "ProcessNewBlockHeaders env iface nd1 headers out1 = Ret (ok2, out2, nd2)" "node_inv nd2" "extends nd1 nd2"
    "ok2 \<longrightarrow> (\<forall>h \<in> set headers. ch_table (nd_chain nd2) (hash_of env h) \<noteq> None)
      \<and> out2 = (if headers = [] then out1 else ch_table (nd_chain nd2) (hash_of env (last headers)))"
    by auto
  show ?case
  proof (cases ok)
    case True
    then obtain p where "ch_table (nd_chain nd1) (hash_of env h) = Some p"
      using 1(4) by auto
    with extends_lookup [OF 2(3) this] True 1 2 extends_trans [OF 1(3) 2(3)] show ?thesis
      by auto
  qed (use 1 in auto)
qed auto

theorem ProcessNewBlockHeaders_returns_witness:
  "\<exists>ok out nd. ProcessNewBlockHeaders sample_env shc_consensus empty_node [header_on 0 0, header_on 1 1] None = Ret (ok, out, nd)
    \<and> node_inv nd \<and> (ok \<longrightarrow> out = ch_table (nd_chain nd) 2)"
  using ProcessNewBlockHeaders_returns [OF shc_coin empty_node_inv, of "[header_on 0 0, header_on 1 1]" sample_env None]
  by (auto simp: sample_env_def header_on_def numeral_2_eq_2)

end
