(* ===== verification/Tx_Lock.thy ===== *)
theory Tx_Lock
  imports Header_Accept
begin

text \<open>
  Lock times of transactions and the script rules of a block (\<open>block.cpp\<close>): \<open>IsFinal\<close>, the sequence
  locks of BIP 68 and \<open>GetBlockScriptFlags\<close>. Where the transactions of the inputs are (in a block or
  in the pool) is a parameter.
\<close>

unbundle bit_operations_syntax

section \<open>Final transactions\<close>

record lock_tx =
  nFlag :: nat
  vin_prevouts :: "nat list"
  vin_sequences :: "nat list"
  tx_nLockTime :: nat

definition GetVersion :: "lock_tx \<Rightarrow> nat" where
  "GetVersion tx = nFlag tx AND 15"

definition CTxIn_IsFinal :: "nat \<Rightarrow> bool" where
  "CTxIn_IsFinal nSequence \<longleftrightarrow> nSequence = 0xffffffff"

text \<open>The height of the best block and the adjusted time replace a height and a time of 0.\<close>

definition IsFinal :: "lock_tx \<Rightarrow> int \<Rightarrow> int \<Rightarrow> int \<Rightarrow> int \<Rightarrow> bool" where
  "IsFinal tx bestHeight adjustedTime nBlockHeight nBlockTime \<longleftrightarrow>
     (if tx_nLockTime tx = 0 then True
      else (let nBlockHeight = (if nBlockHeight = 0 then bestHeight else nBlockHeight);
                nBlockTime = (if nBlockTime = 0 then adjustedTime else nBlockTime)
            in if int (tx_nLockTime tx) < (if tx_nLockTime tx < 500000000 then nBlockHeight else nBlockTime) then True
               else (\<forall>s \<in> set (vin_sequences tx). CTxIn_IsFinal s)))"

definition CheckFinalTx :: "blkheap \<Rightarrow> blkptr option \<Rightarrow> int \<Rightarrow> lock_tx \<Rightarrow> blkptr option \<Rightarrow> nat \<Rightarrow> bool res" where
  "CheckFinalTx hp best adjustedTime tx pindexPrev flags =
     (case (case pindexPrev of None \<Rightarrow> best | Some p \<Rightarrow> Some p) of
        None \<Rightarrow> Ret False
      | Some p \<Rightarrow>
        (case hp p of
           None \<Rightarrow> Segv
         | Some blk \<Rightarrow>
           andThen (if flags AND 2 ^ 10 \<noteq> 0 then andThen (GetMedianTimePast hp p) (\<lambda>m. Ret (int m)) else Ret adjustedTime)
             (\<lambda>nBlockTime.
               Ret (IsFinal tx (case best of None \<Rightarrow> 0 | Some q \<Rightarrow> int (nHeight (the (hp q)))) adjustedTime (int (nHeight blk + 1)) nBlockTime))))"

section \<open>Sequence locks\<close>

abbreviation (input) LOCKTIME_DISABLE_FLAG :: nat where "LOCKTIME_DISABLE_FLAG \<equiv> 2 ^ 31"
abbreviation (input) LOCKTIME_TYPE_FLAG :: nat where "LOCKTIME_TYPE_FLAG \<equiv> 2 ^ 22"
abbreviation (input) LOCKTIME_MASK :: nat where "LOCKTIME_MASK \<equiv> 0xffff"
abbreviation (input) LOCKTIME_VERIFY_SEQUENCE :: nat where "LOCKTIME_VERIFY_SEQUENCE \<equiv> 1"

text \<open>
  The loop over the inputs: pairs of a sequence number and the height of the spent output. The
  result is the least height and time and the heights as the loop leaves them. Using the median
  time of a block that the chain does not have is undefined.
\<close>

fun sequence_loop ::
  "blkheap \<Rightarrow> blkptr \<Rightarrow> (nat \<times> int) list \<Rightarrow> int \<Rightarrow> int \<Rightarrow> ((int \<times> int) \<times> int list) res" where
  "sequence_loop hp block [] nMinHeight nMinTime = Ret ((nMinHeight, nMinTime), [])"
| "sequence_loop hp block ((nSequence, nCoinHeight) # inputs) nMinHeight nMinTime =
     (if nSequence AND LOCKTIME_DISABLE_FLAG \<noteq> 0
      then andThen (sequence_loop hp block inputs nMinHeight nMinTime) (\<lambda>(locks, hs). Ret (locks, 0 # hs))
      else if nSequence AND LOCKTIME_TYPE_FLAG \<noteq> 0
      then andThen (GetAncestor hp block (max (nCoinHeight - 1) 0))
             (\<lambda>anc. case anc of
                None \<Rightarrow> Segv
              | Some a \<Rightarrow>
                andThen (GetMedianTimePast hp a)
                  (\<lambda>nCoinTime.
                    andThen (sequence_loop hp block inputs nMinHeight
                              (max nMinTime (int nCoinTime + int (push_bit 9 (nSequence AND LOCKTIME_MASK)) - 1)))
                      (\<lambda>(locks, hs). Ret (locks, nCoinHeight # hs))))
      else andThen (sequence_loop hp block inputs
                     (max nMinHeight (nCoinHeight + int (nSequence AND LOCKTIME_MASK) - 1)) nMinTime)
             (\<lambda>(locks, hs). Ret (locks, nCoinHeight # hs)))"

definition CalculateSequenceLocks ::
  "blkheap \<Rightarrow> lock_tx \<Rightarrow> nat \<Rightarrow> int list \<Rightarrow> blkptr \<Rightarrow> ((int \<times> int) \<times> int list) res" where
  "CalculateSequenceLocks hp tx flags prevHeights block =
     (if length prevHeights \<noteq> length (vin_sequences tx) then Ret ((-1, -1), prevHeights)
      else if \<not> (GetVersion tx \<ge> 2 \<and> flags AND LOCKTIME_VERIFY_SEQUENCE \<noteq> 0) then Ret ((-1, -1), prevHeights)
      else sequence_loop hp block (zip (vin_sequences tx) prevHeights) (-1) (-1))"

definition EvaluateSequenceLocks :: "blkheap \<Rightarrow> blkptr \<Rightarrow> int \<times> int \<Rightarrow> bool res" where
  "EvaluateSequenceLocks hp block lockPair =
     (case hp block of
        None \<Rightarrow> Segv
      | Some blk \<Rightarrow>
        (case pprev blk of
           None \<Rightarrow> Ret False
         | Some q \<Rightarrow>
           andThen (GetMedianTimePast hp q)
             (\<lambda>nBlockTime. Ret (\<not> (fst lockPair \<ge> int (nHeight blk) \<or> snd lockPair \<ge> int nBlockTime)))))"

definition SequenceLocks :: "blkheap \<Rightarrow> lock_tx \<Rightarrow> nat \<Rightarrow> int list \<Rightarrow> blkptr \<Rightarrow> (bool \<times> int list) res" where
  "SequenceLocks hp tx flags prevHeights block =
     andThen (CalculateSequenceLocks hp tx flags prevHeights block)
       (\<lambda>(lockPair, hs). andThen (EvaluateSequenceLocks hp block lockPair) (\<lambda>ok. Ret (ok, hs)))"

text \<open>
  The heights of the inputs: of the block that holds the transaction, or of the next block when it
  is in the pool.
\<close>

fun prev_heights :: "blkheap \<Rightarrow> (nat \<Rightarrow> blkptr option) \<Rightarrow> (nat \<Rightarrow> bool) \<Rightarrow> int \<Rightarrow> nat list \<Rightarrow> int list option res" where
  "prev_heights hp blockOfTx inPool nextHeight [] = Ret (Some [])"
| "prev_heights hp blockOfTx inPool nextHeight (hash # hashes) =
     andThen (case blockOfTx hash of
                Some p \<Rightarrow> (case hp p of None \<Rightarrow> Segv | Some blk \<Rightarrow> Ret (Some (int (nHeight blk))))
              | None \<Rightarrow> Ret (if inPool hash then Some nextHeight else None))
       (\<lambda>h. case h of
          None \<Rightarrow> Ret None
        | Some h \<Rightarrow> andThen (prev_heights hp blockOfTx inPool nextHeight hashes) (\<lambda>hs. Ret (map_option ((#) h) hs)))"

text \<open>The index on the stack, at the pointer \<open>new\<close>, is the next block.\<close>

definition next_index :: "blkptr \<Rightarrow> nat \<Rightarrow> CBlockIndex" where
  "next_index tip h =
     \<lparr>pprev = Some tip, pskip = None, nHeight = h, nStatus = 0, bnChainWork = 0, nVersion = 0,
      hashMerkleRoot = 0, nTime = 0, nBits = 0, nNonce = 0\<rparr>"

definition CheckSequenceLocks ::
  "blkheap \<Rightarrow> blkptr option \<Rightarrow> (nat \<Rightarrow> blkptr option) \<Rightarrow> (nat \<Rightarrow> bool) \<Rightarrow> blkptr \<Rightarrow> lock_tx \<Rightarrow> nat \<Rightarrow> bool res" where
  "CheckSequenceLocks hp tip blockOfTx inPool new tx flags =
     (case tip of
        None \<Rightarrow> Ret False
      | Some t \<Rightarrow>
        (case hp t of
           None \<Rightarrow> Segv
         | Some blk \<Rightarrow>
           (let hp' = hp(new \<mapsto> next_index t (nHeight blk + 1))
            in andThen (prev_heights hp' blockOfTx inPool (int (nHeight blk) + 1) (vin_prevouts tx))
                 (\<lambda>hs. case hs of
                    None \<Rightarrow> Ret False
                  | Some prevheights \<Rightarrow>
                    andThen (CalculateSequenceLocks hp' tx flags prevheights new)
                      (\<lambda>(lockPair, _). EvaluateSequenceLocks hp' new lockPair)))))"

section \<open>Script rules\<close>

definition flag_if :: "bool \<Rightarrow> nat \<Rightarrow> nat" where
  "flag_if cond n = (if cond then 2 ^ n else 0)"

definition GetBlockScriptFlags ::
  "blkheap \<Rightarrow> version_bits_caches \<Rightarrow> vb_iface \<Rightarrow> blkptr \<Rightarrow> (nat \<times> version_bits_caches) res" where
  "GetBlockScriptFlags hp vcache iface pindex =
     (case hp pindex of
        None \<Rightarrow> Segv
      | Some blk \<Rightarrow>
        (let h = int (nHeight blk);
             flags = flag_if (BIP16Height iface \<noteq> -1 \<and> h \<ge> BIP16Height iface) 0;
             flags = flags OR flag_if (BIP66Height iface \<noteq> -1 \<and> h \<ge> BIP66Height iface) 2;
             flags = flags OR flag_if (BIP65Height iface \<noteq> -1 \<and> h \<ge> BIP65Height iface) 9
         in andThen (VersionBitsState hp vcache (pprev blk) iface 1)
              (\<lambda>(csv, vcache).
                andThen (IsWitnessEnabled hp vcache iface (pprev blk))
                  (\<lambda>(witness, vcache).
                    Ret (flags OR flag_if (csv = THRESHOLD_ACTIVE) 10 OR flag_if witness 11 OR flag_if witness 4, vcache)))))"

section \<open>What the locks mean\<close>

text \<open>
  The output that an input spends is at height \<open>h\<close>: the block can hold the spending transaction
  when the number of blocks, or the time between the median times, is at least what the sequence
  number asks for.
\<close>

definition relative_lock_ok :: "blkheap \<Rightarrow> blkptr \<Rightarrow> CBlockIndex \<Rightarrow> blkptr \<Rightarrow> nat \<Rightarrow> int \<Rightarrow> bool" where
  "relative_lock_ok hp p b q seq h \<longleftrightarrow>
     (if bit seq 31 then True
      else if bit seq 22
      then (case prev_n hp (nHeight b - nat (max (h - 1) 0)) p of
              None \<Rightarrow> False
            | Some a \<Rightarrow> median_of hp a + 512 * int (seq mod 65536) \<le> median_of hp q)
      else h + int (seq mod 65536) \<le> int (nHeight b))"

lemma and_mask_16: "seq AND 0xffff = seq mod 65536" for seq :: nat
  using take_bit_eq_mask [of 16 seq] by (simp add: take_bit_eq_mod mask_eq_exp_minus_1)

lemma flag_bits: "(seq AND 2 ^ n \<noteq> 0) = bit seq n" for seq :: nat
  by (simp add: and_exp_eq_0_iff_not_bit)

lemma sequence_flags:
  "(seq AND 2 ^ 31 \<noteq> 0) = bit seq 31" "(seq AND 2 ^ 22 \<noteq> 0) = bit seq 22" for seq :: nat
  by (rule flag_bits)+

abbreviation (input) locks_ok :: "blkheap \<Rightarrow> blkptr \<Rightarrow> CBlockIndex \<Rightarrow> blkptr \<Rightarrow> (nat \<times> int) list \<Rightarrow> bool" where
  "locks_ok hp p b q inputs \<equiv> list_all (\<lambda>(seq, h). relative_lock_ok hp p b q seq h) inputs"

lemma sequence_loop_locks:
  assumes tree: "tree_ok hp" and p: "hp p = Some b" "hp q = Some c"
  shows "\<forall>(seq, h) \<in> set inputs. h \<le> int (nHeight b) + 1 \<Longrightarrow>
    \<exists>mh' mt' hs. sequence_loop hp p inputs mh mt = Ret ((mh', mt'), hs)
      \<and> ((mh' < int (nHeight b) \<and> mt' < median_of hp q) \<longleftrightarrow>
          (mh < int (nHeight b) \<and> mt < median_of hp q \<and> locks_ok hp p b q inputs))"
proof (induction inputs arbitrary: mh mt)
  case (Cons i inputs)
  obtain seq h where i: "i = (seq, h)"
    by (cases i)
  have IH: "\<exists>mh' mt' hs. sequence_loop hp p inputs x y = Ret ((mh', mt'), hs)
      \<and> ((mh' < int (nHeight b) \<and> mt' < median_of hp q) \<longleftrightarrow>
          (x < int (nHeight b) \<and> y < median_of hp q \<and> locks_ok hp p b q inputs))" for x y
    using Cons by auto
  have step: "\<exists>x y h'. sequence_loop hp p (i # inputs) mh mt = andThen (sequence_loop hp p inputs x y) (\<lambda>(locks, hs). Ret (locks, h' # hs))
      \<and> ((x < int (nHeight b) \<and> y < median_of hp q) \<longleftrightarrow> (mh < int (nHeight b) \<and> mt < median_of hp q \<and> relative_lock_ok hp p b q seq h))"
  proof (cases "bit seq 31")
    case True
    then show ?thesis
      unfolding i sequence_loop.simps sequence_flags
      by (intro exI [of _ mh] exI [of _ mt] exI [of _ 0]) (simp add: relative_lock_ok_def)
  next
    case enabled: False
    show ?thesis
    proof (cases "bit seq 22")
      case False
      with enabled show ?thesis
        unfolding i sequence_loop.simps sequence_flags and_mask_16
        by (intro exI [of _ "max mh (h + int (seq mod 65536) - 1)"] exI [of _ mt] exI [of _ h]) (auto simp: relative_lock_ok_def)
    next
      case True
      let ?h = "max (h - 1) 0"
      have le: "nat ?h \<le> nHeight b"
        using Cons.prems i by auto
      then obtain a d where a: "prev_n hp (nHeight b - nat ?h) p = Some a" "hp a = Some d"
        using prev_n_height [OF tree p(1), of "nHeight b - nat ?h"] by auto
      then have anc: "GetAncestor hp p ?h = Ret (Some a)"
        using GetAncestor_prev [OF tree p(1), of ?h] le by simp
      obtain m where m: "GetMedianTimePast hp a = Ret m" "median_of hp a = int m"
        using median_of_ret [OF tree a(2)] by blast
      from enabled True a(1) m show ?thesis
        unfolding i sequence_loop.simps sequence_flags and_mask_16 anc
        by (intro exI [of _ mh] exI [of _ "max mt (int m + 512 * int (seq mod 65536) - 1)"] exI [of _ h])
          (auto simp: relative_lock_ok_def push_bit_eq_mult mult.commute)
    qed
  qed
  then obtain x y h' where s: "sequence_loop hp p (i # inputs) mh mt = andThen (sequence_loop hp p inputs x y) (\<lambda>(locks, hs). Ret (locks, h' # hs))"
    "(x < int (nHeight b) \<and> y < median_of hp q) = (mh < int (nHeight b) \<and> mt < median_of hp q \<and> relative_lock_ok hp p b q seq h)"
    by blast
  from IH [of x y] obtain mh' mt' hs where "sequence_loop hp p inputs x y = Ret ((mh', mt'), hs)"
    "(mh' < int (nHeight b) \<and> mt' < median_of hp q) = (x < int (nHeight b) \<and> y < median_of hp q \<and> locks_ok hp p b q inputs)"
    by blast
  with s i show ?case
    by (intro exI [of _ mh'] exI [of _ mt'] exI [of _ "h' # hs"]) auto
qed simp

lemma sequence_locks:
  assumes tree: "tree_ok hp" and p: "hp p = Some b" "pprev b = Some q"
    and hs: "length prevHeights = length (vin_sequences tx)" "\<forall>h \<in> set prevHeights. h \<le> int (nHeight b) + 1"
  shows "\<exists>ok hs. SequenceLocks hp tx flags prevHeights p = Ret (ok, hs)
    \<and> (ok \<longleftrightarrow> (2 \<le> GetVersion tx \<and> odd flags \<longrightarrow>
          locks_ok hp p b q (zip (vin_sequences tx) prevHeights)))"
proof -
  obtain c where c: "hp q = Some c"
    using tree_ok_prev [OF tree p] by blast
  obtain m where m: "GetMedianTimePast hp q = Ret m" "median_of hp q = int m"
    using median_of_ret [OF tree c] by blast
  have "\<forall>(seq, h) \<in> set (zip (vin_sequences tx) prevHeights). h \<le> int (nHeight b) + 1"
    using hs(2) by (auto dest: set_zip_rightD)
  from sequence_loop_locks [OF tree p(1) c this, of "-1" "-1"] obtain mh mt hs'
    where l: "sequence_loop hp p (zip (vin_sequences tx) prevHeights) (-1) (-1) = Ret ((mh, mt), hs')"
    "(mh < int (nHeight b) \<and> mt < int m) =
      locks_ok hp p b q (zip (vin_sequences tx) prevHeights)"
    using m(2) by auto
  have ev: "EvaluateSequenceLocks hp p (x, y) = Ret (x < int (nHeight b) \<and> y < int m)" for x y
    using p m(1) by (simp add: EvaluateSequenceLocks_def not_le)
  have odd: "flags AND 1 \<noteq> 0 \<longleftrightarrow> odd flags"
    using flag_bits [of flags 0] by (simp add: bit_0)
  show ?thesis
  proof (cases "2 \<le> GetVersion tx \<and> odd flags")
    case True
    with hs(1) odd have "CalculateSequenceLocks hp tx flags prevHeights p = Ret ((mh, mt), hs')"
      by (simp add: CalculateSequenceLocks_def l(1) del: One_nat_def)
    with True l(2) show ?thesis
      by (simp only: SequenceLocks_def ev andThen.simps split_conv) blast
  next
    case False
    with odd have "CalculateSequenceLocks hp tx flags prevHeights p = Ret ((-1, -1), prevHeights)"
      by (auto simp: CalculateSequenceLocks_def simp del: One_nat_def)
    with False show ?thesis
      by (auto simp: SequenceLocks_def ev)
  qed
qed

text \<open>Transactions for the next block: the index on the stack is one more block of the tree.\<close>

lemma next_index_tree:
  assumes "tree_ok hp" "hp new = None" "hp t = Some b"
  shows "tree_ok (hp(new \<mapsto> next_index t (nHeight b + 1)))"
  by (rule tree_ok_add [OF assms(1,2)]) (use assms in \<open>auto simp: node_ok_def next_index_def\<close>)

lemma prev_heights_length: "prev_heights hp f g n hashes = Ret (Some hs) \<Longrightarrow> length hs = length hashes"
proof (induction hashes arbitrary: hs)
  case (Cons h hashes)
  then show ?case
    by (cases "prev_heights hp f g n hashes") (auto split: option.splits if_splits)
qed simp

lemma check_sequence_locks:
  assumes "hp t = Some b" "prev_heights (hp(new \<mapsto> next_index t (nHeight b + 1))) blockOfTx inPool (int (nHeight b) + 1) (vin_prevouts tx) = Ret (Some hs)"
  shows "CheckSequenceLocks hp (Some t) blockOfTx inPool new tx flags =
    andThen (SequenceLocks (hp(new \<mapsto> next_index t (nHeight b + 1))) tx flags hs new) (\<lambda>(ok, _). Ret ok)"
proof -
  define hp' where "hp' = hp(new \<mapsto> next_index t (nHeight b + 1))"
  have "CheckSequenceLocks hp (Some t) blockOfTx inPool new tx flags =
      andThen (CalculateSequenceLocks hp' tx flags hs new) (\<lambda>(lockPair, _). EvaluateSequenceLocks hp' new lockPair)"
    by (simp only: CheckSequenceLocks_def assms option.case Let_def hp'_def andThen.simps)
  also have "\<dots> = andThen (SequenceLocks hp' tx flags hs new) (\<lambda>(ok, _). Ret ok)"
  proof (cases "CalculateSequenceLocks hp' tx flags hs new")
    case (Ret l)
    then show ?thesis
      by (cases l; cases "EvaluateSequenceLocks hp' new (fst l)") (simp_all add: SequenceLocks_def)
  qed (simp_all add: SequenceLocks_def)
  finally show ?thesis
    by (simp only: hp'_def)
qed

section \<open>Script rules stay in force\<close>

lemma script_flags:
  assumes "tree_ok hp" "iface \<in> set coin_consensus" "caches_ok iface hp vc" "hp p = Some b" "known hp (pprev b)"
  shows "\<exists>flags vc'. GetBlockScriptFlags hp vc iface p = Ret (flags, vc') \<and> caches_ok iface hp vc'
    \<and> (\<forall>n. bit flags n \<longleftrightarrow>
        (n = 0 \<and> BIP16Height iface \<noteq> -1 \<and> int (nHeight b) \<ge> BIP16Height iface)
        \<or> (n = 2 \<and> BIP66Height iface \<noteq> -1 \<and> int (nHeight b) \<ge> BIP66Height iface)
        \<or> (n = 9 \<and> BIP65Height iface \<noteq> -1 \<and> int (nHeight b) \<ge> BIP65Height iface)
        \<or> (n = 10 \<and> spec_of iface hp 1 (pprev b) = THRESHOLD_ACTIVE)
        \<or> (n \<in> {4, 11} \<and> spec_of iface hp 2 (pprev b) = THRESHOLD_ACTIVE))"
proof -
  from version_state [OF assms(1-3,5), of 1] obtain vc1
    where vc1: "VersionBitsState hp vc (pprev b) iface 1 = Ret (spec_of iface hp 1 (pprev b), vc1)" "caches_ok iface hp vc1"
    by blast
  from version_state [OF assms(1,2) vc1(2) assms(5), of 2] obtain vc2
    where vc2: "VersionBitsState hp vc1 (pprev b) iface 2 = Ret (spec_of iface hp 2 (pprev b), vc2)" "caches_ok iface hp vc2"
    by blast
  have bit_flag: "bit (flag_if cond k) n \<longleftrightarrow> cond \<and> n = k" for cond k n
    by (auto simp: flag_if_def bit_exp_iff)
  show ?thesis
    using vc1 vc2 assms(4) by (auto simp: GetBlockScriptFlags_def IsWitnessEnabled_def bit_or_iff bit_flag Let_def)
qed

lemma spec_active_later:
  assumes "tree_ok hp" "iface \<in> set coin_consensus" "hp p' = Some b'" "hp p = Some b" "ancestor hp p p'"
    and "spec_of iface hp pos (pprev b) = THRESHOLD_ACTIVE"
  shows "spec_of iface hp pos (pprev b') = THRESHOLD_ACTIVE"
proof -
  obtain q where q: "pprev b = Some q"
    using assms(6) by (cases "pprev b") (auto simp: spec_state_def)
  obtain k where k: "prev_n hp k p' = Some p"
    using assms(5) by (auto simp: ancestor_def)
  have "prev_n hp (k + 1) p' = Some q"
    using prev_n_add [OF k, of 1] assms(4) q by simp
  then obtain q' where q': "pprev b' = Some q'" "prev_n hp k q' = Some q"
    using assms(3) by (cases "pprev b'") auto
  obtain c where "hp q' = Some c"
    using tree_ok_prev [OF assms(1,3) q'(1)] by blast
  moreover have "ancestor hp q q'"
    using q'(2) by (auto simp: ancestor_def)
  ultimately show ?thesis
    using threshold_checker.spec_terminal [OF coin_checker [OF assms(2)] assms(1)] assms(6) q q'(1) by auto
qed

section \<open>Properties\<close>

text \<open>
  C25. Sequence locks: for a block with a previous block and outputs that are not above it, the locks
  hold if and only if relative lock times are not enforced for the transaction, or every input that
  asks for one is as many blocks, or as much median time, after the output it spends.
\<close>
theorem SequenceLocks_correct:
  assumes "reachable_chain st" "ch_heap st p = Some b" "pprev b = Some q"
    and "length prevHeights = length (vin_sequences tx)" "\<forall>h \<in> set prevHeights. h \<le> int (nHeight b) + 1"
  shows "\<exists>ok hs. SequenceLocks (ch_heap st) tx flags prevHeights p = Ret (ok, hs)
    \<and> (ok \<longleftrightarrow> (2 \<le> GetVersion tx \<and> odd flags \<longrightarrow>
          list_all (\<lambda>(seq, h). relative_lock_ok (ch_heap st) p b q seq h) (zip (vin_sequences tx) prevHeights)))"
  by (rule sequence_locks [OF reachable_tree]) (use assms in auto)

theorem SequenceLocks_correct_witness:
  "\<exists>st hs. reachable_chain st
    \<and> SequenceLocks (ch_heap st) \<lparr>nFlag = 2, vin_prevouts = [7], vin_sequences = [1], tx_nLockTime = 0\<rparr> 1 [1] 2 = Ret (True, hs)"
proof -
  obtain st d where st: "reachable_chain st" "ch_heap st 2 = Some d" "pprev d = Some 1" "nHeight d = 2"
    using sample_chain_longer by force
  have "relative_lock_ok (ch_heap st) 2 d 1 1 1"
    using st(4) by (simp add: relative_lock_ok_def bit_1_iff bit_Suc_0_iff)
  then show ?thesis
    using SequenceLocks_correct [OF st(1-3), of "[1]" "\<lparr>nFlag = 2, vin_prevouts = [7], vin_sequences = [1], tx_nLockTime = 0\<rparr>" 1] st(1,4)
    by (auto simp: GetVersion_def)
qed

text \<open>
  C26. Script rules are not taken back: every rule that the flags of a block enforce is enforced for
  all later blocks of its chain.
\<close>
theorem GetBlockScriptFlags_monotone:
  assumes "reachable_chain st" "iface \<in> set coin_consensus" "caches_ok iface (ch_heap st) vc" "caches_ok iface (ch_heap st) vc'"
    and "ch_heap st p = Some b" "ch_heap st p' = Some b'" "ancestor (ch_heap st) p p'" "chain_times (ch_heap st) p'"
  shows "\<exists>flags flags' vc1 vc2. GetBlockScriptFlags (ch_heap st) vc iface p = Ret (flags, vc1)
    \<and> GetBlockScriptFlags (ch_heap st) vc' iface p' = Ret (flags', vc2) \<and> flags AND flags' = flags"
proof -
  let ?hp = "ch_heap st"
  note tree = reachable_tree [OF assms(1)]
  have known: "known ?hp (pprev c)" if anc: "ancestor ?hp x p'" and c: "?hp x = Some c" for x c
  proof (cases "pprev c")
    case (Some q)
    obtain k where k: "prev_n ?hp k p' = Some x"
      using anc by (auto simp: ancestor_def)
    have "prev_n ?hp (k + 1) p' = Some q"
      using prev_n_add [OF k, of 1] c Some by simp
    then have "chain_times ?hp q"
      by (rule chain_times_prev [OF assms(8)])
    with Some tree_ok_prev [OF tree c] show ?thesis
      by (auto simp: known_def)
  qed (simp add: known_def)
  have self: "ancestor ?hp p' p'"
    unfolding ancestor_def by (intro exI [of _ 0]) simp
  obtain k where "prev_n ?hp k p' = Some p"
    using assms(7) by (auto simp: ancestor_def)
  then have le: "nHeight b \<le> nHeight b'"
    using ancestor_height [OF tree assms(6)] assms(5) by fastforce
  from script_flags [OF tree assms(2,3,5) known [OF assms(7,5)]] script_flags [OF tree assms(2,4,6) known [OF self assms(6)]]
  obtain flags flags' vc1 vc2 where f: "GetBlockScriptFlags ?hp vc iface p = Ret (flags, vc1)"
    "GetBlockScriptFlags ?hp vc' iface p' = Ret (flags', vc2)" "\<forall>n. bit flags n \<longrightarrow> bit flags' n"
    using le spec_active_later [OF tree assms(2,6,5,7)] by fastforce
  then have "flags AND flags' = flags"
    by (intro bit_eqI) (auto simp: bit_and_iff)
  with f show ?thesis
    by blast
qed

theorem GetBlockScriptFlags_monotone_witness:
  "\<exists>st flags flags' vc1 vc2. reachable_chain st \<and> GetBlockScriptFlags (ch_heap st) (\<lambda>_ _. Map.empty) shc_consensus 0 = Ret (flags, vc1)
    \<and> GetBlockScriptFlags (ch_heap st) (\<lambda>_ _. Map.empty) shc_consensus 1 = Ret (flags', vc2) \<and> flags AND flags' = flags"
proof -
  obtain st where st: "vb_reachable sample_checker 3 0 st (\<lambda>_ _. Map.empty)" "\<forall>p \<in> {0, 1, 2}. known (ch_heap st) (Some p)"
    "prev_n (ch_heap st) 1 1 = Some 0"
    using sample_run by blast
  have a: "ancestor (ch_heap st) 0 1"
    unfolding ancestor_def using st(3) by blast
  obtain b c where "ch_heap st 0 = Some b" "ch_heap st 1 = Some c" "chain_times (ch_heap st) 1"
    using st(2) by (auto simp: known_def)
  from GetBlockScriptFlags_monotone [OF vb_reachable_chain [OF st(1)] shc_coin _ _ this(1,2) a this(3), of "\<lambda>_ _. Map.empty" "\<lambda>_ _. Map.empty"]
    vb_reachable_chain [OF st(1)]
  show ?thesis
    by (auto simp: caches_ok_def cache_ok_def)
qed

end
