(* ===== verification/Block_Witness.thy ===== *)
theory Block_Witness
  imports Tx_Check Tx_Lock
begin

text \<open>
  Witness commitments of blocks (\<open>block.cpp\<close>): finding the commitment in the coinbase, completing a new
  block with one, and \<open>core_CheckBlockWitness\<close>.
\<close>

section \<open>The commitment in the coinbase\<close>

text \<open>The list of the transactions of a block; reading the first one of an empty list is undefined.\<close>

definition commit_form :: "script \<Rightarrow> bool" where
  "commit_form s \<longleftrightarrow>
     length s \<ge> 38 \<and> s ! 0 = 0x6a \<and> s ! 1 = 0x24 \<and> s ! 2 = 0xaa \<and> s ! 3 = 0x21 \<and> s ! 4 = 0xa9 \<and> s ! 5 = 0xed"

fun commit_index :: "nat \<Rightarrow> nat option \<Rightarrow> CTxOut list \<Rightarrow> nat option" where
  "commit_index i commitpos [] = commitpos"
| "commit_index i commitpos (txout # vout) =
     commit_index (i + 1) (if commit_form (out_scriptPubKey txout) then Some i else commitpos) vout"

definition GetWitnessCommitmentIndex :: "CTransaction list \<Rightarrow> nat option res" where
  "GetWitnessCommitmentIndex vtx = (case vtx of [] \<Rightarrow> Segv | tx # _ \<Rightarrow> Ret (commit_index 0 None (tx_vout tx)))"

definition core_UpdateUncommittedBlockStructures ::
  "blkheap \<Rightarrow> version_bits_caches \<Rightarrow> vb_iface \<Rightarrow> CTransaction list \<Rightarrow> blkptr option \<Rightarrow> (CTransaction list \<times> version_bits_caches) res" where
  "core_UpdateUncommittedBlockStructures hp vcache iface vtx pindexPrev =
     andThen (GetWitnessCommitmentIndex vtx)
       (\<lambda>commitpos.
         if commitpos = None then Ret (vtx, vcache)
         else andThen (IsWitnessEnabled hp vcache iface pindexPrev)
                (\<lambda>(enabled, vcache).
                  Ret (if enabled \<and> tx_wit (hd vtx) = [] then (hd vtx)\<lparr>tx_wit := [[replicate 32 0]]\<rparr> # tl vtx else vtx, vcache)))"

text \<open>\<open>inner\<close> is what the array of \<open>MerkleComputation\<close> holds before it is written.\<close>

definition add_commitment :: "tx_env \<Rightarrow> uint256 \<Rightarrow> CTransaction list \<Rightarrow> CTransaction list" where
  "add_commitment env witnessroot vtx =
     (hd vtx)\<lparr>tx_vout := tx_vout (hd vtx) @
       [\<lparr>out_nValue = 0, out_scriptPubKey = [0x6a, 0x24, 0xaa, 0x21, 0xa9, 0xed] @ hash_ranges env witnessroot (replicate 32 0)\<rparr>]\<rparr> # tl vtx"

definition core_GenerateCoinbaseCommitment ::
  "tx_env \<Rightarrow> (nat \<Rightarrow> uint256) \<Rightarrow> blkheap \<Rightarrow> version_bits_caches \<Rightarrow> vb_iface \<Rightarrow> CTransaction list \<Rightarrow> blkptr option
    \<Rightarrow> (bool \<times> CTransaction list \<times> version_bits_caches) res" where
  "core_GenerateCoinbaseCommitment env inner hp vcache iface vtx pindexPrev =
     andThen (GetWitnessCommitmentIndex vtx)
       (\<lambda>commitpos.
         andThen
           (if nTimeout (vDeployments iface 2) \<noteq> 0 \<and> commitpos = None
            then andThen (BlockWitnessMerkleRoot (hash_ranges env) null256 inner (tx_witness_hash env) vtx)
                   (\<lambda>(witnessroot, _). Ret (add_commitment env witnessroot vtx))
            else Ret vtx)
           (\<lambda>vtx. andThen (core_UpdateUncommittedBlockStructures hp vcache iface vtx pindexPrev)
                    (\<lambda>(vtx, vcache). Ret (False, vtx, vcache))))"

section \<open>Checking the commitment\<close>

text \<open>
  \<open>Inl b\<close> is an early return of \<open>b\<close>, \<open>Inr\<close> whether there is a commitment. A coinbase without the
  reserved value is returned as \<open>(error (...), size)\<close>, whose value is the number of witnesses of the coinbase.
\<close>

definition check_commitment :: "tx_env \<Rightarrow> (nat \<Rightarrow> uint256) \<Rightarrow> CTransaction list \<Rightarrow> (bool + bool) res" where
  "check_commitment env inner vtx =
     andThen (GetWitnessCommitmentIndex vtx)
       (\<lambda>commitpos. case commitpos of
          None \<Rightarrow> Ret (Inr False)
        | Some pos \<Rightarrow>
          (let wit = tx_wit (hd vtx) in
           if length wit \<noteq> 1 \<or> length (wit ! 0) \<noteq> 1 \<or> length (wit ! 0 ! 0) \<noteq> 32 then Ret (Inl (length wit \<noteq> 0))
           else andThen (BlockWitnessMerkleRoot (hash_ranges env) null256 inner (tx_witness_hash env) vtx)
                  (\<lambda>(hashWitness, malleated).
                    if hash_ranges env hashWitness (wit ! 0 ! 0) \<noteq> take 32 (drop 6 (out_scriptPubKey (tx_vout (hd vtx) ! pos)))
                    then Ret (Inl False) else Ret (Inr True))))"

definition core_CheckBlockWitness ::
  "tx_env \<Rightarrow> (nat \<Rightarrow> uint256) \<Rightarrow> blkheap \<Rightarrow> version_bits_caches \<Rightarrow> vb_iface \<Rightarrow> CTransaction list \<Rightarrow> blkptr option
    \<Rightarrow> (bool \<times> version_bits_caches) res" where
  "core_CheckBlockWitness env inner hp vcache iface vtx pindexPrev =
     (if pindexPrev = None then Ret (True, vcache)
      else andThen (IsWitnessEnabled hp vcache iface pindexPrev)
             (\<lambda>(enabled, vcache).
               andThen (if enabled then check_commitment env inner vtx else Ret (Inr False))
                 (\<lambda>r. case r of
                    Inl b \<Rightarrow> Ret (b, vcache)
                  | Inr fHaveWitness \<Rightarrow> Ret (fHaveWitness \<or> list_all (\<lambda>tx. wit_IsNull (tx_wit tx)) vtx, vcache))))"

section \<open>Commitments\<close>

lemma commit_index_snoc:
  "commit_index i pos (vout @ [out]) = (if commit_form (out_scriptPubKey out) then Some (i + length vout) else commit_index i pos vout)"
  by (induction i pos vout rule: commit_index.induct) auto

lemma commit_index_less: "commit_index i pos vout = Some k \<Longrightarrow> pos = None \<or> the pos < i \<Longrightarrow> k < i + length vout"
  by (induction i pos vout rule: commit_index.induct) (fastforce split: if_splits)+

lemma witness_enabled:
  assumes "tree_ok hp" "prm \<in> set coin_consensus" "caches_ok prm hp vc" "known hp p"
  shows "\<exists>vc'. IsWitnessEnabled hp vc prm p = Ret (spec_of prm hp 2 p = THRESHOLD_ACTIVE, vc') \<and> caches_ok prm hp vc'"
  using version_state [OF assms, of 2] by (auto simp: IsWitnessEnabled_def)

lemma witness_root:
  assumes "length txs < 2 ^ 31 - 1"
  shows "\<exists>m. BlockWitnessMerkleRoot H null inner wh (tx # txs) = Ret (merkle_root H (null # map wh txs), m)"
  using merkle_computation [of "null # map wh txs" False "2 ^ 32 - 1" H null inner] assms
  by (auto simp: BlockWitnessMerkleRoot_def ComputeMerkleRoot_def)

text \<open>What the check does, on every path.\<close>

lemma check_witness:
  assumes "IsWitnessEnabled hp vc prm (Some p) = Ret (enabled, vc')" "length txs < 2 ^ 31 - 1"
  shows "core_CheckBlockWitness env inner hp vc prm (cb # txs) (Some p) = Ret (
    (case (if enabled then commit_index 0 None (tx_vout cb) else None) of
       None \<Rightarrow> \<forall>tx \<in> set (cb # txs). wit_IsNull (tx_wit tx)
     | Some pos \<Rightarrow>
       (if \<exists>nonce. tx_wit cb = [[nonce]] \<and> length nonce = 32
        then hash_ranges env (merkle_root (hash_ranges env) (null256 # map (tx_witness_hash env) txs)) (tx_wit cb ! 0 ! 0)
          = take 32 (drop 6 (out_scriptPubKey (tx_vout cb ! pos)))
        else tx_wit cb \<noteq> [])), vc')"
proof -
  obtain m where m: "BlockWitnessMerkleRoot (hash_ranges env) null256 inner (tx_witness_hash env) (cb # txs)
    = Ret (merkle_root (hash_ranges env) (null256 # map (tx_witness_hash env) txs), m)"
    by (rule exE [OF witness_root [OF assms(2)]])
  have wit: "(length w \<noteq> 1 \<or> length (w ! 0) \<noteq> 1 \<or> length (w ! 0 ! 0) \<noteq> 32) \<longleftrightarrow> \<not> (\<exists>nonce. w = [[nonce]] \<and> length nonce = 32)"
    for w :: "valtype list list"
    by (auto simp: length_Suc_conv)
  show ?thesis
  proof (cases "\<exists>nonce. tx_wit cb = [[nonce]] \<and> length nonce = 32")
    case True
    then show ?thesis
      using assms(1) m
      by (auto simp: core_CheckBlockWitness_def check_commitment_def GetWitnessCommitmentIndex_def list_all_iff split: option.splits)
  next
    case False
    then have "length (tx_wit cb) = Suc 0 \<Longrightarrow> length (tx_wit cb ! 0) = Suc 0 \<Longrightarrow> length (tx_wit cb ! 0 ! 0) \<noteq> 32"
      using wit [of "tx_wit cb"] by simp
    with False show ?thesis
      using assms(1) m
      by (auto simp: core_CheckBlockWitness_def check_commitment_def GetWitnessCommitmentIndex_def list_all_iff Let_def split: option.splits)
  qed
qed

section \<open>Properties\<close>




text \<open>
  C16. A generated commitment is accepted: after \<open>core_GenerateCoinbaseCommitment\<close> has completed a
  block without a commitment, the block passes if witnesses are active or no transaction has a witness, and only then.
\<close>
theorem core_GenerateCoinbaseCommitment_checks:
  assumes "reachable_chain st" "prm \<in> set coin_consensus" "caches_ok prm (ch_heap st) vc" "known (ch_heap st) (Some p)"
    and "nTimeout (vDeployments prm 2) \<noteq> 0" "commit_index 0 None (tx_vout cb) = None" "tx_wit cb = []" "length txs < 2 ^ 31 - 1"
    and "\<forall>a b. length (hash_ranges env a b) = 32"
  shows "\<exists>vtx vc1 ok vc2. core_GenerateCoinbaseCommitment env inner (ch_heap st) vc prm (cb # txs) (Some p) = Ret (False, vtx, vc1)
    \<and> core_CheckBlockWitness env inner (ch_heap st) vc1 prm vtx (Some p) = Ret (ok, vc2)
    \<and> (ok \<longleftrightarrow> spec_of prm (ch_heap st) 2 (Some p) = THRESHOLD_ACTIVE \<or> (\<forall>tx \<in> set txs. wit_IsNull (tx_wit tx)))"
proof -
  let ?hp = "ch_heap st" and ?root = "merkle_root (hash_ranges env) (null256 # map (tx_witness_hash env) txs)"
  let ?active = "spec_of prm (ch_heap st) 2 (Some p) = THRESHOLD_ACTIVE"
  note tree = reachable_tree [OF assms(1)]
  define cb1 where "cb1 = hd (add_commitment env ?root (cb # txs))"
  have vout: "tx_vout cb1 = tx_vout cb @ [\<lparr>out_nValue = 0, out_scriptPubKey = [0x6a, 0x24, 0xaa, 0x21, 0xa9, 0xed] @ hash_ranges env ?root (replicate 32 0)\<rparr>]"
    and wit: "tx_wit cb1 = []"
    using assms(7) by (simp_all add: cb1_def add_commitment_def)
  have pos: "commit_index 0 None (tx_vout cb1) = Some (length (tx_vout cb))"
    using assms(9) by (simp add: vout commit_index_snoc commit_form_def)
  obtain m where "BlockWitnessMerkleRoot (hash_ranges env) null256 inner (tx_witness_hash env) (cb # txs) = Ret (?root, m)"
    by (rule exE [OF witness_root [OF assms(8)]])
  moreover obtain vc1 where vc1: "IsWitnessEnabled ?hp vc prm (Some p) = Ret (?active, vc1)" "caches_ok prm ?hp vc1"
    using witness_enabled [OF tree assms(2-4)] by blast
  moreover have "add_commitment env ?root (cb # txs) = cb1 # txs"
    by (simp add: cb1_def add_commitment_def)
  ultimately have g: "core_GenerateCoinbaseCommitment env inner ?hp vc prm (cb # txs) (Some p)
    = Ret (False, (if ?active then cb1\<lparr>tx_wit := [[replicate 32 0]]\<rparr> else cb1) # txs, vc1)"
    using assms(5,6) pos wit
    by (simp add: core_GenerateCoinbaseCommitment_def core_UpdateUncommittedBlockStructures_def GetWitnessCommitmentIndex_def)
  obtain vc2 where "IsWitnessEnabled ?hp vc1 prm (Some p) = Ret (?active, vc2)"
    using witness_enabled [OF tree assms(2) vc1(2) assms(4)] by blast
  from check_witness [OF this assms(8), of env inner "if ?active then cb1\<lparr>tx_wit := [[replicate 32 0]]\<rparr> else cb1"]
  show ?thesis
    using g pos wit assms(9) by (auto simp: vout nth_append wit_IsNull_def list_all_iff)
qed

theorem core_GenerateCoinbaseCommitment_checks_witness:
  "\<exists>(st :: blk_chain) vtx vc1 vc2. core_GenerateCoinbaseCommitment sample_tx_env (\<lambda>_. null256) (ch_heap st) (\<lambda>_ _. Map.empty) shc_consensus
      [sample_tx [2 ^ 32 - 1] []] (Some 2) = Ret (False, vtx, vc1)
    \<and> core_CheckBlockWitness sample_tx_env (\<lambda>_. null256) (ch_heap st) vc1 shc_consensus vtx (Some 2) = Ret (True, vc2)"
proof -
  obtain st where st: "vb_reachable sample_checker 3 0 st (\<lambda>_ _. Map.empty)" "\<forall>p \<in> {0, 1, 2}. known (ch_heap st) (Some p)"
    using sample_run by blast
  have t: "nTimeout (vDeployments shc_consensus 2) \<noteq> 0"
    by (simp add: shc_consensus_def mk_deployments_def)
  have "caches_ok shc_consensus (ch_heap st) (\<lambda>_ _. Map.empty)" "known (ch_heap st) (Some 2)"
    using st(2) by (simp_all add: caches_ok_def cache_ok_def)
  from core_GenerateCoinbaseCommitment_checks [OF vb_reachable_chain [OF st(1)] shc_coin this t, of "sample_tx [2 ^ 32 - 1] []" "[]" sample_tx_env "\<lambda>_. null256"]
  show ?thesis
    by (intro exI [of _ st]) auto
qed

end
