(* ===== verification/Checkpoints.thy ===== *)
theory Checkpoints
  imports Header_Accept
begin

text \<open>
  Checkpoints (\<open>checkpoints.cpp\<close>): the table of fixed and dynamic checkpoints of a coin, with the
  last notarized block.
\<close>

section \<open>The table of checkpoints\<close>

text \<open>
  The map is the list of its pairs, in the order of their heights. Inserting leaves a pair that is
  there. \<open>hash_at\<close> gives the hash of the block that an index stands for.
\<close>

record CCheckpoints =
  mapCheckpoints :: "(int \<times> blkhash) list"
  hNotaryHeight :: nat
  hNotaryBlock :: blkhash

fun map_insert :: "int \<Rightarrow> blkhash \<Rightarrow> (int \<times> blkhash) list \<Rightarrow> (int \<times> blkhash) list" where
  "map_insert k v [] = [(k, v)]"
| "map_insert k v ((k', v') # m) =
     (if k < k' then (k, v) # (k', v') # m
      else if k = k' then (k', v') # m
      else (k', v') # map_insert k v m)"

definition CCheckpoints_CheckBlock :: "CCheckpoints \<Rightarrow> int \<Rightarrow> blkhash \<Rightarrow> bool" where
  "CCheckpoints_CheckBlock cp height hash =
     (case map_of (mapCheckpoints cp) height of None \<Rightarrow> True | Some h \<Rightarrow> hash = h)"

definition CCheckpoints_GetTotalBlocksEstimate :: "CCheckpoints \<Rightarrow> int" where
  "CCheckpoints_GetTotalBlocksEstimate cp = (if mapCheckpoints cp = [] then 0 else fst (last (mapCheckpoints cp)))"

definition GetLastCheckpoint :: "blk_chain \<Rightarrow> CCheckpoints \<Rightarrow> blkptr option" where
  "GetLastCheckpoint st cp =
     (case find (\<lambda>(_, hash). GetBlockIndexByHash st hash \<noteq> None) (rev (mapCheckpoints cp)) of
        None \<Rightarrow> None
      | Some (_, hash) \<Rightarrow> GetBlockIndexByHash st hash)"

text \<open>The message about a block that failed reads \<open>prevIndex\<close> before it is set.\<close>

definition AddCheckpoint :: "(blkptr \<Rightarrow> blkhash) \<Rightarrow> blk_chain \<Rightarrow> CCheckpoints \<Rightarrow> blkptr \<Rightarrow> (bool \<times> CCheckpoints) res" where
  "AddCheckpoint hash_at st cp pindex =
     (case ch_heap st pindex of
        None \<Rightarrow> Segv
      | Some blk \<Rightarrow>
        if failed_at st pindex then Segv
        else andThen
          (case GetLastCheckpoint st cp of
             None \<Rightarrow> Ret False
           | Some p \<Rightarrow> (case ch_heap st p of None \<Rightarrow> Segv | Some prevIndex \<Rightarrow> Ret (nHeight blk \<le> nHeight prevIndex)))
          (\<lambda>stale.
            if stale then Ret (False, cp)
            else Ret (True, cp\<lparr>mapCheckpoints := map_insert (int (nHeight blk)) (hash_at pindex) (mapCheckpoints cp),
                               hNotaryHeight := nHeight blk, hNotaryBlock := hash_at pindex\<rparr>)))"

definition AddCheckpoint_at :: "(blkptr \<Rightarrow> blkhash) \<Rightarrow> blk_chain \<Rightarrow> CCheckpoints \<Rightarrow> int \<Rightarrow> blkhash \<Rightarrow> (bool \<times> CCheckpoints) res" where
  "AddCheckpoint_at hash_at st cp height hash =
     (case GetBlockIndexByHash st hash of
        None \<Rightarrow> Ret (False, cp)
      | Some pindex \<Rightarrow>
        (case ch_heap st pindex of
           None \<Rightarrow> Segv
         | Some blk \<Rightarrow> if int (nHeight blk) \<noteq> height then Ret (False, cp) else AddCheckpoint hash_at st cp pindex))"

text \<open>Where no checkpoint is known, the values are reset and then read through a null pointer all the same.\<close>

definition ResetNotorizedBlock :: "(blkptr \<Rightarrow> blkhash) \<Rightarrow> blk_chain \<Rightarrow> CCheckpoints \<Rightarrow> CCheckpoints res" where
  "ResetNotorizedBlock hash_at st cp =
     (case GetLastCheckpoint st cp of
        None \<Rightarrow> Segv
      | Some pindex \<Rightarrow>
        (case ch_heap st pindex of
           None \<Rightarrow> Segv
         | Some blk \<Rightarrow> Ret (cp\<lparr>hNotaryHeight := nHeight blk, hNotaryBlock := hash_at pindex\<rparr>)))"

definition RemoveCheckpoint :: "(blkptr \<Rightarrow> blkhash) \<Rightarrow> blk_chain \<Rightarrow> CCheckpoints \<Rightarrow> int \<Rightarrow> (bool \<times> CCheckpoints) res" where
  "RemoveCheckpoint hash_at st cp height =
     (let vHeight = map fst (takeWhile (\<lambda>(k, _). k \<ge> height) (rev (mapCheckpoints cp))) in
      if vHeight = [] then Ret (False, cp)
      else andThen (ResetNotorizedBlock hash_at st (cp\<lparr>mapCheckpoints := filter (\<lambda>(k, _). k \<notin> set vHeight) (mapCheckpoints cp)\<rparr>))
             (\<lambda>cp. Ret (True, cp)))"

section \<open>The table stays ordered\<close>

definition cp_ok :: "CCheckpoints \<Rightarrow> bool" where
  "cp_ok cp \<longleftrightarrow> sorted_wrt (<) (map fst (mapCheckpoints cp))"

lemma map_insert_keys: "fst ` set (map_insert k v m) = insert k (fst ` set m)"
  by (induction m rule: map_insert.induct) auto

lemma map_insert_sorted: "sorted_wrt (<) (map fst m) \<Longrightarrow> sorted_wrt (<) (map fst (map_insert k v m))"
proof (induction k v m rule: map_insert.induct)
  case (2 k v k' v' m)
  then show ?case
    using map_insert_keys [of k v m] by (force simp: image_iff)
qed simp


text \<open>The states that the operations lead to, from a table of fixed checkpoints.\<close>

inductive reachable_checkpoints :: "(blkptr \<Rightarrow> blkhash) \<Rightarrow> blk_chain \<Rightarrow> CCheckpoints \<Rightarrow> bool" for hash_at st where
  start: "sorted_wrt (<) (map fst m) \<Longrightarrow> reachable_checkpoints hash_at st \<lparr>mapCheckpoints = m, hNotaryHeight = 0, hNotaryBlock = 0\<rparr>"
| add: "reachable_checkpoints hash_at st cp \<Longrightarrow> AddCheckpoint hash_at st cp p = Ret (ok, cp') \<Longrightarrow> reachable_checkpoints hash_at st cp'"
| add_at: "reachable_checkpoints hash_at st cp \<Longrightarrow> AddCheckpoint_at hash_at st cp h hash = Ret (ok, cp') \<Longrightarrow> reachable_checkpoints hash_at st cp'"
| remove: "reachable_checkpoints hash_at st cp \<Longrightarrow> RemoveCheckpoint hash_at st cp h = Ret (ok, cp') \<Longrightarrow> reachable_checkpoints hash_at st cp'"

lemma AddCheckpoint_cases:
  assumes "AddCheckpoint hash_at st cp p = Ret (ok, cp')"
  obtains "\<not> ok" "cp' = cp"
  | blk where "ok" "ch_heap st p = Some blk"
      "cp' = cp\<lparr>mapCheckpoints := map_insert (int (nHeight blk)) (hash_at p) (mapCheckpoints cp), hNotaryHeight := nHeight blk, hNotaryBlock := hash_at p\<rparr>"
  using assms by (auto simp: AddCheckpoint_def split: option.splits if_splits)

lemma RemoveCheckpoint_cases:
  assumes "RemoveCheckpoint hash_at st cp h = Ret (ok, cp')"
  obtains "\<not> ok" "cp' = cp"
  | "ok" "mapCheckpoints cp' = filter (\<lambda>(k, _). k \<notin> fst ` set (takeWhile (\<lambda>(k, _). k \<ge> h) (rev (mapCheckpoints cp)))) (mapCheckpoints cp)"
  using assms by (auto simp: RemoveCheckpoint_def ResetNotorizedBlock_def Let_def split: option.splits if_splits)

lemma sorted_filter_fst: "sorted_wrt (<) (map fst m) \<Longrightarrow> sorted_wrt (<) (map fst (filter P m))" for m :: "(int \<times> 'b) list"
  by (induction m) auto

lemma takeWhile_rev_sorted:
  fixes m :: "(int \<times> 'b) list"
  assumes "sorted_wrt (<) (map fst m)"
  shows "set (takeWhile (\<lambda>(k, _). k \<ge> h) (rev m)) = {x \<in> set m. fst x \<ge> h}"
  using assms
proof (induction m rule: rev_induct)
  case (snoc x m)
  then show ?case
    by (cases x) (auto simp: sorted_wrt_append)
qed simp

lemma reachable_cp_ok: "reachable_checkpoints hash_at st cp \<Longrightarrow> cp_ok cp"
proof (induction rule: reachable_checkpoints.induct)
  case (add cp p ok cp')
  then show ?case
    by (elim AddCheckpoint_cases) (simp_all add: cp_ok_def map_insert_sorted)
next
  case (add_at cp h hash ok cp')
  then show ?case
    by (auto simp: AddCheckpoint_at_def cp_ok_def map_insert_sorted elim!: AddCheckpoint_cases split: option.splits if_splits)
next
  case (remove cp h ok cp')
  then show ?case
    by (elim RemoveCheckpoint_cases) (simp_all add: cp_ok_def sorted_filter_fst)
qed (simp add: cp_ok_def)

lemma filter_key: "map_of (filter (\<lambda>(k, _). P k) m) j = (if P j then map_of m j else None)"
  by (induction m) auto

lemma find_some: "find P xs = Some x \<Longrightarrow> P x \<and> x \<in> set xs"
  by (auto simp: find_Some_iff)

lemma last_checkpoint:
  "GetLastCheckpoint st cp = None \<longleftrightarrow> (\<forall>(k, hash) \<in> set (mapCheckpoints cp). ch_table st hash = None)"
  by (auto simp: GetLastCheckpoint_def GetBlockIndexByHash_def find_None_iff split: option.splits dest!: find_some)

lemma last_checkpoint_in: "GetLastCheckpoint st cp = Some p \<Longrightarrow> \<exists>hash. ch_table st hash = Some p"
  by (auto simp: GetLastCheckpoint_def GetBlockIndexByHash_def split: option.splits)

section \<open>Properties\<close>



text \<open>
  C29. Removing checkpoints: when a checkpoint at the height or above is removed and one that remains is
  a known block, exactly the checkpoints at this height and above are gone. When none that remains
  is known, a null pointer is read.
\<close>
theorem RemoveCheckpoint_correct:
  assumes "reachable_checkpoints hash_at st cp" "chain_ok st" "(k, hash) \<in> set (mapCheckpoints cp)" "h \<le> k"
  shows "if \<exists>(j, x) \<in> set (mapCheckpoints cp). j < h \<and> ch_table st x \<noteq> None
    then \<exists>cp'. RemoveCheckpoint hash_at st cp h = Ret (True, cp')
      \<and> (\<forall>j x. CCheckpoints_CheckBlock cp' j x \<longleftrightarrow> (if j < h then CCheckpoints_CheckBlock cp j x else True))
    else RemoveCheckpoint hash_at st cp h = Segv"
proof -
  let ?m = "mapCheckpoints cp"
  let ?cp = "cp\<lparr>mapCheckpoints := filter (\<lambda>(j, _). j < h) ?m\<rparr>"
  have "sorted_wrt (<) (map fst ?m)"
    using reachable_cp_ok [OF assms(1)] by (simp add: cp_ok_def)
  note tw = takeWhile_rev_sorted [OF this, of h]
  have "filter (\<lambda>(j, _). j \<notin> fst ` set (takeWhile (\<lambda>(j, _). j \<ge> h) (rev ?m))) ?m = filter (\<lambda>(j, _). j < h) ?m"
  proof (rule filter_cong)
    fix x
    assume x: "x \<in> set ?m"
    show "(case x of (j, _) \<Rightarrow> j \<notin> fst ` set (takeWhile (\<lambda>(j, _). j \<ge> h) (rev ?m))) = (case x of (j, _) \<Rightarrow> j < h)"
      unfolding tw using x by (auto simp: not_le split: prod.splits intro: rev_image_eqI)
  qed simp
  moreover have "takeWhile (\<lambda>(j, _). j \<ge> h) (rev ?m) \<noteq> []"
    using tw assms(3,4) by (metis (mono_tags, lifting) emptyE fst_conv list.set(1) mem_Collect_eq)
  ultimately have r: "RemoveCheckpoint hash_at st cp h = andThen (ResetNotorizedBlock hash_at st ?cp) (\<lambda>cp. Ret (True, cp))"
    by (simp add: RemoveCheckpoint_def Let_def)
  show ?thesis
  proof (cases "GetLastCheckpoint st ?cp")
    case None
    then show ?thesis
      using r last_checkpoint [of st ?cp] by (auto simp: ResetNotorizedBlock_def)
  next
    case (Some p)
    then obtain c where "ch_heap st p = Some c"
      using last_checkpoint_in [OF Some] chain_okD(2) [OF assms(2)] by blast
    moreover have "\<exists>(j, x) \<in> set ?m. j < h \<and> ch_table st x \<noteq> None"
      using last_checkpoint [of st ?cp] Some by auto
    ultimately show ?thesis
      using r Some by (auto simp: ResetNotorizedBlock_def CCheckpoints_CheckBlock_def filter_key)
  qed
qed

theorem RemoveCheckpoint_correct_witness:
  "RemoveCheckpoint (\<lambda>_. 0) (nd_chain empty_node) \<lparr>mapCheckpoints = [(5, 99)], hNotaryHeight = 0, hNotaryBlock = 0\<rparr> 3 = Segv"
proof -
  have "reachable_checkpoints (\<lambda>_. 0) (nd_chain empty_node) \<lparr>mapCheckpoints = [(5, 99)], hNotaryHeight = 0, hNotaryBlock = 0\<rparr>"
    by (rule reachable_checkpoints.start) simp
  from RemoveCheckpoint_correct [OF this, of 5 99 3] empty_node_inv show ?thesis
    by (simp add: node_inv_def)
qed

end
