(* ===== verification/Block_Accept.thy ===== *)
theory Block_Accept
  imports Block_Witness Checkpoints
begin

text \<open>
  Accepting whole blocks (\<open>validation.cpp\<close>, \<open>shc_block.cpp\<close>): the checks of a block with and without
  its context, \<open>core_AcceptBlock\<close> with the marks it leaves in the index, and the checks of ShionCoin
  blocks. Difficulty, weight, archive and the change of the best chain are methods of the coin, which
  are parameters.
\<close>

unbundle bit_operations_syntax

section \<open>Blocks and their environment\<close>

record CBlock =
  blk_header :: CBlockHeader
  blk_vtx :: "CTransaction list"

text \<open>
  Parameters: the hashes, the limits of the coin, what memory holds, the single hash of a first
  transaction, which transactions are stored, the adjusted time and the height of the best block.
\<close>

record block_env =
  be_header :: header_env
  be_tx :: tx_env
  be_limits :: tx_iface
  be_inner :: "nat \<Rightarrow> uint256"
  be_sha256 :: "CTransaction \<Rightarrow> uint256"
  be_VerifyTxHash :: "uint256 \<Rightarrow> bool"
  be_adjusted_time :: int
  be_best_height :: int

text \<open>The state: that of the headers, and the work of the best chain of the wallet.\<close>

record chain_state =
  cs_node :: node
  cs_best_work :: int

text \<open>The methods of a block that each coin has its own version of.\<close>

record coin_block =
  cb_CheckBlock :: "block_env \<Rightarrow> vb_iface \<Rightarrow> node \<Rightarrow> CBlock \<Rightarrow> (bool \<times> version_bits_caches) res"
  cb_GetAlgo :: "CBlock \<Rightarrow> nat"
  cb_GetNextWorkRequired :: "blkheap \<Rightarrow> blkptr \<Rightarrow> CBlock \<Rightarrow> nat"
  cb_VerifyCheckpoint :: "blk_chain \<Rightarrow> CBlock \<Rightarrow> int \<Rightarrow> bool res"
  cb_GetBlockWeight :: "CBlock \<Rightarrow> int"
  cb_IsAlgoSupported :: "nat \<Rightarrow> blkptr \<Rightarrow> bool"
  cb_WriteArchBlock :: "CBlock \<Rightarrow> bool"
  cb_SetBestChain :: "chain_state \<Rightarrow> CBlock \<Rightarrow> blkptr \<Rightarrow> bool \<times> chain_state"

section \<open>Checks of a block\<close>

definition block_merkle_root :: "block_env \<Rightarrow> vb_iface \<Rightarrow> nat \<Rightarrow> CBlock \<Rightarrow> uint256 res" where
  "block_merkle_root env iface alg blk =
     BuildMerkleTree (hash_ranges (be_tx env)) null256 (tx_hash (be_tx env)) (be_sha256 env) (uses_algo (vb_index iface)) alg (blk_vtx blk)"

definition block_sigops :: "CTransaction list \<Rightarrow> nat" where
  "block_sigops vtx = sum_list (map GetLegacySigOpCount vtx) mod 2 ^ 32"

definition CheckBlock :: "block_env \<Rightarrow> coin_block \<Rightarrow> vb_iface \<Rightarrow> node \<Rightarrow> CBlock \<Rightarrow> (bool \<times> version_bits_caches) res" where
  "CheckBlock env coin iface nd blk =
     (if \<not> CheckBlockHeader (be_header env) (blk_header blk) then Ret (False, nd_caches nd)
      else andThen (block_merkle_root env iface (cb_GetAlgo coin blk) blk)
        (\<lambda>root.
          if hd_hashMerkleRoot (blk_header blk) \<noteq> vch_value root then Ret (False, nd_caches nd)
          else if blk_vtx blk = [] \<or> \<not> IsCoinBase (hd (blk_vtx blk)) then Ret (False, nd_caches nd)
          else if list_ex IsCoinBase (tl (blk_vtx blk)) then Ret (False, nd_caches nd)
          else if \<not> list_all (CheckTransaction (be_tx env) (be_limits env)) (blk_vtx blk) then Ret (False, nd_caches nd)
          else if block_sigops (blk_vtx blk) > max_sigops (be_limits env) then Ret (False, nd_caches nd)
          else cb_CheckBlock coin env iface nd blk))"

definition lock_tx_of :: "CTransaction \<Rightarrow> lock_tx" where
  "lock_tx_of tx = \<lparr>nFlag = tx_nFlag tx, vin_prevouts = map (\<lambda>txin. vch_value (po_hash (in_prevout txin))) (tx_vin tx),
     vin_sequences = map in_nSequence (tx_vin tx), tx_nLockTime = tx_locktime tx\<rparr>"

definition commits_height :: "int \<Rightarrow> CTransaction list \<Rightarrow> bool res" where
  "commits_height height vtx =
     (case vtx of
        tx # _ \<Rightarrow>
          (case tx_vin tx of
             txin # _ \<Rightarrow>
               (let expect = push_int64 height
                in Ret (length (in_scriptSig txin) \<ge> length expect \<and> take (length expect) (in_scriptSig txin) = expect))
           | [] \<Rightarrow> Segv)
      | [] \<Rightarrow> Segv)"

definition lock_time_cutoff :: "blkheap \<Rightarrow> nat \<Rightarrow> blkptr \<Rightarrow> CBlock \<Rightarrow> int res" where
  "lock_time_cutoff hp flags pindexPrev blk =
     (if flags AND 2 ^ 10 \<noteq> 0 then andThen (GetMedianTimePast hp pindexPrev) (\<lambda>m. Ret (int m))
      else Ret (int (hd_time (blk_header blk))))"

definition ContextualCheckBlock ::
  "block_env \<Rightarrow> coin_block \<Rightarrow> vb_iface \<Rightarrow> node \<Rightarrow> CBlock \<Rightarrow> blkptr \<Rightarrow> (bool \<times> version_bits_caches) res" where
  "ContextualCheckBlock env coin iface nd blk pindexPrev =
     (case ch_heap (nd_chain nd) pindexPrev of
        None \<Rightarrow> Segv
      | Some prv \<Rightarrow>
        (let hp = ch_heap (nd_chain nd); height = int (nHeight prv) + 1 in
         andThen (GetBlockScriptFlags hp (nd_caches nd) iface pindexPrev)
           (\<lambda>(flags, vcache).
             andThen (lock_time_cutoff hp flags pindexPrev blk)
               (\<lambda>nLockTimeCutoff.
                 if \<not> list_all (\<lambda>tx. IsFinal (lock_tx_of tx) (be_best_height env) (be_adjusted_time env) height nLockTimeCutoff) (blk_vtx blk)
                 then Ret (False, vcache)
                 else if hd_bits (blk_header blk) \<noteq> cb_GetNextWorkRequired coin hp pindexPrev blk then Ret (False, vcache)
                 else andThen (cb_VerifyCheckpoint coin (nd_chain nd) blk height)
                   (\<lambda>checkpoint.
                     if \<not> checkpoint then Ret (False, vcache)
                     else andThen (if BIP34Height iface \<noteq> -1 \<and> height \<ge> BIP34Height iface then commits_height height (blk_vtx blk) else Ret True)
                       (\<lambda>committed.
                         if \<not> committed then Ret (False, vcache)
                         else andThen (core_CheckBlockWitness (be_tx env) (be_inner env) hp vcache iface (blk_vtx blk) (Some pindexPrev))
                           (\<lambda>(ok, vcache).
                             if \<not> ok then Ret (False, vcache)
                             else if cb_GetBlockWeight coin blk > int (max_block_size (be_limits env)) * 4 then Ret (False, vcache)
                             else if cb_GetAlgo coin blk \<noteq> 0 \<and> \<not> cb_IsAlgoSupported coin (cb_GetAlgo coin blk) pindexPrev then Ret (False, vcache)
                             else Ret (True, vcache))))))))"

section \<open>Accepting a block\<close>

abbreviation (input) BLOCK_HAVE_DATA :: nat where "BLOCK_HAVE_DATA \<equiv> 8"
abbreviation (input) BLOCK_HAVE_UNDO :: nat where "BLOCK_HAVE_UNDO \<equiv> 16"
abbreviation (input) BLOCK_FAILED_VALID :: nat where "BLOCK_FAILED_VALID \<equiv> 32"
abbreviation (input) BLOCK_OPT_WITNESS :: nat where "BLOCK_OPT_WITNESS \<equiv> 128"
abbreviation (input) BLOCK_VALID_TRANSACTIONS :: nat where "BLOCK_VALID_TRANSACTIONS \<equiv> 3"

definition upd_index :: "(CBlockIndex \<Rightarrow> CBlockIndex) \<Rightarrow> blkptr \<Rightarrow> chain_state \<Rightarrow> chain_state" where
  "upd_index f p cs =
     (let nd = cs_node cs; st = nd_chain nd
      in cs\<lparr>cs_node := nd\<lparr>nd_chain := st\<lparr>ch_heap := (ch_heap st)(p := map_option f (ch_heap st p))\<rparr>\<rparr>\<rparr>)"

definition set_status :: "nat \<Rightarrow> blkptr \<Rightarrow> chain_state \<Rightarrow> chain_state" where
  "set_status flag = upd_index (\<lambda>blk. blk\<lparr>nStatus := nStatus blk OR flag\<rparr>)"

definition set_caches :: "version_bits_caches \<Rightarrow> chain_state \<Rightarrow> chain_state" where
  "set_caches vcache cs = cs\<lparr>cs_node := (cs_node cs)\<lparr>nd_caches := vcache\<rparr>\<rparr>"

text \<open>A block that fails is marked in its index, which is also taken out of the best header.\<close>

definition mark_failed :: "blkptr \<Rightarrow> chain_state \<Rightarrow> chain_state" where
  "mark_failed p cs =
     (let cs = set_status BLOCK_FAILED_VALID p cs; nd = cs_node cs; st = nd_chain nd
      in if ch_best st = Some p then cs\<lparr>cs_node := nd\<lparr>nd_chain := st\<lparr>ch_best := None\<rparr>\<rparr>\<rparr> else cs)"

definition received :: "block_env \<Rightarrow> coin_block \<Rightarrow> vb_iface \<Rightarrow> chain_state \<Rightarrow> CBlock \<Rightarrow> blkptr \<Rightarrow> CBlockIndex \<Rightarrow> (bool \<times> chain_state) res" where
  "received env coin iface cs blk p idx =
     (let cs = set_status BLOCK_HAVE_DATA p cs in
      andThen (IsWitnessEnabled (ch_heap (nd_chain (cs_node cs))) (nd_caches (cs_node cs)) iface (pprev idx))
        (\<lambda>(witness, vcache).
          let cs = set_caches vcache cs;
              cs = (if witness then set_status BLOCK_OPT_WITNESS p cs else cs);
              cs = upd_index (\<lambda>blk. snd (RaiseValidity BLOCK_VALID_TRANSACTIONS blk)) p cs
          in if bnChainWork idx \<le> cs_best_work cs
             then Ret (True, if cb_WriteArchBlock coin blk then set_status BLOCK_HAVE_UNDO p cs else cs)
             else Ret (cb_SetBestChain coin cs blk p)))"

definition core_AcceptBlock ::
  "block_env \<Rightarrow> coin_block \<Rightarrow> vb_iface \<Rightarrow> chain_state \<Rightarrow> CBlock \<Rightarrow> blkptr option \<Rightarrow> (bool \<times> chain_state) res" where
  "core_AcceptBlock env coin iface cs blk pindexPrev =
     (case pindexPrev of
        None \<Rightarrow> Ret (False, cs)
      | Some q \<Rightarrow>
        if \<not> block_CheckTransactionInputs (be_tx env) (be_VerifyTxHash env) (blk_vtx blk) then Ret (False, cs)
        else andThen (core_AcceptBlockHeader (be_header env) iface (cs_node cs) (blk_header blk) None)
          (\<lambda>(ok, pindex, nd).
            let cs = cs\<lparr>cs_node := nd\<rparr> in
            if \<not> ok then Ret (False, cs)
            else (case pindex of
                    None \<Rightarrow> Segv
                  | Some p \<Rightarrow>
                    (case (ch_heap (nd_chain nd) p, ch_heap (nd_chain nd) q) of
                       (Some idx, prv) \<Rightarrow>
                         if nStatus idx AND BLOCK_HAVE_DATA \<noteq> 0 then Ret (True, cs)
                         else if prv = None then Segv
                         else andThen (CheckBlock env coin iface nd blk)
                           (\<lambda>(ok, vcache).
                             let cs = set_caches vcache cs in
                             if \<not> ok then Ret (False, mark_failed p cs)
                             else andThen (ContextualCheckBlock env coin iface (cs_node cs) blk q)
                               (\<lambda>(ok, vcache).
                                 let cs = set_caches vcache cs in
                                 if \<not> ok then Ret (False, mark_failed p cs)
                                 else received env coin iface cs blk p idx))
                     | (None, _) \<Rightarrow> Segv))))"

section \<open>The checks of ShionCoin blocks\<close>

definition shc_CheckProofOfWork :: "nat \<Rightarrow> nat \<Rightarrow> int \<Rightarrow> bool" where
  "shc_CheckProofOfWork hash bits limit =
     (let bnTarget = SetCompact bits in
      if bn_int bnTarget \<le> 0 \<or> bn_int bnTarget > limit then False
      else \<not> hash > getuint256 bnTarget)"

text \<open>\<open>genesis\<close> is the hash of the first block, \<open>weight\<close> the serialized weight of a block.\<close>

definition shc_CheckBlock ::
  "blkhash \<Rightarrow> (CBlock \<Rightarrow> int) \<Rightarrow> block_env \<Rightarrow> vb_iface \<Rightarrow> node \<Rightarrow> CBlock \<Rightarrow> (bool \<times> version_bits_caches) res" where
  "shc_CheckBlock genesis weight env iface nd blk =
     (let vtx = blk_vtx blk; block = blk_header blk; refuse = Ret (False, nd_caches nd) in
      if vtx = [] then refuse
      else if weight blk > int (max_block_size (be_limits env)) * 4 then refuse
      else if \<not> IsCoinBase (hd vtx) then refuse
      else if \<not> shc_CheckProofOfWork (pow_of (be_header env) block) (hd_bits block)
                  (if hash_of (be_header env) block = genesis then 2 ^ 236 - 1 else 2 ^ 235 - 1) then refuse
      else if int (hd_time block) > be_adjusted_time env + 720 then refuse
      else if list_ex IsCoinBase (tl vtx) then refuse
      else if \<not> list_all (CheckTransaction (be_tx env) (be_limits env)) vtx then refuse
      else if \<not> distinct (map (tx_hash (be_tx env)) vtx) then refuse
      else if block_sigops vtx > max_sigops (be_limits env) then refuse
      else andThen (block_merkle_root env iface (GetVersionAlgo (hd_version block)) blk)
        (\<lambda>root.
          if hd_hashMerkleRoot block \<noteq> vch_value root then refuse
          else (case ch_table (nd_chain nd) (hd_hashPrevBlock block) of
                  None \<Rightarrow> Ret (True, nd_caches nd)
                | Some pindexPrev \<Rightarrow>
                  core_CheckBlockWitness (be_tx env) (be_inner env) (ch_heap (nd_chain nd)) (nd_caches nd) iface vtx (Some pindexPrev))))"

text \<open>
  A block on a fork below the last checkpoint, or before its time, is returned as \<open>(ERR_INVAL, ...)\<close>,
  whose value is the text, that is true. \<open>best\<close> is the hash of the best block, \<open>cp\<close> the checkpoints
  of the wallet, if it has them.
\<close>

definition shc_VerifyCheckpoint :: "header_env \<Rightarrow> blkhash option \<Rightarrow> CCheckpoints option \<Rightarrow> blk_chain \<Rightarrow> CBlock \<Rightarrow> int \<Rightarrow> bool res" where
  "shc_VerifyCheckpoint env best cp st blk height =
     (let block = blk_header blk;
          listed = (case cp of None \<Rightarrow> True | Some c \<Rightarrow> CCheckpoints_CheckBlock c height (hash_of env block)) in
      case best of
        None \<Rightarrow> Segv
      | Some bestHash \<Rightarrow>
        if hd_hashPrevBlock block \<noteq> bestHash
        then (case (case cp of None \<Rightarrow> None | Some c \<Rightarrow> GetLastCheckpoint st c) of
                None \<Rightarrow> Ret listed
              | Some p \<Rightarrow>
                (case ch_heap st p of
                   None \<Rightarrow> Segv
                 | Some checkpoint \<Rightarrow>
                   if height < int (nHeight checkpoint) then Ret True
                   else if (int (hd_time block) - int (nTime checkpoint)) mod 2 ^ 32 < 0 then Ret True
                   else Ret listed))
        else Ret listed)"

section \<open>What an accepted block has passed\<close>

lemma CheckBlock_true:
  assumes "CheckBlock env coin iface nd blk = Ret (True, vc)"
  shows "CheckBlockHeader (be_header env) (blk_header blk)"
    and "\<exists>root. block_merkle_root env iface (cb_GetAlgo coin blk) blk = Ret root \<and> hd_hashMerkleRoot (blk_header blk) = vch_value root"
    and "\<exists>cb txs. blk_vtx blk = cb # txs \<and> IsCoinBase cb \<and> (\<forall>tx \<in> set txs. \<not> IsCoinBase tx)"
    and "\<forall>tx \<in> set (blk_vtx blk). CheckTransaction (be_tx env) (be_limits env) tx"
    and "block_sigops (blk_vtx blk) \<le> max_sigops (be_limits env)"
    and "cb_CheckBlock coin env iface nd blk = Ret (True, vc)"
proof -
  have h: "CheckBlockHeader (be_header env) (blk_header blk)"
    using assms by (simp add: CheckBlock_def split: if_splits)
  then obtain root where r: "block_merkle_root env iface (cb_GetAlgo coin blk) blk = Ret root"
    using assms by (cases "block_merkle_root env iface (cb_GetAlgo coin blk) blk") (auto simp: CheckBlock_def)
  with h assms show "CheckBlockHeader (be_header env) (blk_header blk)"
    "\<exists>root. block_merkle_root env iface (cb_GetAlgo coin blk) blk = Ret root \<and> hd_hashMerkleRoot (blk_header blk) = vch_value root"
    "\<forall>tx \<in> set (blk_vtx blk). CheckTransaction (be_tx env) (be_limits env) tx"
    "block_sigops (blk_vtx blk) \<le> max_sigops (be_limits env)" "cb_CheckBlock coin env iface nd blk = Ret (True, vc)"
    "\<exists>cb txs. blk_vtx blk = cb # txs \<and> IsCoinBase cb \<and> (\<forall>tx \<in> set txs. \<not> IsCoinBase tx)"
    by (cases "blk_vtx blk"; auto simp: CheckBlock_def list_all_iff list_ex_iff split: if_splits)+
qed



lemma chain_state_simps [simp]:
  "nd_chain (cs_node (set_caches vc cs)) = nd_chain (cs_node cs)"
  "nd_caches (cs_node (set_caches vc cs)) = vc"
  by (simp_all add: set_caches_def)

lemma core_AcceptBlock_known:
  assumes "ch_table (nd_chain (cs_node cs)) (hash_of (be_header env) (blk_header blk)) = Some p" "hd_hashPrevBlock (blk_header blk) \<noteq> 0"
  shows "core_AcceptBlockHeader (be_header env) iface (cs_node cs) (blk_header blk) None = Ret (\<not> failed_at (nd_chain (cs_node cs)) p, Some p, cs_node cs)"
  using assms by (simp add: core_AcceptBlockHeader_def GetBlockIndexByHash_def Let_def)

lemma failed_bits: "(s OR BLOCK_FAILED_VALID) AND BLOCK_FAILED_MASK \<noteq> 0" for s :: nat
proof
  assume "(s OR 32) AND 96 = 0"
  then have "bit ((s OR 32) AND 96) 5 = bit (0 :: nat) 5"
    by simp
  then show False
    by (simp add: bit_and_iff bit_or_iff bit_Suc_0_iff)
qed

lemma mark_failed_simps:
  "ch_table (nd_chain (cs_node (mark_failed p cs))) = ch_table (nd_chain (cs_node cs))"
  "ch_heap (nd_chain (cs_node cs)) p = Some b \<Longrightarrow> failed_at (nd_chain (cs_node (mark_failed p cs))) p"
  by (simp_all add: mark_failed_def set_status_def upd_index_def Let_def failed_at_def failed_bits [simplified])

lemma failed_refused:
  assumes "ch_table (nd_chain (cs_node cs)) (hash_of (be_header env) (blk_header blk)) = Some p" "hd_hashPrevBlock (blk_header blk) \<noteq> 0"
    and "failed_at (nd_chain (cs_node cs)) p"
  shows "core_AcceptBlock env coin iface cs blk r = Ret (False, cs)"
  using core_AcceptBlock_known [OF assms(1,2), of iface] assms(3)
  by (auto simp: core_AcceptBlock_def Let_def split: option.splits)

text \<open>The last transaction of an odd number can be doubled without changing the root.\<close>

lemma pair_up_double: "even (length xs) \<Longrightarrow> pair_up H (xs @ [x, x]) = pair_up H (xs @ [x])"
  by (induction H xs rule: pair_up.induct) auto

lemma merkle_root_double:
  assumes "even (length xs)" "xs \<noteq> []"
  shows "merkle_root H (xs @ [x, x]) = merkle_root H (xs @ [x])"
  using assms pair_up_double [OF assms(1), of H x] by (simp add: merkle_root.simps [of H "xs @ _"])

section \<open>A sample block\<close>

text \<open>A coinbase and two transactions, on top of a first block; the header is known.\<close>

definition sample_body :: "nat \<Rightarrow> script \<Rightarrow> nat \<Rightarrow> CTransaction" where
  "sample_body n s k = \<lparr>tx_nFlag = 1, tx_vin = [\<lparr>in_prevout = \<lparr>po_hash = null256, po_n = n\<rparr>, in_scriptSig = s, in_nSequence = 0xffffffff\<rparr>],
     tx_vout = [\<lparr>out_nValue = 5, out_scriptPubKey = []\<rparr>], tx_wit = [], tx_locktime = k\<rparr>"

definition sample_vtx :: "CTransaction list" where
  "sample_vtx = [sample_body (2 ^ 32 - 1) [0x51, 0x51] 0, sample_body 1 [] 1, sample_body 2 [] 2]"

definition sample_next :: CBlockHeader where
  "sample_next = \<lparr>hd_version = 0x20000000, hd_hashPrevBlock = 1,
     hd_hashMerkleRoot = vch_value (merkle_root (hash_ranges sample_tx_env) (map (tx_hash sample_tx_env) sample_vtx)),
     hd_time = 100, hd_bits = 0x01020000, hd_nonce = 1\<rparr>"

definition sample_block :: CBlock where
  "sample_block = \<lparr>blk_header = sample_next, blk_vtx = sample_vtx\<rparr>"

definition sample_block_env :: block_env where
  "sample_block_env = \<lparr>be_header = sample_env, be_tx = sample_tx_env, be_limits = shc_limits, be_inner = \<lambda>_. null256, be_sha256 = \<lambda>_. null256,
     be_VerifyTxHash = \<lambda>_. True, be_adjusted_time = 1000, be_best_height = 0\<rparr>"

definition sample_coin :: coin_block where
  "sample_coin = \<lparr>cb_CheckBlock = shc_CheckBlock 0 (\<lambda>_. 0), cb_GetAlgo = \<lambda>b. GetVersionAlgo (hd_version (blk_header b)),
     cb_GetNextWorkRequired = \<lambda>_ _ _. 0x01020000, cb_VerifyCheckpoint = shc_VerifyCheckpoint sample_env (Some 1) None,
     cb_GetBlockWeight = \<lambda>_. 0, cb_IsAlgoSupported = \<lambda>_ _. True, cb_WriteArchBlock = \<lambda>_. True, cb_SetBestChain = \<lambda>cs _ _. (True, cs)\<rparr>"

definition sample_heap :: blkheap where
  "sample_heap = [0 \<mapsto> (CBlockIndex_of (header_on 0 0) None)\<lparr>nStatus := 2\<rparr>,
     1 \<mapsto> (CBlockIndex_of sample_next None)\<lparr>pprev := Some 0, nHeight := 1, nStatus := 2, bnChainWork := 10\<rparr>]"

definition sample_state :: chain_state where
  "sample_state = \<lparr>cs_node = \<lparr>nd_chain = \<lparr>ch_heap = sample_heap, ch_table = [1 \<mapsto> 0, 2 \<mapsto> 1], ch_best = Some 1\<rparr>,
     nd_caches = \<lambda>_ _. Map.empty, nd_next = 2\<rparr>, cs_best_work = 5\<rparr>"

text \<open>At the first block no deployment is active.\<close>

definition fresh :: "version_bits_caches \<Rightarrow> bool" where
  "fresh vc \<longleftrightarrow> (\<forall>pos. vc 1 pos None = None \<or> vc 1 pos None = Some THRESHOLD_DEFINED)"

lemma first_state:
  assumes "p = None \<or> (p = Some 0 \<and> hp 0 = Some b \<and> nHeight b = 0)" "fresh vc"
  shows "\<exists>vc'. VersionBitsState hp vc p shc_consensus pos = Ret (THRESHOLD_DEFINED, vc') \<and> fresh vc'"
proof -
  have "period_start (VersionBitsConditionChecker shc_consensus pos) hp p = Ret None"
    using assms(1) by (auto simp: period_start_def VersionBitsConditionChecker_def shc_consensus_def GetAncestor_def)
  moreover have "vb_index shc_consensus = 1"
    by (simp add: shc_consensus_def)
  moreover have "vc 1 pos None = None \<or> vc 1 pos None = Some THRESHOLD_DEFINED"
    using assms(2) by (simp add: fresh_def)
  ultimately show ?thesis
    using assms(2) by (elim disjE) (auto simp: VersionBitsState_def GetStateFor_def walk_back.simps fresh_def)
qed

lemma first_witness:
  assumes "p = None \<or> (p = Some 0 \<and> hp 0 = Some b \<and> nHeight b = 0)" "fresh vc"
  shows "\<exists>vc'. IsWitnessEnabled hp vc shc_consensus p = Ret (False, vc') \<and> fresh vc'"
  using first_state [of p hp b vc 2] assms by (auto simp: IsWitnessEnabled_def)

lemma sample_transactions:
  "IsCoinBase (sample_body (2 ^ 32 - 1) s k)" "\<not> IsCoinBase (sample_body 1 s k)" "\<not> IsCoinBase (sample_body 2 s k)"
  "\<forall>tx \<in> set sample_vtx. CheckTransaction sample_tx_env shc_limits tx" "block_sigops sample_vtx = 0"
proof -
  show cb: "IsCoinBase (sample_body (2 ^ 32 - 1) s k)" "\<not> IsCoinBase (sample_body 1 s k)" "\<not> IsCoinBase (sample_body 2 s k)" for s k
    by (simp_all add: IsCoinBase_def sample_body_def COutPoint_IsNull_def)
  have "check_outputs shc_limits 0 [\<lparr>out_nValue = 5, out_scriptPubKey = []\<rparr>] = None"
    by (simp add: MoneyRange_def tx_HasValidOps.simps)
  then show "\<forall>tx \<in> set sample_vtx. CheckTransaction sample_tx_env shc_limits tx"
    using cb by (simp add: sample_vtx_def CheckTransaction_def)
      (simp add: sample_body_def tx_HasValidOps.simps COutPoint_IsNull_def)
  show "block_sigops sample_vtx = 0"
    by (simp add: block_sigops_def sample_vtx_def sample_body_def GetLegacySigOpCount_def GetSigOpCount_def sigop_loop.simps GetOp2_def)
qed

lemma sample_CheckBlock:
  assumes "ch_table (nd_chain nd) 1 = Some 0" "ch_heap (nd_chain nd) 0 = Some b" "nHeight b = 0" "fresh (nd_caches nd)"
  shows "\<exists>vc. CheckBlock sample_block_env sample_coin shc_consensus nd sample_block = Ret (True, vc) \<and> fresh vc"
proof -
  obtain vc where vc: "IsWitnessEnabled (ch_heap (nd_chain nd)) (nd_caches nd) shc_consensus (Some 0) = Ret (False, vc)" "fresh vc"
    using first_witness [of "Some 0" "ch_heap (nd_chain nd)" b "nd_caches nd"] assms by auto
  then have w: "core_CheckBlockWitness sample_tx_env (\<lambda>_. null256) (ch_heap (nd_chain nd)) (nd_caches nd) shc_consensus sample_vtx (Some 0) = Ret (True, vc)"
    by (simp add: core_CheckBlockWitness_def sample_vtx_def sample_body_def wit_IsNull_def)
  have alg: "GetVersionAlgo 0x20000000 = 0"
    by (simp add: GetVersionAlgo_def IsAlgoBitsMask_def)
  have root: "block_merkle_root sample_block_env shc_consensus 0 sample_block
    = Ret (merkle_root (hash_ranges sample_tx_env) (map (tx_hash sample_tx_env) sample_vtx))"
    by (simp add: block_merkle_root_def sample_block_def sample_block_env_def build_tree sample_vtx_def)
  have pow: "shc_CheckProofOfWork 0 0x01020000 (2 ^ 235 - 1)"
    by (simp add: shc_CheckProofOfWork_def SetCompact_def bn_setvch_def bn_int_def byte_of_def top_bit_def)
  have hashes: "distinct (map (tx_hash sample_tx_env) sample_vtx)"
    by (simp add: sample_vtx_def sample_body_def sample_tx_env_def)
  have vtx: "sample_vtx \<noteq> []" "IsCoinBase (hd sample_vtx)" "\<not> list_ex IsCoinBase (tl sample_vtx)"
    using sample_transactions(1-3) by (simp_all add: sample_vtx_def)
  have all: "list_all (CheckTransaction sample_tx_env shc_limits) sample_vtx"
    using sample_transactions(4) by (simp add: list_all_iff)
  show ?thesis
    using w vc(2) alg root pow hashes vtx all sample_transactions(5) assms(1)
    by (simp add: CheckBlock_def CheckBlockHeader_def sample_block_env_def sample_env_def sample_coin_def sample_block_def sample_next_def shc_CheckBlock_def)
qed

lemma sample_known:
  "ch_table (nd_chain (cs_node sample_state)) (hash_of (be_header sample_block_env) (blk_header sample_block)) = Some 1"
  "hd_hashPrevBlock (blk_header sample_block) \<noteq> 0" "\<not> failed_at (nd_chain (cs_node sample_state)) 1"
  "nd_chain (cs_node sample_state) = \<lparr>ch_heap = sample_heap, ch_table = [1 \<mapsto> 0, 2 \<mapsto> 1], ch_best = Some 1\<rparr>"
  "fresh (nd_caches (cs_node sample_state))" "cs_best_work sample_state = 5"
  "\<exists>b. sample_heap 0 = Some b \<and> nHeight b = 0 \<and> pprev b = None"
  "\<exists>b. sample_heap 1 = Some b \<and> nStatus b = 2 \<and> pprev b = Some 0 \<and> bnChainWork b = 10"
  by (simp_all add: sample_state_def sample_block_env_def sample_env_def sample_block_def sample_next_def failed_at_def sample_heap_def fresh_def CBlockIndex_of_def)

lemma sample_inputs: "block_CheckTransactionInputs (be_tx sample_block_env) (be_VerifyTxHash sample_block_env) (blk_vtx sample_block)"
  by (simp add: block_CheckTransactionInputs_def CheckTransactionInputs_def sample_block_def sample_vtx_def sample_block_env_def sample_transactions)
    (simp add: sample_body_def IsCoinBase_def COutPoint_IsNull_def)


section \<open>Properties\<close>



text \<open>
  C7. A valid block can be spoiled before it arrives: doubling the last transaction of a block with an
  odd number of them gives another block with the same header. It is refused as a duplicate, its
  header is marked as failed, and from then on the valid block is refused too.
\<close>
theorem core_AcceptBlock_spoiled:
  fixes blk :: CBlock
  defines "double \<equiv> blk\<lparr>blk_vtx := blk_vtx blk @ [last (blk_vtx blk)]\<rparr>"
  assumes "ch_table (nd_chain (cs_node cs)) (hash_of (be_header env) (blk_header blk)) = Some p" "hd_hashPrevBlock (blk_header blk) \<noteq> 0"
    and "ch_heap (nd_chain (cs_node cs)) p = Some idx" "\<not> failed_at (nd_chain (cs_node cs)) p" "nStatus idx AND BLOCK_HAVE_DATA = 0"
    and "ch_heap (nd_chain (cs_node cs)) q \<noteq> None"
    and "cb_CheckBlock coin = shc_CheckBlock genesis weight" "cb_GetAlgo coin blk = 0" "cb_GetAlgo coin double = 0"
    and "CheckBlock env coin iface (cs_node cs) blk = Ret (True, vc)"
    and "block_CheckTransactionInputs (be_tx env) (be_VerifyTxHash env) (blk_vtx blk)"
    and "odd (length (blk_vtx blk))" "1 < length (blk_vtx blk)"
  shows "\<exists>cs'. core_AcceptBlock env coin iface cs double (Some q) = Ret (False, cs')
    \<and> (\<forall>r. core_AcceptBlock env coin iface cs' blk r = Ret (False, cs'))"
proof -
  let ?H = "hash_ranges (be_tx env)" and ?hash = "tx_hash (be_tx env)"
  obtain txs t where v: "blk_vtx blk = txs @ [t]" "txs \<noteq> []" "even (length txs)"
    using assms(13,14) by (cases "blk_vtx blk" rule: rev_exhaust) auto
  have d: "blk_vtx double = txs @ [t, t]" "blk_header double = blk_header blk"
    using v(1) by (simp_all add: double_def)
  have "block_merkle_root env iface 0 double = block_merkle_root env iface 0 blk"
    using build_tree [of "blk_vtx double" _ 0 ?H null256 ?hash] build_tree [of "blk_vtx blk" _ 0 ?H null256 ?hash]
      merkle_root_double [of "map ?hash txs" ?H "?hash t"] v d by (simp add: block_merkle_root_def)
  then have "CheckBlock env coin iface (cs_node cs) double = Ret (False, nd_caches (cs_node cs))"
    using CheckBlock_true [OF assms(11)] assms(8-10) v d
    by (cases txs) (auto simp: CheckBlock_def shc_CheckBlock_def Let_def list_all_iff list_ex_iff)
  moreover have "block_CheckTransactionInputs (be_tx env) (be_VerifyTxHash env) (blk_vtx double)"
    using assms(12) v d by (simp add: block_CheckTransactionInputs_def in_block_def list_all_iff list_ex_iff)
  moreover have "ch_table (nd_chain (cs_node cs)) (hash_of (be_header env) (blk_header double)) = Some p" "hd_hashPrevBlock (blk_header double) \<noteq> 0"
    using assms(2,3) d by simp_all
  ultimately have "core_AcceptBlock env coin iface cs double (Some q) = Ret (False, mark_failed p (set_caches (nd_caches (cs_node cs)) cs))"
    using core_AcceptBlock_known [of cs env double p iface] assms(4-7) by (auto simp: core_AcceptBlock_def Let_def)
  then show ?thesis
    using failed_refused [OF _ assms(3), of "mark_failed p (set_caches (nd_caches (cs_node cs)) cs)" env p] assms(2,4)
    by (simp add: mark_failed_simps)
qed

theorem core_AcceptBlock_spoiled_witness:
  "\<exists>cs'. core_AcceptBlock sample_block_env sample_coin shc_consensus sample_state (sample_block\<lparr>blk_vtx := sample_vtx @ [sample_body 2 [] 2]\<rparr>) (Some 0) = Ret (False, cs')
    \<and> (\<forall>r. core_AcceptBlock sample_block_env sample_coin shc_consensus cs' sample_block r = Ret (False, cs'))"
proof -
  obtain b idx where b: "sample_heap 0 = Some b" "nHeight b = 0" and idx: "sample_heap 1 = Some idx" "nStatus idx = 2"
    using sample_known(7,8) by blast
  obtain vc where vc: "CheckBlock sample_block_env sample_coin shc_consensus (cs_node sample_state) sample_block = Ret (True, vc)"
    using sample_CheckBlock [of "cs_node sample_state" b] b sample_known(4,5) by auto
  have alg: "cb_GetAlgo sample_coin sample_block = 0" "cb_GetAlgo sample_coin (sample_block\<lparr>blk_vtx := v\<rparr>) = 0" for v
    by (simp_all add: sample_coin_def sample_block_def sample_next_def GetVersionAlgo_def IsAlgoBitsMask_def)
  have v: "blk_vtx sample_block = sample_vtx" "length sample_vtx = 3" "last sample_vtx = sample_body 2 [] 2"
    by (simp_all add: sample_block_def sample_vtx_def)
  have c: "cb_CheckBlock sample_coin = shc_CheckBlock 0 (\<lambda>_. 0)"
    by (simp add: sample_coin_def)
  from core_AcceptBlock_spoiled [OF sample_known(1,2) _ sample_known(3) _ _ c alg vc sample_inputs, of idx 0] show ?thesis
    using sample_known(4) b idx v by simp
qed

text \<open>
  Forks below a checkpoint are not refused: a block that does not extend the best block and is
  below the last known checkpoint passes, also if a fixed checkpoint asks for another block at its
  height.
\<close>
lemma shc_VerifyCheckpoint_fork:
  assumes "hd_hashPrevBlock (blk_header blk) \<noteq> best" "GetLastCheckpoint st cp = Some p" "ch_heap st p = Some checkpoint"
    and "height < int (nHeight checkpoint)"
  shows "shc_VerifyCheckpoint env (Some best) (Some cp) st blk height = Ret True"
  using assms by (simp add: shc_VerifyCheckpoint_def)

end
