(* ===== verification/Spec2Isabelle.thy ===== *)
theory Spec2Isabelle
  imports Store_Correct Script_Correct Coin_Witness Block_Accept
begin

text \<open>
  \<^bold>\<open>Verification of the ShionCoin daemon.\<close>

  The daemon keeps the block chains of several coins. Paths below are relative to
  \<open>src/src/shioncoin\<close>, except for \<open>libcoin\<close>, which is \<open>src/src/libcoin\<close>. A block arrives with its header
  and its transactions. The header is checked and entered in a table of block indexes; the body is
  checked on its own and in the context of its chain, where deployments, lock times, checkpoints and
  witness commitments decide which rules hold; a transaction is authorised by its scripts, which pay
  to destinations that users write as addresses; blocks and transactions are kept in record stores on
  mapped files. The development models these parts and leaves out what is around them.

  \<^bold>\<open>Conventions\<close> (\<open>Coin_Prelude\<close>). The outcome of a piece of C or C++ is \<open>Ret\<close> with its result, \<open>Segv\<close>
  where it reads through a null pointer, outside a mapping or past the end of a vector, or \<open>Hang\<close> where a
  loop uses up its rounds. State is passed explicitly and returned updated; pointers to block indexes
  are keys of a heap. Bytes are words of 8 bits. Wider unsigned integers are natural numbers with the
  reduction modulo a power of two written where the code can wrap; signed ones are integers, reduced
  likewise. Log lines and statistics are left out.

  \<^bold>\<open>The record store\<close> (\<open>blockchain/\<close>, \<open>shcoind_descriptor.c\<close>, the checksum of the share library).
  \<open>Descriptor\<close> is the table of descriptors, \<open>Bc_Map\<close> the mapped files and their lock with their
  invariant in \<open>Bc_Map_Props\<close>, \<open>Bc_Store\<close> the index record, \<open>Bc_Table\<close> the hash table, \<open>Bc_Index\<close> the
  index, \<open>Bc_Arch\<close> the archive, \<open>Shcrc\<close> the checksum and \<open>Bc_Block\<close> the store made of them. System calls
  may fail: their results to come are part of the state, and the refinement is for runs in which they succeed. The locale \<open>codec\<close> is the contract of the
  encodings, \<open>lock_balanced\<close> that of the functions under the lock, \<open>record_store\<close> the one that index and
  archive share, \<open>pos_cache\<close> that of the hash table. \<open>Bc_Block_Props\<close> and \<open>Bc_Log\<close> prove that the store
  implements two lists of records (locale \<open>rec_log\<close>), and \<open>Store_Correct\<close> states it for every sequence of
  operations.

  \<^bold>\<open>Scripts\<close> (\<open>server/script.h\<close>, \<open>server/script.cpp\<close>, \<open>server/ext/txext.cpp\<close>). \<open>Script_Num\<close> has the numbers
  (\<open>CScriptNum\<close>, \<open>CBigNum\<close>), \<open>Script_Code\<close> the instruction reader, the writers and the forms of scripts,
  \<open>Script_Eval\<close> the function \<open>EvalScript\<close> with every opcode, \<open>Script_Verify\<close> \<open>VerifyScript\<close> and the
  witness programs, \<open>Script_Solver\<close> \<open>Solver\<close> and the destinations. \<open>Script_Run\<close> and \<open>Script_Standard\<close>
  hold the lemmas on single steps and on the standard scripts. \<open>Script_Correct\<close> and \<open>Script_Dest\<close> show
  what an accepted spend implies, who can spend each standard output, that evaluation ends within the
  limits, and that destinations are read back. Signature checks, hashes and proofs of other chains are
  parameters.

  \<^bold>\<open>Addresses\<close> (\<open>server/base58.*\<close>, \<open>libcoin/bech32.cpp\<close>, \<open>server/coinaddr.*\<close>, \<open>server/keystore.cpp\<close>,
  \<open>proto/\<close>). \<open>Base58\<close>, \<open>Bech32\<close> and \<open>Convert_Bits\<close> have the texts, \<open>Coin_Addr\<close> and \<open>Coin_Witness\<close> the
  addresses of each coin, the scripts of addresses and witness addresses. Shown are the round trips
  and that the bech32 checksum finds a wrong character. The hash of the checksum is a parameter.

  \<^bold>\<open>Block indexes and deployments\<close> (\<open>server/block.*\<close>, \<open>server/algobits.cpp\<close>, \<open>server/versionbits.*\<close>).
  \<open>Block_Bits\<close> has compact targets, proof of work and the rewards of ShionCoin, \<open>Block_Index\<close> the table
  of indexes with skip pointers, \<open>Version_Bits\<close> the deployments with their cache. The table stays a tree
  with right heights; searches with skip pointers and with the cache return what the plain definitions
  return; deployments move only forward and are activated by enough signals.

  \<^bold>\<open>Checks of blocks\<close> (\<open>server/validation.cpp\<close>, \<open>server/block.cpp\<close>, \<open>server/main.cpp\<close>,
  \<open>server/checkpoints.*\<close>, \<open>server/wit_merkle.cpp\<close>, \<open>server/shc/shc_block.cpp\<close>). \<open>Header_Accept\<close> accepts
  headers; \<open>Tx_Lock\<close> has lock times, sequence locks and the script rules of a block; \<open>Merkle\<close> the roots and
  branches; \<open>Tx_Check\<close> the transactions and their signature operations; \<open>Block_Witness\<close> the commitment to
  witnesses; \<open>Checkpoints\<close> the map of checkpoints; \<open>Block_Accept\<close> puts them together in \<open>CheckBlock\<close>,
  \<open>ContextualCheckBlock\<close> and \<open>core_AcceptBlock\<close>, and has the checks of ShionCoin blocks. What an accepted
  header and an accepted block satisfy is stated in full, as is what goes wrong where a check returns
  the value of a comma expression or marks a header for a fault of its body.

  \<^bold>\<open>Parameters\<close>. Hashes, signature checks, the serialized sizes, the clock, the transactions that are
  stored, and the methods that each coin has its own version of (required difficulty, weight,
  archive, \<open>SetBestChain\<close>) are arguments of the definitions. Where a property needs a fact of them, such as the length of a
  hash or that it has no collisions, it is a hypothesis, and the property is applied to a concrete
  instance.

  \<^bold>\<open>Bounds and rounds\<close>. Most loops are functions that are total. \<open>common_walk\<close>, the count of signals and the walk of
  deployments back to a cached period get the height of the block plus one as rounds, which is enough as heights fall
  with every step; the last loop of the merkle computation gets 32, the number of levels there can be. \<open>bc_purge\<close>
  takes its number of rounds as an argument, and ends for positions above 0 with more rounds than there are
  records; for position 0 it never ends, whatever the number. \<open>last_data\<close> is \<open>Hang\<close> where an
  instruction cannot be read, as the loop of the code then reads it again for ever. Lists of
  transactions are shorter than \<open>2 ^ 31\<close>, and files shorter than what a 32-bit size can hold.

  \<^bold>\<open>Not modelled\<close>. Connecting and disconnecting blocks, the change of the best chain, the pool and the
  wallet work on databases, on the cache of transactions and on random choices. Required difficulty
  and fee statistics use floating-point numbers. Signing, keys and the hashes call libraries for curves, lattices and
  digests. Certificates, aliases, matrices and the other extended transactions are modelled only as the
  prefix they put before an output script. Networking, stratum, commands and start-up are sockets, timers and
  text. What \<open>core_AcceptBlock\<close> does after \<open>SetBestChain\<close> (relay, statistics, removal from the pool) changes
  nothing of the modelled state.
\<close>

end
